(* ===== verification/Prelude.thy ===== *)
theory Prelude
  imports Main "HOL-Library.Word"
begin

text \<open>
  Prelude of the development: the machine types of the C++ code, the three ways a piece of
  C++ can end (a value, an exception, undefined behaviour), byte buffers with a checked
  \<open>memcpy\<close>, and the notion of reachable state with the locale that turns a step-wise
  invariant into an invariant of all reachable states.  Everything here is generic; the
  components of the program import it.
\<close>

named_theorems cxx_simps "unfolding the outcomes of C++ code"
named_theorems size_simps "size_t arithmetic inside its range"
named_theorems buf_simps "reads and writes of byte buffers"

section \<open>Machine types\<close>

type_synonym byte = "8 word"
type_synonym short = "16 word"

text \<open>
  The host is x86-64 (\<open>platform/toolchain_x86_64.cmake\<close>): \<open>short\<close> has 16 bits, \<open>int\<close> 32,
  \<open>size_t\<close> 64, and words are stored least significant byte first.  A \<open>short\<close> is a
  16-bit word read with \<^const>\<open>sint\<close>; a \<open>size_t\<close> is a natural number below \<open>2 ^ 64\<close>, and an
  \<open>int\<close> that meets a \<open>size_t\<close> is converted modulo \<open>2 ^ 64\<close> first.
\<close>

abbreviation short_val :: "short \<Rightarrow> int" where
  "short_val w \<equiv> sint w"

definition size_of_int :: "int \<Rightarrow> nat" where
  "size_of_int i = nat (i mod 2 ^ 64)"

definition size_add :: "nat \<Rightarrow> int \<Rightarrow> nat" where
  "size_add n i = (n + size_of_int i) mod 2 ^ 64"

definition size_sub :: "nat \<Rightarrow> int \<Rightarrow> nat" where
  "size_sub n i = nat ((int n - i) mod 2 ^ 64)"

definition size_less :: "nat \<Rightarrow> int \<Rightarrow> bool" where
  "size_less n i \<longleftrightarrow> n < size_of_int i"

lemma size_of_int_nonneg [size_simps]: "0 \<le> i \<Longrightarrow> i < 2 ^ 64 \<Longrightarrow> size_of_int i = nat i"
  by (simp add: size_of_int_def)

lemma size_of_int_of_nat [size_simps]: "n < 2 ^ 64 \<Longrightarrow> size_of_int (int n) = n"
  by (simp add: size_of_int_nonneg)

lemma size_sub_of_nat [size_simps]: "k \<le> n \<Longrightarrow> n < 2 ^ 64 \<Longrightarrow> size_sub n (int k) = n - k"
  by (simp add: size_sub_def flip: of_nat_diff)

lemma size_less_of_nat [size_simps]: "k < 2 ^ 64 \<Longrightarrow> size_less n (int k) \<longleftrightarrow> n < k"
  by (simp add: size_less_def size_of_int_of_nat)

lemma size_of_int_neg: "- (2 ^ 63) \<le> i \<Longrightarrow> i < 0 \<Longrightarrow> 2 ^ 63 \<le> size_of_int i"
proof -
  assume a: "- (2 ^ 63) \<le> i" "i < 0"
  have "i mod 2 ^ 64 = (i + 2 ^ 64) mod 2 ^ 64" by simp
  also have "\<dots> = i + 2 ^ 64" using a by (intro mod_pos_pos_trivial) auto
  finally show ?thesis using a by (simp add: size_of_int_def)
qed

lemma size_less_nonneg [size_simps]: "0 \<le> i \<Longrightarrow> i < 2 ^ 64 \<Longrightarrow> size_less n i \<longleftrightarrow> int n < i"
  by (auto simp: size_less_def size_of_int_nonneg)

lemma size_less_neg: "- (2 ^ 63) \<le> i \<Longrightarrow> i < 0 \<Longrightarrow> n < 2 ^ 63 \<Longrightarrow> size_less n i"
  using size_of_int_neg [of i] by (simp add: size_less_def)

lemma size_sub_le [size_simps]: "0 \<le> i \<Longrightarrow> i \<le> int n \<Longrightarrow> n < 2 ^ 64 \<Longrightarrow> size_sub n i = n - nat i"
  by (simp add: size_sub_def nat_diff_distrib)

lemma size_add_small [size_simps]:
  "0 \<le> i \<Longrightarrow> int n + i < 2 ^ 64 \<Longrightarrow> size_add n i = n + nat i"
  by (simp add: size_add_def size_of_int_nonneg nat_less_iff zless_nat_conj)

lemma short_of_nat [simp]: "n < 2 ^ 15 \<Longrightarrow> short_val (word_of_nat n) = int n"
  by (simp add: signed_of_nat signed_take_bit_int_eq_self)

lemma short_range: "- (2 ^ 15) \<le> short_val w" "short_val w < 2 ^ 15"
  using sint_greater_eq [of w] sint_less [of w] by simp_all

section \<open>Outcomes of C++ code\<close>

datatype cxx_exn =
    BadArrayNewLength
  | JsonError
  | EmptyStack
  | HierarchyViolated
  | OtherError

datatype 'a cxx =
    Ok 'a
  | Throw cxx_exn
  | UB

text \<open>
  \<open>Throw\<close> is a C++ exception that a \<open>catch\<close> may stop; \<open>UB\<close> is an access outside its
  object, after which the language promises nothing.
\<close>

fun cxx_bind :: "'a cxx \<Rightarrow> ('a \<Rightarrow> 'b cxx) \<Rightarrow> 'b cxx" where
  "cxx_bind (Ok x) f = f x"
| "cxx_bind (Throw e) f = Throw e"
| "cxx_bind UB f = UB"

lemmas [cxx_simps] = cxx_bind.simps

lemma cxx_bind_assoc: "cxx_bind (cxx_bind m f) g = cxx_bind m (\<lambda>x. cxx_bind (f x) g)"
  by (cases m) auto

lemma cxx_bind_eq_Ok: "cxx_bind m f = Ok y \<longleftrightarrow> (\<exists>x. m = Ok x \<and> f x = Ok y)"
  by (cases m) auto

lemma cxx_bind_Ok_right [simp]: "cxx_bind m Ok = m"
  by (cases m) auto

text \<open>A failed outcome at another type.\<close>

fun fail_as :: "'a cxx \<Rightarrow> 'b cxx" where
  "fail_as (Throw e) = Throw e"
| "fail_as _ = UB"

lemma cxx_bind_fail: "(\<And>x. m \<noteq> Ok x) \<Longrightarrow> cxx_bind m f = fail_as m"
  by (cases m) auto

lemma fail_as_not_Ok [simp]: "fail_as m \<noteq> Ok x"
  by (cases m) auto

lemma fail_as_idem [simp]: "fail_as (fail_as m) = fail_as m"
  by (cases m) auto

fun cxx_fold :: "('w \<Rightarrow> 'm \<Rightarrow> 'w cxx) \<Rightarrow> 'w \<Rightarrow> 'm list \<Rightarrow> 'w cxx" where
  "cxx_fold f w [] = Ok w"
| "cxx_fold f w (m # ms) = cxx_bind (f w m) (\<lambda>w'. cxx_fold f w' ms)"

lemma cxx_fold_append:
  "cxx_fold f w (ms @ ns) = cxx_bind (cxx_fold f w ms) (\<lambda>w'. cxx_fold f w' ns)"
  by (induction ms arbitrary: w) (auto simp: cxx_bind_assoc)

lemma cxx_fold_total:
  assumes "\<And>w m. m \<in> set ms \<Longrightarrow> f w m = Ok (g w m)"
  shows "cxx_fold f w ms = Ok (foldl g w ms)"
  using assms by (induction ms arbitrary: w) (auto simp: cxx_simps)

section \<open>Byte buffers\<close>

text \<open>
  \<open>memcpy(dst + off, src, n)\<close> with both extents checked: outside them the call is undefined.
  \<open>buf_put\<close> is one indexed store.
\<close>

definition memcpy_at :: "byte list \<Rightarrow> int \<Rightarrow> byte list \<Rightarrow> nat \<Rightarrow> byte list cxx" where
  "memcpy_at dst off src n =
     (if 0 \<le> off \<and> nat off + n \<le> length dst \<and> n \<le> length src
      then Ok (take (nat off) dst @ take n src @ drop (nat off + n) dst) else UB)"

definition buf_put :: "byte list \<Rightarrow> int \<Rightarrow> byte \<Rightarrow> byte list cxx" where
  "buf_put dst i b = (if 0 \<le> i \<and> nat i < length dst then Ok (dst[nat i := b]) else UB)"

lemma memcpy_at_Ok [buf_simps]:
  "0 \<le> off \<Longrightarrow> nat off + n \<le> length dst \<Longrightarrow> n \<le> length src \<Longrightarrow>
     memcpy_at dst off src n = Ok (take (nat off) dst @ take n src @ drop (nat off + n) dst)"
  by (simp add: memcpy_at_def)

lemma memcpy_at_mid:
  "int (length a) = off \<Longrightarrow> length b = n \<Longrightarrow> n \<le> length src \<Longrightarrow>
     memcpy_at (a @ b @ c) off src n = Ok (a @ take n src @ c)"
  by (auto simp: memcpy_at_def)

lemma memcpy_at_UB: "length dst < nat off + n \<Longrightarrow> memcpy_at dst off src n = UB"
  by (simp add: memcpy_at_def)

lemma memcpy_at_length: "memcpy_at dst off src n = Ok d \<Longrightarrow> length d = length dst"
  by (auto simp: memcpy_at_def split: if_splits)

lemma buf_put_Ok [buf_simps]:
  "0 \<le> i \<Longrightarrow> nat i < length dst \<Longrightarrow> buf_put dst i b = Ok (dst[nat i := b])"
  by (simp add: buf_put_def)

lemma buf_put_mid: "int (length a) = i \<Longrightarrow> buf_put (a @ x # c) i b = Ok (a @ b # c)"
  by (auto simp: buf_put_def list_update_append)

lemma buf_put_neg [buf_simps]: "i < 0 \<Longrightarrow> buf_put dst i b = UB"
  by (simp add: buf_put_def)

lemma case_option_Some: "(case r of None \<Rightarrow> False | Some x \<Rightarrow> P x) \<Longrightarrow> \<exists>x. r = Some x \<and> P x"
  by (cases r) auto

lemma case_Some_Ok: "(case r of Some (Ok x) \<Rightarrow> P x | _ \<Rightarrow> False) \<Longrightarrow> \<exists>x. r = Some (Ok x) \<and> P x"
  by (auto split: option.splits cxx.splits)

section \<open>Counting threads\<close>

text \<open>How many members of a list of thread states satisfy a predicate, and what one step changes.\<close>

definition how_many :: "('a \<Rightarrow> bool) \<Rightarrow> 'a list \<Rightarrow> nat" where
  "how_many P xs = length (filter P xs)"

lemma how_many_update:
  "i < length xs \<Longrightarrow> how_many P (xs[i := x]) + (if P (xs ! i) then 1 else 0) = how_many P xs + (if P x then 1 else 0)"
proof (induction xs arbitrary: i)
  case (Cons y ys)
  show ?case
  proof (cases i)
    case (Suc j)
    then show ?thesis using Cons.IH [of j] Cons.prems by (simp add: how_many_def split: if_splits)
  qed (simp add: how_many_def)
qed simp

lemma how_many_Nil [simp]: "how_many P [] = 0"
  by (simp add: how_many_def)

lemma how_many_replicate [simp]: "how_many P (replicate n x) = (if P x then n else 0)"
  by (induction n) (auto simp: how_many_def)

lemma how_many_pos: "x \<in> set xs \<Longrightarrow> P x \<Longrightarrow> 0 < how_many P xs"
  by (auto simp: how_many_def filter_empty_conv)

lemma how_many_0: "how_many P xs = 0 \<longleftrightarrow> (\<forall>x\<in>set xs. \<not> P x)"
  by (auto simp: how_many_def filter_empty_conv)

section \<open>Reachable states and invariants\<close>

inductive reachable :: "('s \<Rightarrow> bool) \<Rightarrow> ('s \<Rightarrow> 's \<Rightarrow> bool) \<Rightarrow> 's \<Rightarrow> bool"
  for init step where
  reach_init: "init s \<Longrightarrow> reachable init step s"
| reach_step: "reachable init step s \<Longrightarrow> step s t \<Longrightarrow> reachable init step t"

inductive steps :: "('s \<Rightarrow> 's \<Rightarrow> bool) \<Rightarrow> 's \<Rightarrow> 's \<Rightarrow> bool" for step where
  steps_refl: "steps step s s"
| steps_step: "step s t \<Longrightarrow> steps step t u \<Longrightarrow> steps step s u"

lemma reachable_start: "reachable (\<lambda>st. st = s) step s"
  by (rule reach_init) (rule refl)

lemma reachable_steps: "steps step s t \<Longrightarrow> reachable init step s \<Longrightarrow> reachable init step t"
  by (induction rule: steps.induct) (auto intro: reach_step)

locale step_invariant =
  fixes init :: "'s \<Rightarrow> bool" and step :: "'s \<Rightarrow> 's \<Rightarrow> bool" and inv :: "'s \<Rightarrow> bool"
  assumes inv_init: "init s \<Longrightarrow> inv s"
    and inv_step: "inv s \<Longrightarrow> step s t \<Longrightarrow> inv t"
begin

lemma reachable_inv: "reachable init step s \<Longrightarrow> inv s"
  by (induction rule: reachable.induct) (auto intro: inv_init inv_step)

lemma steps_inv: "steps step s t \<Longrightarrow> inv s \<Longrightarrow> inv t"
  by (induction rule: steps.induct) (auto intro: inv_step)

end

end
