(* ===== verification/MsgNode.thy ===== *)
theory MsgNode
  imports Prelude
begin

text \<open>
  The message nodes of the socket servers (\<open>MsgNode.h\<close>, \<open>MsgNode.cpp\<close> and the \<open>MsgNode\<close>
  classes inside the \<open>CSession.h\<close> files of \<open>example/boost/asio/socket\<close>): the byte order of
  16-bit header fields, the constructors with their array allocations and copies, and
  \<open>Clear\<close>.  Every access outside the allocated array is \<^const>\<open>UB\<close>, and an allocation with a
  negative bound throws, as \<open>new char[n]\<close> does.
\<close>

unbundle bit_operations_syntax

section \<open>16-bit fields in memory\<close>

text \<open>\<open>memcpy(&w, p, 2)\<close> and \<open>memcpy(p, &w, 2)\<close> on a little-endian host.\<close>

definition le_short :: "byte list \<Rightarrow> short" where
  "le_short bs = ucast (bs ! 0) OR push_bit 8 (ucast (bs ! 1))"

definition le_bytes :: "short \<Rightarrow> byte list" where
  "le_bytes w = [ucast w, ucast (drop_bit 8 w)]"

text \<open>\<open>network_to_host_short\<close> and \<open>host_to_network_short\<close>: both swap the two bytes here.\<close>

definition swap16 :: "short \<Rightarrow> short" where
  "swap16 w = push_bit 8 w OR drop_bit 8 w"

lemma length_le_bytes [simp]: "length (le_bytes w) = 2"
  by (simp add: le_bytes_def)

lemma le_short_bytes [simp]: "le_short (le_bytes w) = w"
  by (rule bit_word_eqI)
     (auto simp: le_short_def le_bytes_def bit_simps)

lemma le_short_append [simp]: "le_short (le_bytes w @ bs) = w"
  using le_short_bytes [of w] by (simp add: le_short_def le_bytes_def)

lemma le_bytes_take [simp]: "take 2 (le_bytes w @ bs) = le_bytes w"
  by (simp add: le_bytes_def)

lemma swap16_swap16 [simp]: "swap16 (swap16 w) = w"
  by (rule bit_word_eqI) (auto simp: swap16_def bit_simps)

lemma le_short_drop:
  "le_short (drop 2 (le_bytes v @ le_bytes w @ bs)) = w"
  using le_short_append [of w bs] by (simp add: le_bytes_def)

section \<open>Nodes\<close>

text \<open>
  One record serves all the node classes: \<open>msg_id\<close> is the \<open>_msg_id\<close> of \<open>RecvNode\<close> and
  \<open>SendNode\<close>, and stays 0 in the servers whose \<open>MsgNode\<close> has no such field.
\<close>

record msg_node =
  cur_len :: short
  total_len :: short
  node_data :: "byte list"
  msg_id :: short

definition new_char_array :: "int \<Rightarrow> byte list cxx" where
  "new_char_array n = (if n < 0 then Throw BadArrayNewLength else Ok (replicate (nat n) 0))"

lemma new_char_array_Ok [buf_simps]: "0 \<le> n \<Longrightarrow> new_char_array n = Ok (replicate (nat n) 0)"
  by (simp add: new_char_array_def)

lemma new_char_array_neg [buf_simps]: "n < 0 \<Longrightarrow> new_char_array n = Throw BadArrayNewLength"
  by (simp add: new_char_array_def)

text \<open>
  \<open>MsgNode(short max_len)\<close> of \<open>AsyncServer03\<close>, \<open>AsyncServer04\<close> and \<open>ProtobufServer\<close>:
  \<open>_data = new char[_total_len + 1]()\<close> and nothing more.
\<close>

definition plain_MsgNode :: "short \<Rightarrow> msg_node cxx" where
  "plain_MsgNode max_len =
     cxx_bind (new_char_array (short_val max_len + 1)) (\<lambda>d.
       Ok \<lparr>cur_len = 0, total_len = max_len, node_data = d, msg_id = 0\<rparr>)"

text \<open>
  \<open>MsgNode(short max_len)\<close> of the servers with a message id also stores the terminator,
  \<open>_data[_total_len] = '\0'\<close>.
\<close>

definition nul_MsgNode :: "short \<Rightarrow> msg_node cxx" where
  "nul_MsgNode max_len =
     cxx_bind (new_char_array (short_val max_len + 1)) (\<lambda>d.
     cxx_bind (buf_put d (short_val max_len) 0) (\<lambda>d'.
       Ok \<lparr>cur_len = 0, total_len = max_len, node_data = d', msg_id = 0\<rparr>))"

definition RecvNode :: "short \<Rightarrow> short \<Rightarrow> msg_node cxx" where
  "RecvNode max_len mid = cxx_bind (nul_MsgNode max_len) (\<lambda>n. Ok (n\<lparr>msg_id := mid\<rparr>))"

text \<open>\<open>Clear\<close>: \<open>memset(_data, 0, _total_len); _cur_len = 0\<close>.\<close>

definition Clear :: "msg_node \<Rightarrow> msg_node cxx" where
  "Clear n =
     (if size_of_int (short_val (total_len n)) \<le> length (node_data n)
      then Ok (n\<lparr>node_data := replicate (size_of_int (short_val (total_len n))) 0 @
                   drop (size_of_int (short_val (total_len n))) (node_data n),
                 cur_len := 0\<rparr>)
      else UB)"

section \<open>Send-side constructors\<close>

text \<open>
  \<open>MsgNode(char* msg, short max_len)\<close>: the node holds a two-byte length prefix and the body.
  \<open>AsyncServer03\<close> writes the prefix in host order, \<open>AsyncServer04\<close> and \<open>ProtobufServer\<close>
  in network order; \<open>order\<close> is that conversion.  \<open>_total_len\<close> is a \<open>short\<close>, so the sum wraps.
\<close>

definition prefix_MsgNode :: "(short \<Rightarrow> short) \<Rightarrow> byte list \<Rightarrow> short \<Rightarrow> msg_node cxx" where
  "prefix_MsgNode order msg max_len =
     (let total = max_len + 2 in
      cxx_bind (new_char_array (short_val total + 1)) (\<lambda>d.
      cxx_bind (memcpy_at d 0 (le_bytes (order max_len)) 2) (\<lambda>d1.
      cxx_bind (memcpy_at d1 2 msg (size_of_int (short_val max_len))) (\<lambda>d2.
      cxx_bind (buf_put d2 (short_val total) 0) (\<lambda>d3.
        Ok \<lparr>cur_len = 0, total_len = total, node_data = d3, msg_id = 0\<rparr>)))))"

definition as03_MsgNode :: "byte list \<Rightarrow> short \<Rightarrow> msg_node cxx" where
  "as03_MsgNode = prefix_MsgNode (\<lambda>w. w)"

definition as04_MsgNode :: "byte list \<Rightarrow> short \<Rightarrow> msg_node cxx" where
  "as04_MsgNode = prefix_MsgNode swap16"

text \<open>
  \<open>SendNode(const char* msg, short max_len, short msg_id)\<close>: id and length in network order,
  then the body, in a node of \<open>max_len + head\<close> bytes.  The logic servers pass
  \<open>head = HEAD_TOTAL_LEN\<close>, 4; \<open>MsgJsonIDServer\<close> passes \<open>HEAD_DATA_LEN\<close>, 2.
\<close>

definition id_SendNode :: "short \<Rightarrow> byte list \<Rightarrow> short \<Rightarrow> short \<Rightarrow> msg_node cxx" where
  "id_SendNode head msg max_len mid =
     cxx_bind (nul_MsgNode (max_len + head)) (\<lambda>n.
     cxx_bind (memcpy_at (node_data n) 0 (le_bytes (swap16 mid)) 2) (\<lambda>d1.
     cxx_bind (memcpy_at d1 2 (le_bytes (swap16 max_len)) 2) (\<lambda>d2.
     cxx_bind (memcpy_at d2 4 msg (size_of_int (short_val max_len))) (\<lambda>d3.
       Ok (n\<lparr>node_data := d3, msg_id := mid\<rparr>)))))"

definition logic_SendNode :: "byte list \<Rightarrow> short \<Rightarrow> short \<Rightarrow> msg_node cxx" where
  "logic_SendNode = id_SendNode 4"

definition json_SendNode :: "byte list \<Rightarrow> short \<Rightarrow> short \<Rightarrow> msg_node cxx" where
  "json_SendNode = id_SendNode 2"

text \<open>What a completed write of a node puts on the wire: its first \<open>_total_len\<close> bytes.\<close>

definition wire_bytes :: "msg_node \<Rightarrow> byte list" where
  "wire_bytes n = take (nat (short_val (total_len n))) (node_data n)"

end
