(* ===== verification/SessionRead.thy ===== *)
theory SessionRead
  imports MsgNode
begin

text \<open>
  The receive side of \<open>CSession\<close>: the loop of \<open>CSession::HandleRead\<close>, which cuts the byte
  stream of a TCP connection into messages.  The servers of \<open>example/boost/asio/socket\<close>
  share this loop and differ in the header, in the node they allocate, in what they do with
  a complete message and in whether a \<open>try\<close> block surrounds the body; those four are the
  fields of the record \<open>proto\<close>, and each server's theory gives its own.
\<close>

definition MAX_LENGTH :: nat where
  "MAX_LENGTH = 1024 * 2"

record 'w proto =
  head_len :: nat
  parse_head :: "byte list \<Rightarrow> (short \<times> short) option"
  new_node :: "short \<Rightarrow> short \<Rightarrow> msg_node cxx"
  dispatch :: "'w \<Rightarrow> msg_node \<Rightarrow> 'w cxx"
  catches :: bool

text \<open>
  The fields of \<open>CSession\<close> that \<open>HandleRead\<close> uses; \<open>world\<close> is the state that handling a
  message changes (the send queue of the session or the queue of the \<open>LogicSystem\<close>).
\<close>

record 'w rsession =
  sess_data :: "byte list"
  head_parse :: bool
  head_node :: msg_node
  recv_node :: "msg_node option"
  world :: 'w

text \<open>
  How one call of \<open>HandleRead\<close> ends: the next \<open>async_read_some\<close> is armed; the session is
  taken out of the server's map (\<open>ClearSession\<close>) with no read armed; both after \<open>Close\<close>;
  the loop is left with no bytes and nothing armed; the \<open>catch\<close> block has logged an
  exception and nothing is armed (the state is that at the start of the pass that threw,
  which has the effects of the messages handed over before); the exception leaves the
  handler; undefined behaviour.
\<close>

datatype 'w read_end =
    Rearmed "'w rsession"
  | Cleared "'w rsession"
  | Closed "'w rsession"
  | Idle "'w rsession"
  | Swallowed "'w rsession"
  | Escaped cxx_exn
  | Undefined

datatype 'w iter = Return "'w read_end" | Continue "'w rsession" int nat

section \<open>One iteration of the loop\<close>

definition rearm :: "'w rsession \<Rightarrow> 'w rsession" where
  "rearm s = s\<lparr>sess_data := replicate MAX_LENGTH 0\<rparr>"

definition data_from :: "'w rsession \<Rightarrow> int \<Rightarrow> byte list" where
  "data_from s copy_len = drop (nat copy_len) (sess_data s)"

text \<open>\<open>memcpy(node->_data + node->_cur_len, src, k); node->_cur_len += k\<close>\<close>

definition node_append :: "msg_node \<Rightarrow> byte list \<Rightarrow> nat \<Rightarrow> msg_node cxx" where
  "node_append n src k =
     cxx_bind (memcpy_at (node_data n) (short_val (cur_len n)) src k) (\<lambda>d.
       Ok (n\<lparr>node_data := d, cur_len := cur_len n + word_of_nat k\<rparr>))"

text \<open>A complete message: terminator, hand-over, reset of the header, re-arm or go on.\<close>

definition complete_msg ::
  "'w proto \<Rightarrow> 'w rsession \<Rightarrow> msg_node \<Rightarrow> int \<Rightarrow> nat \<Rightarrow> 'w iter cxx" where
  "complete_msg P s n copy_len bt =
     cxx_bind (buf_put (node_data n) (short_val (total_len n)) 0) (\<lambda>d.
     cxx_bind (dispatch P (world s) (n\<lparr>node_data := d\<rparr>)) (\<lambda>w.
     cxx_bind (Clear (head_node s)) (\<lambda>h.
       let s' = s\<lparr>recv_node := Some (n\<lparr>node_data := d\<rparr>), world := w,
                  head_parse := False, head_node := h\<rparr>
       in Ok (if bt = 0 then Return (Rearmed (rearm s')) else Continue s' copy_len bt))))"

definition read_body :: "'w proto \<Rightarrow> 'w rsession \<Rightarrow> int \<Rightarrow> nat \<Rightarrow> 'w iter cxx" where
  "read_body P s copy_len bt =
     (case recv_node s of
        None \<Rightarrow> UB
      | Some n \<Rightarrow>
          (let remain = short_val (total_len n) - short_val (cur_len n) in
           if size_less bt remain
           then cxx_bind (node_append n (data_from s copy_len) bt) (\<lambda>n'.
                  Ok (Return (Rearmed (rearm (s\<lparr>recv_node := Some n'\<rparr>)))))
           else cxx_bind (node_append n (data_from s copy_len) (size_of_int remain)) (\<lambda>n'.
                  complete_msg P s n' (copy_len + remain) (size_sub bt remain))))"

text \<open>
  After the header is complete: read its fields, refuse it or allocate the node, and take
  what there is of the body.
\<close>

definition head_done :: "'w proto \<Rightarrow> 'w rsession \<Rightarrow> int \<Rightarrow> nat \<Rightarrow> 'w iter cxx" where
  "head_done P s copy_len bt =
     (case parse_head P (node_data (head_node s)) of
        None \<Rightarrow> Ok (Return (Cleared s))
      | Some (mid, mlen) \<Rightarrow>
          cxx_bind (new_node P mlen mid) (\<lambda>n.
          if size_less bt (short_val mlen)
          then cxx_bind (node_append n (data_from s copy_len) bt) (\<lambda>n'.
                 Ok (Return (Rearmed (rearm (s\<lparr>recv_node := Some n', head_parse := True\<rparr>)))))
          else cxx_bind (node_append n (data_from s copy_len) (size_of_int (short_val mlen)))
                 (\<lambda>n'. complete_msg P s n' (copy_len + short_val mlen)
                         (size_sub bt (short_val mlen)))))"

definition read_head :: "'w proto \<Rightarrow> 'w rsession \<Rightarrow> int \<Rightarrow> nat \<Rightarrow> 'w iter cxx" where
  "read_head P s copy_len bt =
     (let h = head_node s; remain = int (head_len P) - short_val (cur_len h) in
      if size_less (size_add bt (short_val (cur_len h))) (int (head_len P))
      then cxx_bind (node_append h (data_from s copy_len) bt) (\<lambda>h'.
             Ok (Return (Rearmed (rearm (s\<lparr>head_node := h'\<rparr>)))))
      else cxx_bind (memcpy_at (node_data h) (short_val (cur_len h)) (data_from s copy_len)
                      (size_of_int remain)) (\<lambda>hs.
             head_done P (s\<lparr>head_node := h\<lparr>node_data := hs\<rparr>\<rparr>) (copy_len + remain)
               (size_sub bt remain)))"

definition read_iter :: "'w proto \<Rightarrow> 'w rsession \<Rightarrow> int \<Rightarrow> nat \<Rightarrow> 'w iter cxx" where
  "read_iter P s copy_len bt =
     (if head_parse s then read_body P s copy_len bt else read_head P s copy_len bt)"

section \<open>The loop and the handler\<close>

text \<open>
  \<open>while (bytes_transferred > 0)\<close>, with fuel: \<^const>\<open>None\<close> is "still running".  The lemmas below
  show that one unit more than the bytes received is enough.
\<close>

fun read_loop :: "nat \<Rightarrow> 'w proto \<Rightarrow> 'w rsession \<Rightarrow> int \<Rightarrow> nat \<Rightarrow> 'w read_end option" where
  "read_loop 0 P s copy_len bt = None"
| "read_loop (Suc fuel) P s copy_len bt =
     (if bt = 0 then Some (Idle s)
      else case read_iter P s copy_len bt of
             UB \<Rightarrow> Some Undefined
           | Throw e \<Rightarrow> Some (if catches P then Swallowed s else Escaped e)
           | Ok (Return r) \<Rightarrow> Some r
           | Ok (Continue s' copy' bt') \<Rightarrow> read_loop fuel P s' copy' bt')"

definition handle_read :: "'w proto \<Rightarrow> bool \<Rightarrow> nat \<Rightarrow> 'w rsession \<Rightarrow> 'w read_end option" where
  "handle_read P error bytes_transferred s =
     (if error then Some (Closed s) else read_loop (Suc bytes_transferred) P s 0 bytes_transferred)"

text \<open>
  The constructor of \<open>CSession\<close> and \<open>Start\<close>: an empty header node, no message, a zeroed
  buffer and the first read armed.
\<close>

definition start_session :: "'w proto \<Rightarrow> 'w \<Rightarrow> 'w rsession cxx" where
  "start_session P w =
     cxx_bind (new_node P (word_of_nat (head_len P)) 0) (\<lambda>h.
       Ok (rearm \<lparr>sess_data = [], head_parse = False, head_node = h, recv_node = None, world = w\<rparr>))"

text \<open>A completed \<open>async_read_some\<close> has stored its bytes at the start of \<open>_data\<close>.\<close>

definition deliver :: "byte list \<Rightarrow> 'w rsession \<Rightarrow> 'w rsession" where
  "deliver c s = s\<lparr>sess_data := c @ drop (length c) (sess_data s)\<rparr>"

definition feed :: "'w proto \<Rightarrow> 'w rsession \<Rightarrow> byte list \<Rightarrow> 'w rsession option" where
  "feed P s c =
     (case handle_read P False (length c) (deliver c s) of
        Some (Rearmed s') \<Rightarrow> Some s' | _ \<Rightarrow> None)"

fun feeds :: "('s \<Rightarrow> 'c \<Rightarrow> 's option) \<Rightarrow> 's \<Rightarrow> 'c list \<Rightarrow> 's option" where
  "feeds f s [] = Some s"
| "feeds f s (c # cs) = (case f s c of None \<Rightarrow> None | Some s' \<Rightarrow> feeds f s' cs)"

section \<open>The message grammar of a stream\<close>

text \<open>
  What the loop is meant to compute: the stream is a sequence of headers, each followed by
  the announced number of bytes.  A refused header and a negative length end it.
\<close>

datatype stream_end = Pending "byte list" | Refused | Malformed

datatype frame = Incomplete | RefusedHead | NegativeLen | Frame short "byte list" "byte list"

definition next_frame :: "'w proto \<Rightarrow> byte list \<Rightarrow> frame" where
  "next_frame P bs =
     (if head_len P = 0 \<or> length bs < head_len P then Incomplete
      else case parse_head P (take (head_len P) bs) of
             None \<Rightarrow> RefusedHead
           | Some (mid, mlen) \<Rightarrow>
               if short_val mlen < 0 then NegativeLen
               else if length bs < head_len P + nat (short_val mlen) then Incomplete
               else Frame mid (take (nat (short_val mlen)) (drop (head_len P) bs))
                      (drop (head_len P + nat (short_val mlen)) bs))"

lemma next_frame_shorter: "next_frame P bs = Frame mid body rest \<Longrightarrow> length rest < length bs"
  by (auto simp: next_frame_def split: if_splits option.splits)

function parse_stream :: "'w proto \<Rightarrow> byte list \<Rightarrow> (short \<times> byte list) list \<times> stream_end" where
  "parse_stream P bs =
     (case next_frame P bs of
        Incomplete \<Rightarrow> ([], Pending bs)
      | RefusedHead \<Rightarrow> ([], Refused)
      | NegativeLen \<Rightarrow> ([], Malformed)
      | Frame mid body rest \<Rightarrow>
          (let r = parse_stream P rest in ((mid, body) # fst r, snd r)))"
  by pat_completeness auto
termination
  by (relation "measure (\<lambda>(P, bs). length bs)") (auto dest: next_frame_shorter)

declare parse_stream.simps [simp del]

text \<open>The node handed over for a message, and the hand-over as a function of the message.\<close>

definition full_node :: "short \<Rightarrow> byte list \<Rightarrow> msg_node" where
  "full_node mid body =
     \<lparr>cur_len = word_of_nat (length body), total_len = word_of_nat (length body),
      node_data = body @ [0], msg_id = mid\<rparr>"

definition deliver_msg :: "'w proto \<Rightarrow> 'w \<Rightarrow> short \<times> byte list \<Rightarrow> 'w cxx" where
  "deliver_msg P w m = dispatch P w (full_node (fst m) (snd m))"

end
