(* ===== verification/SessionLaws.thy ===== *)
theory SessionLaws
  imports SessionRead
begin

text \<open>
  What the receive loop computes, proved once for every server: the locale
  \<open>stream_reader\<close> is the interface of anything that turns chunks of a stream into handled
  messages, and \<open>frame_protocol\<close> is the contract of a header format under which the loop of
  \<^theory_text>\<open>SessionRead\<close> implements it.  Each server interprets \<open>frame_protocol\<close> on its own record.
\<close>

section \<open>Readers of a chunked stream\<close>

locale stream_reader =
  fixes feed_op :: "'s \<Rightarrow> byte list \<Rightarrow> 's option"
    and wf :: "'s \<Rightarrow> bool"
    and chunk :: "byte list \<Rightarrow> bool"
    and pend :: "'s \<Rightarrow> byte list"
    and effect :: "'s \<Rightarrow> 'w"
    and parse :: "byte list \<Rightarrow> 'm list \<times> stream_end"
    and disp :: "'w \<Rightarrow> 'm \<Rightarrow> 'w cxx"
  assumes feed_law:
      "wf s \<Longrightarrow> chunk c \<Longrightarrow> parse (pend s @ c) = (ms, Pending p) \<Longrightarrow>
         cxx_fold disp (effect s) ms = Ok w \<Longrightarrow>
         \<exists>s'. feed_op s c = Some s' \<and> wf s' \<and> pend s' = p \<and> effect s' = w"
    and parse_pend: "wf s \<Longrightarrow> parse (pend s) = ([], Pending (pend s))"
    and parse_prefix: "parse (a @ b) = (ms, Pending p) \<Longrightarrow>
         \<exists>ms1 p1 ms2. parse a = (ms1, Pending p1) \<and> parse (p1 @ b) = (ms2, Pending p) \<and> ms = ms1 @ ms2"
begin

text \<open>However the stream is cut into chunks, the same messages are handled in the same order.\<close>

lemma feeds_law:
  "wf s \<Longrightarrow> (\<And>c. c \<in> set cs \<Longrightarrow> chunk c) \<Longrightarrow> parse (pend s @ concat cs) = (ms, Pending p) \<Longrightarrow>
     cxx_fold disp (effect s) ms = Ok w \<Longrightarrow>
     \<exists>s'. feeds feed_op s cs = Some s' \<and> wf s' \<and> pend s' = p \<and> effect s' = w"
proof (induction cs arbitrary: s ms)
  case Nil
  then show ?case using parse_pend [of s] by simp
next
  case (Cons c cs)
  from Cons.prems(3) have "parse ((pend s @ c) @ concat cs) = (ms, Pending p)" by simp
  then obtain ms1 p1 ms2 where first: "parse (pend s @ c) = (ms1, Pending p1)"
    and rest: "parse (p1 @ concat cs) = (ms2, Pending p)" and ms: "ms = ms1 @ ms2"
    using parse_prefix by blast
  from Cons.prems(4) ms obtain w1 where w1: "cxx_fold disp (effect s) ms1 = Ok w1"
    and w2: "cxx_fold disp w1 ms2 = Ok w"
    by (auto simp: cxx_fold_append cxx_bind_eq_Ok)
  obtain s1 where s1: "feed_op s c = Some s1" "wf s1" "pend s1 = p1" "effect s1 = w1"
    using feed_law [OF Cons.prems(1) _ first w1] Cons.prems(2) by auto
  have "\<exists>s'. feeds feed_op s1 cs = Some s' \<and> wf s' \<and> pend s' = p \<and> effect s' = w"
    using Cons.IH [of s1 ms2] s1 rest w2 Cons.prems(2) by auto
  with s1 show ?case by simp
qed

lemma chunking_irrelevant:
  assumes "wf s" "\<And>c. c \<in> set cs \<Longrightarrow> chunk c" "\<And>c. c \<in> set ds \<Longrightarrow> chunk c"
    and "concat cs = concat ds" "parse (pend s @ concat cs) = (ms, Pending p)"
    and "cxx_fold disp (effect s) ms = Ok w"
  shows "\<exists>s1 s2. feeds feed_op s cs = Some s1 \<and> feeds feed_op s ds = Some s2 \<and>
           effect s1 = effect s2 \<and> pend s1 = pend s2"
proof -
  obtain s1 where "feeds feed_op s cs = Some s1" "pend s1 = p" "effect s1 = w"
    using feeds_law [of s cs ms p w] assms(1,2,5,6) by blast
  moreover obtain s2 where "feeds feed_op s ds = Some s2" "pend s2 = p" "effect s2 = w"
    using feeds_law [of s ds ms p w] assms(1,3-6) by auto
  ultimately show ?thesis by simp
qed

end

section \<open>Parsing a stream in two parts\<close>

lemma next_frame_append:
  "next_frame P a = Frame mid body rest \<Longrightarrow> next_frame P (a @ b) = Frame mid body (rest @ b)"
  by (auto simp: next_frame_def split: if_splits option.splits)

lemma next_frame_ends:
  "next_frame P a = RefusedHead \<Longrightarrow> next_frame P (a @ b) = RefusedHead"
  "next_frame P a = NegativeLen \<Longrightarrow> next_frame P (a @ b) = NegativeLen"
  by (auto simp: next_frame_def split: if_splits option.splits)

lemma parse_stream_Frame:
  "next_frame P bs = Frame mid body rest \<Longrightarrow>
     parse_stream P bs = ((mid, body) # fst (parse_stream P rest), snd (parse_stream P rest))"
  by (subst parse_stream.simps) (simp add: Let_def)

lemma parse_stream_Incomplete: "next_frame P bs = Incomplete \<Longrightarrow> parse_stream P bs = ([], Pending bs)"
  by (subst parse_stream.simps) simp

lemma parse_stream_RefusedHead: "next_frame P bs = RefusedHead \<Longrightarrow> parse_stream P bs = ([], Refused)"
  by (subst parse_stream.simps) simp

lemma parse_stream_NegativeLen: "next_frame P bs = NegativeLen \<Longrightarrow> parse_stream P bs = ([], Malformed)"
  by (subst parse_stream.simps) simp

lemmas parse_stream_cases =
  parse_stream_Frame parse_stream_Incomplete parse_stream_RefusedHead parse_stream_NegativeLen

lemma parse_stream_prefix:
  "parse_stream P (a @ b) = (ms, Pending p) \<Longrightarrow>
     \<exists>ms1 p1 ms2. parse_stream P a = (ms1, Pending p1) \<and>
       parse_stream P (p1 @ b) = (ms2, Pending p) \<and> ms = ms1 @ ms2"
proof (induction "length a" arbitrary: a ms rule: less_induct)
  case less
  show ?case
  proof (cases "next_frame P a")
    case Incomplete
    with less.prems show ?thesis by (auto simp: parse_stream_cases)
  next
    case RefusedHead
    with less.prems show ?thesis by (simp add: parse_stream_cases next_frame_ends)
  next
    case NegativeLen
    with less.prems show ?thesis by (simp add: parse_stream_cases next_frame_ends)
  next
    case (Frame mid body rest)
    note ab = parse_stream_Frame [OF next_frame_append [OF Frame]]
    obtain ms' where ms': "parse_stream P (rest @ b) = (ms', Pending p)" "ms = (mid, body) # ms'"
      using less.prems ab by (metis fst_conv snd_conv prod.collapse)
    obtain ms1 p1 ms2 where "parse_stream P rest = (ms1, Pending p1)"
        "parse_stream P (p1 @ b) = (ms2, Pending p)" "ms' = ms1 @ ms2"
      using less.hyps [OF next_frame_shorter [OF Frame] ms'(1)] by blast
    with ms'(2) parse_stream_Frame [OF Frame] show ?thesis by auto
  qed
qed

section \<open>The contract of a header format\<close>

text \<open>
  The well-formed states of a session between two reads, and the bytes of the stream that
  it has taken in without handing them over yet.
\<close>

definition fresh_node :: "short \<Rightarrow> nat \<Rightarrow> msg_node" where
  "fresh_node mid len =
     \<lparr>cur_len = 0, total_len = word_of_nat len, node_data = replicate (Suc len) 0, msg_id = mid\<rparr>"

definition filled :: "msg_node \<Rightarrow> byte list" where
  "filled n = take (nat (short_val (cur_len n))) (node_data n)"

definition head_ok :: "nat \<Rightarrow> msg_node \<Rightarrow> bool" where
  "head_ok hl h \<longleftrightarrow> total_len h = word_of_nat hl \<and> length (node_data h) = Suc hl \<and>
     0 \<le> short_val (cur_len h) \<and> short_val (cur_len h) < int hl"

definition body_ok :: "'w proto \<Rightarrow> byte list \<Rightarrow> msg_node \<Rightarrow> bool" where
  "body_ok P hs n \<longleftrightarrow>
     (\<exists>mlen. parse_head P hs = Some (msg_id n, mlen) \<and> total_len n = mlen) \<and>
     0 \<le> short_val (cur_len n) \<and> short_val (cur_len n) < short_val (total_len n) \<and>
     length (node_data n) = Suc (nat (short_val (total_len n))) \<and>
     last (node_data n) = 0"

definition sess_wf :: "'w proto \<Rightarrow> 'w rsession \<Rightarrow> bool" where
  "sess_wf P s \<longleftrightarrow> length (sess_data s) = MAX_LENGTH \<and> head_ok (head_len P) (head_node s) \<and>
     (head_parse s \<longrightarrow> (case recv_node s of None \<Rightarrow> False
        | Some n \<Rightarrow> body_ok P (take (head_len P) (node_data (head_node s))) n))"

definition pending :: "'w proto \<Rightarrow> 'w rsession \<Rightarrow> byte list" where
  "pending P s =
     (if head_parse s
      then take (head_len P) (node_data (head_node s)) @
           (case recv_node s of None \<Rightarrow> [] | Some n \<Rightarrow> filled n)
      else filled (head_node s))"

definition chunk_ok :: "byte list \<Rightarrow> bool" where
  "chunk_ok c \<longleftrightarrow> c \<noteq> [] \<and> length c \<le> MAX_LENGTH"

lemma short_val_exhaust:
  fixes w :: short
  assumes "0 \<le> short_val w"
  obtains c where "w = word_of_nat c" "c < 2 ^ 15"
proof
  show "w = word_of_nat (nat (short_val w))" using assms by simp
  show "nat (short_val w) < 2 ^ 15" using short_range(2) [of w] assms by simp
qed

text \<open>Appending to a node that has room.\<close>

lemma node_append_Ok:
  assumes "cur_len n = word_of_nat c" "c + k \<le> length (node_data n)" "k \<le> length src" "c + k < 2 ^ 15"
  shows "node_append n src k = Ok (n\<lparr>node_data := take c (node_data n) @ take k src @ drop (c + k) (node_data n),
           cur_len := word_of_nat (c + k)\<rparr>)"
  using assms by (simp add: node_append_def buf_simps cxx_simps)

lemma filled_appended:
  assumes "c + k \<le> length (node_data n)" "k \<le> length src" "c + k < 2 ^ 15"
  shows "filled (n\<lparr>node_data := take c (node_data n) @ take k src @ drop (c + k) (node_data n),
           cur_len := word_of_nat (c + k)\<rparr>) = take c (node_data n) @ take k src"
  using assms by (simp add: filled_def del: of_nat_add)

lemma filled_word: "cur_len n = word_of_nat c \<Longrightarrow> c < 2 ^ 15 \<Longrightarrow> filled n = take c (node_data n)"
  by (simp add: filled_def)

lemma Clear_head:
  assumes "head_ok hl h" "hl < 2 ^ 15 - 1"
  shows "\<exists>h'. Clear h = Ok h' \<and> head_ok hl h' \<and> filled h' = [] \<and> cur_len h' = 0"
  using assms by (auto simp: Clear_def head_ok_def size_simps filled_def)

locale frame_protocol =
  fixes P :: "'w proto"
  assumes head_pos: "0 < head_len P"
    and head_small: "head_len P < 2 ^ 15 - 1"
    and head_local: "parse_head P (take (head_len P) bs) = parse_head P bs"
    and node_law: "parse_head P bs = Some (mid, mlen) \<Longrightarrow> 0 \<le> short_val mlen \<Longrightarrow>
         new_node P mlen mid = Ok (fresh_node mid (nat (short_val mlen)))"
    and head_node_law: "new_node P (word_of_nat (head_len P)) 0 = Ok (fresh_node 0 (head_len P))"
begin

text \<open>The hand-over of a complete message.\<close>

lemma complete_msg_Ok:
  assumes n: "total_len n = word_of_nat (length body)" "cur_len n = word_of_nat (length body)"
      "node_data n = body @ [0]" "length body < 2 ^ 15"
    and h: "head_ok (head_len P) (head_node s)"
    and d: "deliver_msg P (world s) (msg_id n, body) = Ok w"
  shows "\<exists>h'. head_ok (head_len P) h' \<and> filled h' = [] \<and>
     complete_msg P s n copy bt =
       Ok (let s' = s\<lparr>recv_node := Some (full_node (msg_id n) body), world := w,
                       head_parse := False, head_node := h'\<rparr>
           in if bt = 0 then Return (Rearmed (rearm s')) else Continue s' copy bt)"
proof -
  obtain h' where h': "Clear (head_node s) = Ok h'" "head_ok (head_len P) h'" "filled h' = []"
    using Clear_head [OF h head_small] by blast
  have put: "buf_put (node_data n) (short_val (total_len n)) 0 = Ok (body @ [0])"
    using n by (simp add: buf_simps list_update_append)
  have node: "n\<lparr>node_data := body @ [0]\<rparr> = full_node (msg_id n) body"
    using n by (simp add: full_node_def)
  show ?thesis
    using h' put d by (intro exI [of _ h']) (simp add: complete_msg_def node cxx_simps deliver_msg_def Let_def)
qed

lemma complete_msg_fail:
  assumes n: "total_len n = word_of_nat (length body)" "cur_len n = word_of_nat (length body)"
      "node_data n = body @ [0]" "length body < 2 ^ 15"
    and d: "\<And>w. deliver_msg P (world s) (msg_id n, body) \<noteq> Ok w"
  shows "complete_msg P s n copy bt = fail_as (deliver_msg P (world s) (msg_id n, body))"
proof -
  have put: "buf_put (node_data n) (short_val (total_len n)) 0 = Ok (body @ [0])"
    using n by (simp add: buf_simps list_update_append)
  have node: "n\<lparr>node_data := body @ [0]\<rparr> = full_node (msg_id n) body"
    using n by (simp add: full_node_def)
  show ?thesis
    using put d cxx_bind_fail [of "deliver_msg P (world s) (msg_id n, body)"]
    by (simp add: complete_msg_def node cxx_simps deliver_msg_def)
qed

text \<open>One iteration that finds a header to complete.\<close>

lemma read_head_short:
  assumes s: "sess_wf P s" "\<not> head_parse s" and c: "0 \<le> copy" "nat copy + bt \<le> MAX_LENGTH"
    and r: "r = take bt (data_from s copy)"
    and short: "length (pending P s @ r) < head_len P"
  shows "\<exists>s'. read_head P s copy bt = Ok (Return (Rearmed s')) \<and> sess_wf P s' \<and>
           pending P s' = pending P s @ r \<and> world s' = world s"
proof -
  let ?h = "head_node s"
  from s(1) have h: "head_ok (head_len P) ?h" and buf: "length (sess_data s) = MAX_LENGTH"
    by (auto simp: sess_wf_def)
  from h obtain k where k: "cur_len ?h = word_of_nat k" "k < 2 ^ 15"
    unfolding head_ok_def by (metis short_val_exhaust)
  with h have kh: "k < head_len P" "length (node_data ?h) = Suc (head_len P)" by (auto simp: head_ok_def)
  have pend: "pending P s = take k (node_data ?h)" using s(2) k by (simp add: pending_def filled_word)
  have lr: "length r = bt" using r c buf by (simp add: data_from_def)
  have lt: "k + bt < head_len P" using short lr pend kh by simp
  have src: "bt \<le> length (data_from s copy)" using c buf by (simp add: data_from_def)
  have app: "node_append ?h (data_from s copy) bt = Ok (?h\<lparr>node_data := take k (node_data ?h) @ r @
      drop (k + bt) (node_data ?h), cur_len := word_of_nat (k + bt)\<rparr>)" (is "_ = Ok ?h'")
    using node_append_Ok [OF k(1), of bt "data_from s copy"] kh lt src k head_small r by simp
  have guard: "size_less (size_add bt (short_val (cur_len ?h))) (int (head_len P))"
    using k lt head_small by (simp add: size_simps)
  have fil: "filled ?h' = take k (node_data ?h) @ r"
    using filled_appended [of k bt ?h "data_from s copy"] kh lt src head_small r by simp
  have ok: "head_ok (head_len P) ?h'"
    using h kh lt lr head_small by (simp add: head_ok_def del: of_nat_add)
  show ?thesis
    using app guard fil ok s(2) pend
    by (auto simp: read_head_def Let_def cxx_simps sess_wf_def rearm_def pending_def)
qed

lemma read_head_full:
  assumes s: "sess_wf P s" "\<not> head_parse s" and c: "0 \<le> copy" "nat copy + bt \<le> MAX_LENGTH"
    and r: "r = take bt (data_from s copy)"
    and full: "head_len P \<le> length (pending P s @ r)"
  shows "\<exists>hs copy1. read_head P s copy bt =
             head_done P (s\<lparr>head_node := (head_node s)\<lparr>node_data := hs\<rparr>\<rparr>) copy1
               (length (pending P s @ r) - head_len P) \<and>
           take (head_len P) hs = take (head_len P) (pending P s @ r) \<and> length hs = Suc (head_len P) \<and>
           0 \<le> copy1 \<and> nat copy1 + (length (pending P s @ r) - head_len P) = nat copy + bt \<and>
           drop (nat copy1) (take (nat copy + bt) (sess_data s)) = drop (head_len P) (pending P s @ r) \<and>
           length (pending P s @ r) - head_len P < bt"
proof -
  let ?h = "head_node s"
  from s(1) have h: "head_ok (head_len P) ?h" and buf: "length (sess_data s) = MAX_LENGTH"
    by (auto simp: sess_wf_def)
  from h obtain k where k: "cur_len ?h = word_of_nat k" "k < 2 ^ 15"
    unfolding head_ok_def by (metis short_val_exhaust)
  with h have kh: "k < head_len P" "length (node_data ?h) = Suc (head_len P)" by (auto simp: head_ok_def)
  have pend: "pending P s = take k (node_data ?h)" using s(2) k by (simp add: pending_def filled_word)
  have lr: "length r = bt" using r c buf by (simp add: data_from_def)
  let ?m = "head_len P - k"
  have m: "?m \<le> bt" "0 < ?m" using full lr pend kh by auto
  have rem: "int (head_len P) - short_val (cur_len ?h) = int ?m" using k kh by simp
  have big: "bt < 2 ^ 64 - 2 ^ 15" using c by (simp add: MAX_LENGTH_def)
  have guard: "\<not> size_less (size_add bt (short_val (cur_len ?h))) (int (head_len P))"
    using k m kh head_small big by (simp add: size_simps)
  let ?hs = "take k (node_data ?h) @ take ?m (data_from s copy) @ drop (head_len P) (node_data ?h)"
  have mc: "memcpy_at (node_data ?h) (short_val (cur_len ?h)) (data_from s copy) (size_of_int (int ?m)) = Ok ?hs"
    using k kh m c buf head_small by (simp add: buf_simps size_of_int_of_nat data_from_def del: of_nat_diff)
  have sub: "size_sub bt (int ?m) = bt - ?m" using m big by (simp add: size_sub_of_nat del: of_nat_diff)
  have lp: "length (pending P s @ r) - head_len P = bt - ?m" using pend lr kh m by simp
  have "take (head_len P) ?hs = take k (node_data ?h) @ take ?m (data_from s copy)"
    using kh m c buf by (simp add: data_from_def)
  moreover have "take (head_len P) (pending P s @ r) = take k (node_data ?h) @ take ?m (data_from s copy)"
    using pend kh r m by (simp add: min_absorb1)
  moreover have "drop (nat (copy + int ?m)) (take (nat copy + bt) (sess_data s)) = drop (head_len P) (pending P s @ r)"
  proof -
    have "nat (copy + int ?m) = nat copy + ?m" using c by (simp add: nat_add_distrib del: of_nat_diff)
    moreover have "drop (head_len P) (pending P s @ r) = drop ?m r" using pend kh by simp
    ultimately show ?thesis using r m by (simp add: data_from_def drop_take add.commute)
  qed
  moreover have "read_head P s copy bt =
      head_done P (s\<lparr>head_node := ?h\<lparr>node_data := ?hs\<rparr>\<rparr>) (copy + int ?m) (bt - ?m)"
    unfolding read_head_def Let_def using guard by (simp only: rem mc sub cxx_simps if_False)
  moreover have "length ?hs = Suc (head_len P)"
    using kh m c buf by (simp add: data_from_def)
  moreover have "nat (copy + int ?m) + (bt - ?m) = nat copy + bt"
    using c m by (simp add: nat_add_distrib del: of_nat_diff)
  moreover have "bt - ?m < bt" "0 \<le> copy + int ?m" using m c by simp_all
  ultimately show ?thesis unfolding lp by (metis (no_types))
qed

text \<open>What follows a complete header.\<close>

lemma head_done_refused:
  assumes "take (head_len P) (node_data (head_node s)) = take (head_len P) bs"
    and "next_frame P bs = RefusedHead"
  shows "head_done P s copy bt = Ok (Return (Cleared s))"
proof -
  have "parse_head P (node_data (head_node s)) = parse_head P (take (head_len P) bs)"
    using assms(1) head_local by metis
  with assms(2) show ?thesis by (auto simp: head_done_def next_frame_def split: if_splits option.splits)
qed

end

end
