(* ===== verification/SessionLoop.thy ===== *)
theory SessionLoop
  imports SessionLaws
begin

text \<open>
  The loop of \<open>HandleRead\<close> from iteration to session: what one pass does with the bytes that
  are left, that the loop ends within as many passes as there are bytes, that a whole
  handler call parses exactly \<^const>\<open>parse_stream\<close> of the pending bytes and the new ones,
  and that a session is therefore a \<open>stream_reader\<close>.
\<close>

section \<open>Taking body bytes\<close>

text \<open>Both branches of the loop that fill a body do the same with it.\<close>

definition take_body :: "'w proto \<Rightarrow> 'w rsession \<Rightarrow> msg_node \<Rightarrow> int \<Rightarrow> nat \<Rightarrow> 'w iter cxx" where
  "take_body P s n copy bt =
     (let remain = short_val (total_len n) - short_val (cur_len n) in
      if size_less bt remain
      then cxx_bind (node_append n (data_from s copy) bt) (\<lambda>n'.
             Ok (Return (Rearmed (rearm (s\<lparr>recv_node := Some n', head_parse := True\<rparr>)))))
      else cxx_bind (node_append n (data_from s copy) (size_of_int remain)) (\<lambda>n'.
             complete_msg P s n' (copy + remain) (size_sub bt remain)))"

lemma read_body_take:
  "head_parse s \<Longrightarrow> recv_node s = Some n \<Longrightarrow> read_body P s copy bt = take_body P s n copy bt"
proof -
  assume "head_parse s"
  then have "s\<lparr>recv_node := x, head_parse := True\<rparr> = s\<lparr>recv_node := x\<rparr>" for x by (cases s) simp
  then show "recv_node s = Some n \<Longrightarrow> ?thesis" by (simp add: read_body_def take_body_def Let_def)
qed

lemma fresh_node_sel [simp]:
  "cur_len (fresh_node mid len) = 0" "total_len (fresh_node mid len) = word_of_nat len"
  "node_data (fresh_node mid len) = replicate (Suc len) 0" "msg_id (fresh_node mid len) = mid"
  "filled (fresh_node mid len) = []"
  by (simp_all add: fresh_node_def filled_def)

lemma head_done_take:
  assumes "parse_head P (node_data (head_node s)) = Some (mid, mlen)"
    and "new_node P mlen mid = Ok n" "cur_len n = 0" "total_len n = mlen"
  shows "head_done P s copy bt = take_body P s n copy bt"
  using assms by (simp add: head_done_def take_body_def Let_def cxx_simps)

lemma take_body_partial:
  assumes n: "cur_len n = word_of_nat c" "total_len n = word_of_nat len" "c \<le> len" "len < 2 ^ 15"
      "length (node_data n) = Suc len" "last (node_data n) = 0"
    and src: "bt \<le> length (data_from s copy)" and less: "bt < len - c"
  shows "\<exists>n'. take_body P s n copy bt =
              Ok (Return (Rearmed (rearm (s\<lparr>recv_node := Some n', head_parse := True\<rparr>)))) \<and>
           msg_id n' = msg_id n \<and> total_len n' = word_of_nat len \<and> cur_len n' = word_of_nat (c + bt) \<and>
           length (node_data n') = Suc len \<and> last (node_data n') = 0 \<and>
           filled n' = filled n @ take bt (data_from s copy)"
proof -
  let ?n' = "n\<lparr>node_data := take c (node_data n) @ take bt (data_from s copy) @
      drop (c + bt) (node_data n), cur_len := word_of_nat (c + bt)\<rparr>"
  have rem: "short_val (total_len n) - short_val (cur_len n) = int (len - c)" using n by simp
  have guard: "size_less bt (int (len - c))" using less n by (simp add: size_less_of_nat del: of_nat_diff)
  have app: "node_append n (data_from s copy) bt = Ok ?n'"
    using node_append_Ok [OF n(1), of bt] n src less by simp
  have fil: "filled ?n' = filled n @ take bt (data_from s copy)"
    using filled_appended [of c bt n "data_from s copy"] n src less by (simp add: filled_word)
  have nb: "\<not> Suc len \<le> c + bt" using less n(3) by simp
  have "last (node_data ?n') = 0" using n nb by (simp add: last_append last_drop)
  moreover have "length (node_data ?n') = Suc len" using n less src by simp
  moreover have "take_body P s n copy bt =
      Ok (Return (Rearmed (rearm (s\<lparr>recv_node := Some ?n', head_parse := True\<rparr>))))"
    unfolding take_body_def Let_def rem using guard app by (simp add: cxx_simps)
  moreover have "msg_id ?n' = msg_id n" "total_len ?n' = word_of_nat len"
    "cur_len ?n' = word_of_nat (c + bt)" using n by simp_all
  ultimately show ?thesis using fil by blast
qed

context frame_protocol
begin

lemma take_body_full:
  assumes n: "cur_len n = word_of_nat c" "total_len n = word_of_nat len" "c \<le> len" "len < 2 ^ 15"
      "length (node_data n) = Suc len" "last (node_data n) = 0"
    and src: "len - c \<le> length (data_from s copy)" and le: "len - c \<le> bt" "bt < 2 ^ 64"
    and body: "body = filled n @ take (len - c) (data_from s copy)"
  shows "\<exists>n'. take_body P s n copy bt = complete_msg P s n' (copy + int (len - c)) (bt - (len - c)) \<and>
     total_len n' = word_of_nat (length body) \<and> cur_len n' = word_of_nat (length body) \<and>
     node_data n' = body @ [0] \<and> length body < 2 ^ 15 \<and> msg_id n' = msg_id n"
proof -
  let ?n' = "n\<lparr>node_data := take c (node_data n) @ take (len - c) (data_from s copy) @
      drop (c + (len - c)) (node_data n), cur_len := word_of_nat (c + (len - c))\<rparr>"
  have rem: "short_val (total_len n) - short_val (cur_len n) = int (len - c)" using n by simp
  have guard: "\<not> size_less bt (int (len - c))"
    using le n by (simp add: size_less_of_nat del: of_nat_diff)
  have szs: "size_of_int (int (len - c)) = len - c" "size_sub bt (int (len - c)) = bt - (len - c)"
    using le n by (simp_all add: size_of_int_of_nat size_sub_of_nat del: of_nat_diff)
  have app: "node_append n (data_from s copy) (len - c) = Ok ?n'"
    using node_append_Ok [OF n(1), of "len - c"] n src by simp
  have fil: "filled n = take c (node_data n)" using n by (simp add: filled_word)
  have lb: "length body = len" using n src by (simp add: fil body)
  have "drop len (node_data n) = [0]"
    using n(5,6) by (metis append_butlast_last_id diff_Suc_1 drop_eq_Nil2 length_butlast
        append_eq_conv_conj length_0_conv nat.simps(3) not_less_eq_eq)
  then have nd: "node_data ?n' = body @ [0]" using n(3) fil body by simp
  have lt: "length body < 2 ^ 15" unfolding lb by (rule n(4))
  have c12: "total_len ?n' = word_of_nat (length body)" "cur_len ?n' = word_of_nat (length body)"
    unfolding lb using n(2,3) by simp_all
  have "take_body P s n copy bt = complete_msg P s ?n' (copy + int (len - c)) (bt - (len - c))"
    unfolding take_body_def Let_def rem szs using guard app by (simp add: cxx_simps)
  then show ?thesis using c12 nd lt by (intro exI [of _ ?n']) simp
qed

lemma take_body_complete:
  assumes n: "cur_len n = word_of_nat c" "total_len n = word_of_nat len" "c \<le> len" "len < 2 ^ 15"
      "length (node_data n) = Suc len" "last (node_data n) = 0"
    and src: "len - c \<le> length (data_from s copy)" and le: "len - c \<le> bt" "bt < 2 ^ 64"
    and h: "head_ok (head_len P) (head_node s)"
    and d: "deliver_msg P (world s) (msg_id n, filled n @ take (len - c) (data_from s copy)) = Ok w"
  shows "\<exists>h' n'. head_ok (head_len P) h' \<and> filled h' = [] \<and> take_body P s n copy bt =
      Ok (let s' = s\<lparr>recv_node := Some n', world := w, head_parse := False, head_node := h'\<rparr>
          in if bt - (len - c) = 0 then Return (Rearmed (rearm s'))
             else Continue s' (copy + int (len - c)) (bt - (len - c)))"
proof -
  obtain n' where tb: "take_body P s n copy bt = complete_msg P s n' (copy + int (len - c)) (bt - (len - c))"
    and n': "total_len n' = word_of_nat (length (filled n @ take (len - c) (data_from s copy)))"
      "cur_len n' = word_of_nat (length (filled n @ take (len - c) (data_from s copy)))"
      "node_data n' = (filled n @ take (len - c) (data_from s copy)) @ [0]"
      "length (filled n @ take (len - c) (data_from s copy)) < 2 ^ 15" "msg_id n' = msg_id n"
    using take_body_full [OF n src le refl] by blast
  show ?thesis
    using complete_msg_Ok [OF n'(1-4) h] d unfolding tb n'(5) by blast
qed

lemma take_body_fail:
  assumes n: "cur_len n = word_of_nat c" "total_len n = word_of_nat len" "c \<le> len" "len < 2 ^ 15"
      "length (node_data n) = Suc len" "last (node_data n) = 0"
    and src: "len - c \<le> length (data_from s copy)" and le: "len - c \<le> bt" "bt < 2 ^ 64"
    and d: "\<And>w. deliver_msg P (world s) (msg_id n, filled n @ take (len - c) (data_from s copy)) \<noteq> Ok w"
  shows "take_body P s n copy bt =
     fail_as (deliver_msg P (world s) (msg_id n, filled n @ take (len - c) (data_from s copy)))"
proof -
  obtain n' where tb: "take_body P s n copy bt = complete_msg P s n' (copy + int (len - c)) (bt - (len - c))"
    and n': "total_len n' = word_of_nat (length (filled n @ take (len - c) (data_from s copy)))"
      "cur_len n' = word_of_nat (length (filled n @ take (len - c) (data_from s copy)))"
      "node_data n' = (filled n @ take (len - c) (data_from s copy)) @ [0]"
      "length (filled n @ take (len - c) (data_from s copy)) < 2 ^ 15" "msg_id n' = msg_id n"
    using take_body_full [OF n src le refl] by blast
  show ?thesis
    using complete_msg_fail [OF n'(1-4)] d unfolding tb n'(5) by blast
qed

text \<open>
  What one pass must do with \<open>r\<close>, the bytes left in the buffer: hand over the next message
  if the pending bytes and \<open>r\<close> contain it, else keep everything.
\<close>

definition iter_spec :: "'w rsession \<Rightarrow> byte list \<Rightarrow> 'w iter cxx \<Rightarrow> int \<Rightarrow> nat \<Rightarrow> bool" where
  "iter_spec s r res copy bt \<longleftrightarrow>
     (case next_frame P (pending P s @ r) of
        Incomplete \<Rightarrow> (\<exists>s'. res = Ok (Return (Rearmed s')) \<and> sess_wf P s' \<and>
                         pending P s' = pending P s @ r \<and> world s' = world s)
      | RefusedHead \<Rightarrow> (\<exists>s'. res = Ok (Return (Cleared s')) \<and> world s' = world s)
      | NegativeLen \<Rightarrow> True
      | Frame mid body rest \<Rightarrow>
          (\<forall>w. deliver_msg P (world s) (mid, body) = Ok w \<longrightarrow>
             (\<exists>s'. sess_wf P s' \<and> pending P s' = [] \<and> world s' = w \<and> \<not> head_parse s' \<and>
                (if rest = [] then res = Ok (Return (Rearmed s'))
                 else \<exists>copy'. res = Ok (Continue s' copy' (length rest)) \<and> 0 \<le> copy' \<and>
                        nat copy' + length rest = nat copy + bt \<and> length rest < bt \<and>
                        take (length rest) (data_from s' copy') = rest))) \<and>
          ((\<forall>w. deliver_msg P (world s) (mid, body) \<noteq> Ok w) \<longrightarrow>
             res = fail_as (deliver_msg P (world s) (mid, body))))"

lemma iter_spec_frame:
  assumes "next_frame P (pending P s @ r) = Frame mid body rest"
    and "\<And>w. deliver_msg P (world s) (mid, body) = Ok w \<Longrightarrow>
             \<exists>s'. sess_wf P s' \<and> pending P s' = [] \<and> world s' = w \<and> \<not> head_parse s' \<and>
                (if rest = [] then res = Ok (Return (Rearmed s'))
                 else \<exists>copy'. res = Ok (Continue s' copy' (length rest)) \<and> 0 \<le> copy' \<and>
                        nat copy' + length rest = nat copy + bt \<and> length rest < bt \<and>
                        take (length rest) (data_from s' copy') = rest)"
    and "(\<And>w. deliver_msg P (world s) (mid, body) \<noteq> Ok w) \<Longrightarrow>
             res = fail_as (deliver_msg P (world s) (mid, body))"
  shows "iter_spec s r res copy bt"
  using assms unfolding iter_spec_def by simp

lemma after_complete:
  assumes "sess_data s = sd" "length sd = MAX_LENGTH" "head_ok (head_len P) h'" "filled h' = []"
    and "s' = s\<lparr>recv_node := x, world := w, head_parse := False, head_node := h'\<rparr>"
  shows "sess_wf P s'" "sess_wf P (rearm s')" "pending P s' = []" "pending P (rearm s') = []"
    "world s' = w" "world (rearm s') = w" "\<not> head_parse s'" "\<not> head_parse (rearm s')"
    "data_from s' copy = data_from s copy"
  using assms by (auto simp: sess_wf_def pending_def rearm_def data_from_def)

lemma body_iter:
  assumes wf: "length (sess_data s) = MAX_LENGTH" "head_ok (head_len P) (head_node s)"
    and hd: "parse_head P (take (head_len P) hs) = Some (msg_id n, word_of_nat len)"
      "take (head_len P) (node_data (head_node s)) = take (head_len P) hs" "head_len P \<le> length hs"
    and n: "cur_len n = word_of_nat c" "total_len n = word_of_nat len" "c \<le> len" "len < 2 ^ 15"
      "length (node_data n) = Suc len" "last (node_data n) = 0"
    and c: "0 \<le> copy" "nat copy + bt \<le> MAX_LENGTH" "r' = take bt (data_from s copy)"
    and prog: "bt < bt0 \<or> c < len" "bt \<le> bt0" "nat copy + bt = nat copy0 + bt0"
    and all: "pending P s0 @ r = take (head_len P) hs @ filled n @ r'" "world s0 = world s"
  shows "iter_spec s0 r (take_body P s n copy bt) copy0 bt0"
proof -
  let ?H = "take (head_len P) hs"
  have lH: "length ?H = head_len P" using hd by simp
  have fil: "filled n = take c (node_data n)" using n by (simp add: filled_word)
  have lf: "length (filled n) = c" using fil n by simp
  have lr: "length r' = bt" using c wf by (simp add: data_from_def)
  have src: "bt \<le> length (data_from s copy)" using c wf by (simp add: data_from_def)
  have len: "short_val (word_of_nat len) = int len" using n by simp
  have nf: "next_frame P (?H @ filled n @ r') =
      (if bt < len - c then Incomplete
       else Frame (msg_id n) (filled n @ take (len - c) r') (drop (len - c) r'))"
    using hd lH lf lr len n head_pos by (auto simp: next_frame_def)
  show ?thesis
  proof (cases "bt < len - c")
    case True
    obtain n' where n': "take_body P s n copy bt =
          Ok (Return (Rearmed (rearm (s\<lparr>recv_node := Some n', head_parse := True\<rparr>))))"
        "msg_id n' = msg_id n" "total_len n' = word_of_nat len" "cur_len n' = word_of_nat (c + bt)"
        "length (node_data n') = Suc len" "last (node_data n') = 0" "filled n' = filled n @ r'"
      using take_body_partial [OF n src True, of P] unfolding c(3) by blast
    have "body_ok P ?H n'"
      using n' hd True n by (simp add: body_ok_def min_def del: of_nat_add)
    then show ?thesis
      using True nf n' wf hd all
      by (simp add: iter_spec_def sess_wf_def pending_def rearm_def)
  next
    case False
    let ?k = "len - c"
    have ks: "?k \<le> length (data_from s copy)" "?k \<le> bt" "bt < 2 ^ 64"
      using False src c by (auto simp: MAX_LENGTH_def)
    have tk: "take ?k r' = take ?k (data_from s copy)" using c(3) ks by (simp add: min_def)
    have fr: "next_frame P (pending P s0 @ r) = Frame (msg_id n) (filled n @ take ?k r') (drop ?k r')"
      using nf False all(1) by simp
    show ?thesis
    proof (rule iter_spec_frame [OF fr])
      assume "\<And>w. deliver_msg P (world s0) (msg_id n, filled n @ take ?k r') \<noteq> Ok w"
      then show "take_body P s n copy bt =
          fail_as (deliver_msg P (world s0) (msg_id n, filled n @ take ?k r'))"
        using take_body_fail [OF n ks] unfolding tk all(2) by blast
    next
      fix w assume "deliver_msg P (world s0) (msg_id n, filled n @ take ?k r') = Ok w"
      then obtain h' n' where h': "head_ok (head_len P) h'" "filled h' = []"
        and res: "take_body P s n copy bt =
          Ok (let s' = s\<lparr>recv_node := Some n', world := w, head_parse := False, head_node := h'\<rparr>
              in if bt - ?k = 0 then Return (Rearmed (rearm s'))
                 else Continue s' (copy + int ?k) (bt - ?k))"
        using take_body_complete [OF n ks wf(2)] unfolding tk all(2) by blast
      define s' where "s' = s\<lparr>recv_node := Some n', world := w, head_parse := False, head_node := h'\<rparr>"
      note ac = after_complete [OF refl wf(1) h' s'_def]
      show "\<exists>s'. sess_wf P s' \<and> pending P s' = [] \<and> world s' = w \<and> \<not> head_parse s' \<and>
          (if drop ?k r' = [] then take_body P s n copy bt = Ok (Return (Rearmed s'))
           else \<exists>copy'. take_body P s n copy bt = Ok (Continue s' copy' (length (drop ?k r'))) \<and>
              0 \<le> copy' \<and> nat copy' + length (drop ?k r') = nat copy0 + bt0 \<and> length (drop ?k r') < bt0 \<and>
              take (length (drop ?k r')) (data_from s' copy') = drop ?k r')"
      proof (cases "bt - ?k = 0")
        case True
        then show ?thesis using res ac lr by (intro exI [of _ "rearm s'"]) (simp add: Let_def s'_def)
      next
        case gt: False
        have "take (bt - ?k) (data_from s' (copy + int ?k)) = drop ?k r'"
          using c n(3) by (simp add: data_from_def s'_def drop_take add.commute nat_add_distrib del: of_nat_diff)
        moreover have "nat (copy + int ?k) + (bt - ?k) = nat copy0 + bt0" "0 \<le> copy + int ?k"
          using c prog ks by (simp_all add: nat_add_distrib del: of_nat_diff)
        moreover have "bt - ?k < bt0" using prog gt by arith
        moreover have "take_body P s n copy bt = Ok (Continue s' (copy + int ?k) (bt - ?k))"
          using res gt by (simp add: Let_def s'_def)
        moreover have "length (drop ?k r') = bt - ?k" "drop ?k r' \<noteq> []" using gt lr by auto
        ultimately show ?thesis using ac(1,3,5,7) by (simp only: if_False) blast
      qed
    qed
  qed
qed

lemma read_iter_spec:
  assumes wf: "sess_wf P s" and c: "0 \<le> copy" "nat copy + bt \<le> MAX_LENGTH" "0 < bt"
    and r: "r = take bt (data_from s copy)"
  shows "iter_spec s r (read_iter P s copy bt) copy bt"
proof -
  have lr: "length r = bt" using r c wf by (simp add: data_from_def sess_wf_def)
  have buf: "length (sess_data s) = MAX_LENGTH" "head_ok (head_len P) (head_node s)"
    using wf by (auto simp: sess_wf_def)
  show ?thesis
  proof (cases "head_parse s")
    case True
    then obtain n where n: "recv_node s = Some n" "body_ok P (take (head_len P) (node_data (head_node s))) n"
      using wf by (auto simp: sess_wf_def split: option.splits)
    from n(2) obtain cc where cc: "cur_len n = word_of_nat cc" "cc < 2 ^ 15"
      by (auto simp: body_ok_def elim!: short_val_exhaust [of "cur_len n"])
    from n(2) have "0 \<le> short_val (total_len n)" by (simp add: body_ok_def)
    then obtain len where len: "total_len n = word_of_nat len" "len < 2 ^ 15"
      using short_val_exhaust by blast
    have "iter_spec s r (take_body P s n copy bt) copy bt"
    proof (rule body_iter [where hs = "node_data (head_node s)" and r' = r and c = cc and len = len])
      show "pending P s @ r = take (head_len P) (node_data (head_node s)) @ filled n @ r"
        using True n by (simp add: pending_def)
    qed (use buf n cc len r c in \<open>auto simp: body_ok_def head_ok_def\<close>)
    then show ?thesis using read_body_take [OF True n(1)] True by (simp add: read_iter_def)
  next
    case False
    show ?thesis
    proof (cases "length (pending P s @ r) < head_len P")
      case True
      then show ?thesis
        using read_head_short [OF wf False c(1,2) r True] False
        by (auto simp: iter_spec_def next_frame_def read_iter_def)
    next
      case full: False
      let ?bs = "pending P s @ r" and ?bt1 = "length (pending P s @ r) - head_len P"
      from read_head_full [OF wf False c(1,2) r] full obtain hs copy1 where h:
        "read_head P s copy bt = head_done P (s\<lparr>head_node := (head_node s)\<lparr>node_data := hs\<rparr>\<rparr>) copy1 ?bt1"
        "take (head_len P) hs = take (head_len P) ?bs" "length hs = Suc (head_len P)"
        "0 \<le> copy1" "nat copy1 + ?bt1 = nat copy + bt"
        "drop (nat copy1) (take (nat copy + bt) (sess_data s)) = drop (head_len P) ?bs" "?bt1 < bt"
        by force
      let ?s1 = "s\<lparr>head_node := (head_node s)\<lparr>node_data := hs\<rparr>\<rparr>"
      have it: "read_iter P s copy bt = head_done P ?s1 copy1 ?bt1" using False h(1) by (simp add: read_iter_def)
      have ph: "parse_head P (node_data (head_node ?s1)) = parse_head P (take (head_len P) ?bs)"
        using head_local [of hs] h(2) by simp
      have r1: "drop (head_len P) ?bs = take ?bt1 (data_from ?s1 copy1)"
      proof -
        have "take (nat copy + bt) (sess_data s) = take (nat copy1 + ?bt1) (sess_data s)" using h(5) by simp
        then show ?thesis using h(6) by (simp add: data_from_def drop_take)
      qed
      show ?thesis
      proof (cases "parse_head P (take (head_len P) ?bs)")
        case None
        then have nf: "next_frame P ?bs = RefusedHead"
          using full head_pos by (simp add: next_frame_def)
        then show ?thesis
          using head_done_refused [of ?s1 ?bs copy1 ?bt1] h(2) it by (simp add: iter_spec_def)
      next
        case (Some hd)
        obtain mid mlen where hd: "hd = (mid, mlen)" by (cases hd)
        show ?thesis
        proof (cases "short_val mlen < 0")
          case True
          then have "next_frame P ?bs = NegativeLen"
            using full head_pos Some hd by (simp add: next_frame_def)
          then show ?thesis by (simp add: iter_spec_def)
        next
          case False
          then obtain len where len: "mlen = word_of_nat len" "len < 2 ^ 15"
            using short_val_exhaust [of mlen] by force
          let ?n = "fresh_node mid len"
          have nn: "new_node P mlen mid = Ok ?n"
            using node_law [of "take (head_len P) ?bs" mid mlen] Some hd False len by simp
          have "head_done P ?s1 copy1 ?bt1 = take_body P ?s1 ?n copy1 ?bt1"
            by (rule head_done_take [OF _ nn]) (use ph Some hd len in simp_all)
          moreover have "iter_spec s r (take_body P ?s1 ?n copy1 ?bt1) copy bt"
          proof (rule body_iter [where hs = ?bs and c = 0 and len = len and r' = "drop (head_len P) ?bs"])
            show "pending P s @ r = take (head_len P) ?bs @ filled ?n @ drop (head_len P) ?bs"
              by (simp only: fresh_node_sel append_Nil append_take_drop_id)
            show "drop (head_len P) ?bs = take ?bt1 (data_from ?s1 copy1)" by (rule r1)
            show "nat copy1 + ?bt1 = nat copy + bt" by (rule h(5))
            show "nat copy1 + ?bt1 \<le> MAX_LENGTH" using h(5) c(2) by simp
            show "?bt1 < bt \<or> 0 < len" "?bt1 \<le> bt" using h(7) by simp_all
            show "parse_head P (take (head_len P) ?bs) = Some (msg_id ?n, word_of_nat len)"
              using Some hd len by simp
            show "head_ok (head_len P) (head_node ?s1)" using buf h(3) by (simp add: head_ok_def)
          qed (use buf h full len in simp_all)
          ultimately show ?thesis using it by simp
        qed
      qed
    qed
  qed
qed

section \<open>The loop\<close>

lemma wf_pending: "sess_wf P s \<Longrightarrow> next_frame P (pending P s) = Incomplete"
proof -
  assume wf: "sess_wf P s"
  show ?thesis
  proof (cases "head_parse s")
    case True
    with wf obtain n mlen where "recv_node s = Some n" and ph: "parse_head P (take (head_len P)
         (node_data (head_node s))) = Some (msg_id n, mlen)" "total_len n = mlen"
      and cur: "0 \<le> short_val (cur_len n)" "short_val (cur_len n) < short_val mlen"
      by (auto simp: sess_wf_def body_ok_def split: option.splits)
    moreover from wf have "length (node_data (head_node s)) = Suc (head_len P)"
      by (simp add: sess_wf_def head_ok_def)
    ultimately show ?thesis using True by (auto simp: pending_def next_frame_def filled_def)
  next
    case False
    with wf show ?thesis by (auto simp: pending_def next_frame_def filled_def sess_wf_def head_ok_def)
  qed
qed

text \<open>
  The loop returns with one unit of fuel more than the bytes it was given, re-arms the read
  exactly when the stream goes on, and leaves the session only at a refused header.
\<close>

lemma read_loop_spec:
  "sess_wf P s \<Longrightarrow> 0 \<le> copy \<Longrightarrow> nat copy + bt \<le> MAX_LENGTH \<Longrightarrow> 0 < bt \<Longrightarrow> bt < fuel \<Longrightarrow>
     parse_stream P (pending P s @ take bt (data_from s copy)) = (ms, e) \<Longrightarrow> e \<noteq> Malformed \<Longrightarrow>
     cxx_fold (deliver_msg P) (world s) ms = Ok w \<Longrightarrow>
     \<exists>s'. world s' = w \<and>
       (case e of Pending p \<Rightarrow> read_loop fuel P s copy bt = Some (Rearmed s') \<and> sess_wf P s' \<and> pending P s' = p
        | _ \<Rightarrow> read_loop fuel P s copy bt = Some (Cleared s'))"
proof (induction fuel arbitrary: s copy bt ms)
  case 0
  then show ?case by simp
next
  case (Suc fuel)
  let ?r = "take bt (data_from s copy)"
  note it = read_iter_spec [OF Suc.prems(1-4) refl]
  show ?case
  proof (cases "next_frame P (pending P s @ ?r)")
    case Incomplete
    then show ?thesis using it Suc.prems by (auto simp: iter_spec_def parse_stream_cases)
  next
    case RefusedHead
    then show ?thesis using it Suc.prems by (auto simp: iter_spec_def parse_stream_cases)
  next
    case NegativeLen
    then show ?thesis using Suc.prems by (simp add: parse_stream_cases)
  next
    case (Frame mid body rest)
    from Suc.prems(6) obtain ms' where ms: "ms = (mid, body) # ms'" "parse_stream P rest = (ms', e)"
      by (simp add: parse_stream_Frame [OF Frame]) (metis prod.collapse)
    from Suc.prems(8) ms obtain w1 where w1: "deliver_msg P (world s) (mid, body) = Ok w1"
        "cxx_fold (deliver_msg P) w1 ms' = Ok w"
      by (auto simp: cxx_bind_eq_Ok)
    from it Frame w1 obtain s1 where s1: "sess_wf P s1" "pending P s1 = []" "world s1 = w1"
      and res: "if rest = [] then read_iter P s copy bt = Ok (Return (Rearmed s1))
         else \<exists>copy'. read_iter P s copy bt = Ok (Continue s1 copy' (length rest)) \<and> 0 \<le> copy' \<and>
            nat copy' + length rest = nat copy + bt \<and> length rest < bt \<and>
            take (length rest) (data_from s1 copy') = rest"
      unfolding iter_spec_def by auto
    show ?thesis
    proof (cases "rest = []")
      case True
      then have "ms' = []" "e = Pending []"
        using ms(2) head_pos by (auto simp: parse_stream_Incomplete next_frame_def)
      then show ?thesis using True res s1 w1 Suc.prems(4) by auto
    next
      case False
      with res obtain copy' where c': "read_iter P s copy bt = Ok (Continue s1 copy' (length rest))" "0 \<le> copy'"
        "nat copy' + length rest = nat copy + bt" "length rest < bt" "take (length rest) (data_from s1 copy') = rest"
        by auto
      have ih: "\<exists>s'. world s' = w \<and> (case e of Pending p \<Rightarrow> read_loop fuel P s1 copy' (length rest) = Some (Rearmed s')
            \<and> sess_wf P s' \<and> pending P s' = p
          | _ \<Rightarrow> read_loop fuel P s1 copy' (length rest) = Some (Cleared s'))"
        by (rule Suc.IH [where ms = ms'])
          (use s1 c' ms(2) w1(2) False Suc.prems in simp_all)
      have "read_loop (Suc fuel) P s copy bt = read_loop fuel P s1 copy' (length rest)"
        using c'(1) Suc.prems(4) by simp
      then show ?thesis by (simp only: ih)
    qed
  qed
qed

text \<open>
  When handing a message over fails, the loop ends there: undefined behaviour stays undefined,
  and an exception leaves the handler or is swallowed with no read armed.
\<close>

definition failed_end :: "'w read_end \<Rightarrow> 'x cxx \<Rightarrow> bool" where
  "failed_end r m \<longleftrightarrow>
     (case m of
        Ok x \<Rightarrow> False
      | Throw e \<Rightarrow> if catches P then (\<exists>s'. r = Swallowed s') else r = Escaped e
      | UB \<Rightarrow> r = Undefined)"

lemma read_loop_fail:
  "sess_wf P s \<Longrightarrow> 0 \<le> copy \<Longrightarrow> nat copy + bt \<le> MAX_LENGTH \<Longrightarrow> 0 < bt \<Longrightarrow> bt < fuel \<Longrightarrow>
     parse_stream P (pending P s @ take bt (data_from s copy)) = (ms, e) \<Longrightarrow>
     (\<And>w. cxx_fold (deliver_msg P) (world s) ms \<noteq> Ok w) \<Longrightarrow>
     \<exists>r. read_loop fuel P s copy bt = Some r \<and> failed_end r (cxx_fold (deliver_msg P) (world s) ms)"
proof (induction fuel arbitrary: s copy bt ms)
  case 0
  then show ?case by simp
next
  case (Suc fuel)
  let ?r = "take bt (data_from s copy)"
  note it = read_iter_spec [OF Suc.prems(1-4) refl]
  obtain mid body rest ms' where fr: "next_frame P (pending P s @ ?r) = Frame mid body rest"
    and ms: "ms = (mid, body) # ms'" "parse_stream P rest = (ms', e)"
  proof (cases "next_frame P (pending P s @ ?r)")
    case (Frame mid body rest)
    then show ?thesis using that Suc.prems(6) by (simp add: parse_stream_Frame) (metis prod.collapse)
  qed (use Suc.prems(6,7) in \<open>auto simp: parse_stream_cases\<close>)
  show ?case
  proof (cases "\<exists>w. deliver_msg P (world s) (mid, body) = Ok w")
    case False
    then have "read_iter P s copy bt = fail_as (deliver_msg P (world s) (mid, body))"
      using it fr by (simp add: iter_spec_def)
    then show ?thesis using False ms(1) Suc.prems(4)
      by (cases "deliver_msg P (world s) (mid, body)") (auto simp: failed_end_def cxx_simps)
  next
    case True
    then obtain w1 where w1: "deliver_msg P (world s) (mid, body) = Ok w1" by blast
    have nok: "cxx_fold (deliver_msg P) w1 ms' \<noteq> Ok w" for w
      using Suc.prems(7) [of w] ms(1) w1 by (simp add: cxx_simps)
    from it fr w1 obtain s1 where s1: "sess_wf P s1" "pending P s1 = []" "world s1 = w1"
      and res: "if rest = [] then read_iter P s copy bt = Ok (Return (Rearmed s1))
         else \<exists>copy'. read_iter P s copy bt = Ok (Continue s1 copy' (length rest)) \<and> 0 \<le> copy' \<and>
            nat copy' + length rest = nat copy + bt \<and> length rest < bt \<and>
            take (length rest) (data_from s1 copy') = rest"
      unfolding iter_spec_def by auto
    have "rest \<noteq> []"
    proof
      assume "rest = []"
      then have "ms' = []" using ms(2) head_pos by (auto simp: parse_stream_Incomplete next_frame_def)
      then show False using nok [of w1] by simp
    qed
    with res obtain copy' where c': "read_iter P s copy bt = Ok (Continue s1 copy' (length rest))" "0 \<le> copy'"
      "nat copy' + length rest = nat copy + bt" "length rest < bt" "take (length rest) (data_from s1 copy') = rest"
      by auto
    have "\<exists>r. read_loop fuel P s1 copy' (length rest) = Some r \<and> failed_end r (cxx_fold (deliver_msg P) (world s1) ms')"
    proof (rule Suc.IH)
      show "parse_stream P (pending P s1 @ take (length rest) (data_from s1 copy')) = (ms', e)"
        using s1(2) c'(5) ms(2) by simp
      show "cxx_fold (deliver_msg P) (world s1) ms' \<noteq> Ok w" for w using nok s1(3) by simp
    qed (use s1 c' \<open>rest \<noteq> []\<close> Suc.prems in simp_all)
    then show ?thesis using c'(1) Suc.prems(4) w1 ms(1) s1(3) by (simp add: cxx_simps)
  qed
qed

lemma deliver_chunk:
  assumes "sess_wf P s" "chunk_ok c"
  shows "sess_wf P (deliver c s)" "pending P (deliver c s) = pending P s" "world (deliver c s) = world s"
    "take (length c) (data_from (deliver c s) 0) = c"
  using assms by (auto simp: sess_wf_def deliver_def pending_def data_from_def chunk_ok_def split: option.splits)

lemma handle_read_spec:
  assumes "sess_wf P s" "chunk_ok c" "parse_stream P (pending P s @ c) = (ms, e)" "e \<noteq> Malformed"
    and "cxx_fold (deliver_msg P) (world s) ms = Ok w"
  shows "\<exists>s'. world s' = w \<and>
     (case e of Pending p \<Rightarrow> handle_read P False (length c) (deliver c s) = Some (Rearmed s') \<and>
                  sess_wf P s' \<and> pending P s' = p
      | _ \<Rightarrow> handle_read P False (length c) (deliver c s) = Some (Cleared s'))"
  unfolding handle_read_def if_False
  by (rule read_loop_spec [where ms = ms])
    (use assms in \<open>simp_all add: deliver_chunk chunk_ok_def\<close>)

lemma handle_read_fail:
  assumes "sess_wf P s" "chunk_ok c" "parse_stream P (pending P s @ c) = (ms, e)"
    and "\<And>w. cxx_fold (deliver_msg P) (world s) ms \<noteq> Ok w"
  shows "\<exists>r. handle_read P False (length c) (deliver c s) = Some r \<and>
     failed_end r (cxx_fold (deliver_msg P) (world s) ms)"
proof -
  have "\<exists>r. read_loop (Suc (length c)) P (deliver c s) 0 (length c) = Some r \<and>
      failed_end r (cxx_fold (deliver_msg P) (world (deliver c s)) ms)"
    by (rule read_loop_fail) (use assms in \<open>simp_all add: deliver_chunk chunk_ok_def\<close>)
  then show ?thesis using assms(1,2) by (simp add: handle_read_def deliver_chunk)
qed

text \<open>A negative length whose allocation throws: the handler ends without re-arming the read.\<close>

lemma handle_read_negative:
  assumes s: "sess_wf P s" "chunk_ok c" "next_frame P (pending P s @ c) = NegativeLen"
    and neg: "parse_head P (take (head_len P) (pending P s @ c)) = Some (mid, mlen)" "new_node P mlen mid = Throw x"
  shows "handle_read P False (length c) (deliver c s) = Some (if catches P then Swallowed (deliver c s) else Escaped x)"
proof -
  let ?s = "deliver c s"
  note d = deliver_chunk [OF s(1,2)]
  have hp: "\<not> head_parse s"
  proof
    assume "head_parse s"
    then obtain n where "recv_node s = Some n" "body_ok P (take (head_len P) (node_data (head_node s))) n"
      "length (node_data (head_node s)) = Suc (head_len P)"
      using s(1) by (auto simp: sess_wf_def head_ok_def split: option.splits)
    with \<open>head_parse s\<close> s(3) show False
      by (auto simp: body_ok_def pending_def next_frame_def split: if_splits option.splits)
  qed
  then have hp': "\<not> head_parse ?s" by (simp add: deliver_def)
  have len: "head_len P \<le> length (pending P ?s @ take (length c) (data_from ?s 0))"
    using s(3) unfolding d(2,4) by (auto simp: next_frame_def split: if_splits)
  have c: "0 \<le> (0::int)" "nat 0 + length c \<le> MAX_LENGTH" using s(2) by (simp_all add: chunk_ok_def)
  obtain hs copy1 where h: "read_head P ?s 0 (length c) =
      head_done P (?s\<lparr>head_node := (head_node ?s)\<lparr>node_data := hs\<rparr>\<rparr>) copy1 (length (pending P s @ c) - head_len P)"
      "take (head_len P) hs = take (head_len P) (pending P s @ c)"
    using read_head_full [OF d(1) hp' c refl len] unfolding d(2,4) by blast
  have "parse_head P hs = Some (mid, mlen)" using head_local [of hs] h(2) neg(1) by simp
  then have "read_iter P ?s 0 (length c) = Throw x"
    using hp' h(1) neg(2) by (simp add: read_iter_def head_done_def cxx_simps)
  then show ?thesis using s(2) by (simp add: handle_read_def chunk_ok_def)
qed

lemma handle_read_error: "handle_read P True n s = Some (Closed s)"
  by (simp add: handle_read_def)

lemma start_session_Ok:
  "\<exists>s. start_session P w = Ok s \<and> sess_wf P s \<and> pending P s = [] \<and> world s = w"
  using head_node_law head_pos head_small
  by (auto simp: start_session_def cxx_simps sess_wf_def head_ok_def rearm_def pending_def)

end

sublocale frame_protocol \<subseteq> reader: stream_reader "feed P" "sess_wf P" chunk_ok "pending P" world
    "parse_stream P" "deliver_msg P"
proof
  fix s c ms p w
  assume "sess_wf P s" "chunk_ok c" "parse_stream P (pending P s @ c) = (ms, Pending p)"
    "cxx_fold (deliver_msg P) (world s) ms = Ok w"
  from handle_read_spec [OF this(1-3) _ this(4)]
  show "\<exists>s'. feed P s c = Some s' \<and> sess_wf P s' \<and> pending P s' = p \<and> world s' = w"
    by (auto simp: feed_def)
next
  show "sess_wf P s \<Longrightarrow> parse_stream P (pending P s) = ([], Pending (pending P s))" for s
    by (rule parse_stream_Incomplete) (rule wf_pending)
next
  show "parse_stream P (a @ b) = (ms, Pending p) \<Longrightarrow>
      \<exists>ms1 p1 ms2. parse_stream P a = (ms1, Pending p1) \<and> parse_stream P (p1 @ b) = (ms2, Pending p) \<and>
        ms = ms1 @ ms2" for a b ms p
    by (rule parse_stream_prefix)
qed

context frame_protocol
begin

text \<open>A fresh session fed any cutting of a stream handles the stream's messages, in order.\<close>

lemma session_law:
  assumes "\<And>c. c \<in> set cs \<Longrightarrow> chunk_ok c" "parse_stream P (concat cs) = (ms, Pending p)"
    and "cxx_fold (deliver_msg P) w ms = Ok w'"
  shows "\<exists>s0 s. start_session P w = Ok s0 \<and> feeds (feed P) s0 cs = Some s \<and> world s = w' \<and> pending P s = p"
proof -
  obtain s0 where s0: "start_session P w = Ok s0" "sess_wf P s0" "pending P s0 = []" "world s0 = w"
    using start_session_Ok by blast
  then show ?thesis using reader.feeds_law [of s0 cs ms p w'] assms by auto
qed

end

end
