(* ===== verification/SendQueue.thy ===== *)
theory SendQueue
  imports MsgNode
begin

text \<open>
  The send side of \<open>CSession\<close>: the queue \<open>_send_que\<close> guarded by \<open>_send_lock\<close>, \<open>Send\<close> and
  \<open>HandleWrite\<close>.  Both hold the lock for their whole body, so each is one atomic operation on
  \<open>send_state\<close>.  The locale \<open>write_pump\<close> states what the servers rely on: messages leave
  in the order they were accepted, one write at a time, none lost and none doubled.
\<close>

definition MAX_SENDQUE :: nat where
  "MAX_SENDQUE = 1000"

record send_state =
  send_que :: "msg_node list"
  in_flight :: "byte list list"

text \<open>
  \<open>in_flight\<close> holds the buffers given to \<open>async_write\<close> whose completion has not come yet, in
  the order of the calls.
\<close>

definition empty_send :: send_state where
  "empty_send = \<lparr>send_que = [], in_flight = []\<rparr>"

text \<open>\<open>boost::asio::buffer(node->_data, node->_total_len)\<close> read by the write operation.\<close>

definition write_buffer :: "msg_node \<Rightarrow> byte list cxx" where
  "write_buffer n =
     (if size_of_int (short_val (total_len n)) \<le> length (node_data n)
      then Ok (take (size_of_int (short_val (total_len n))) (node_data n)) else UB)"

definition async_write_front :: "send_state \<Rightarrow> send_state cxx" where
  "async_write_front st =
     (case send_que st of
        [] \<Rightarrow> UB
      | n # _ \<Rightarrow> cxx_bind (write_buffer n) (\<lambda>b. Ok (st\<lparr>in_flight := in_flight st @ [b]\<rparr>)))"

text \<open>
  The body of \<open>Send\<close>: \<open>full\<close> is the test of the queue size that drops the message, \<open>node\<close> the
  constructor call.
\<close>

definition send_with :: "(nat \<Rightarrow> bool) \<Rightarrow> msg_node cxx \<Rightarrow> send_state \<Rightarrow> send_state cxx" where
  "send_with full node st =
     (let send_que_size = length (send_que st) in
      if full send_que_size then Ok st
      else cxx_bind node (\<lambda>n.
             let st' = st\<lparr>send_que := send_que st @ [n]\<rparr> in
             if send_que_size > 0 then Ok st' else async_write_front st'))"

definition que_full :: "nat \<Rightarrow> bool" where
  "que_full k \<longleftrightarrow> k > MAX_SENDQUE"

text \<open>How \<open>HandleWrite\<close> ends: the session goes on, or \<open>Close\<close> and \<open>ClearSession\<close> were called.\<close>

datatype write_end = Going send_state | Gone send_state

definition pop_and_write :: "send_state \<Rightarrow> send_state cxx" where
  "pop_and_write st =
     (case send_que st of
        [] \<Rightarrow> UB
      | _ # q \<Rightarrow> (let st' = st\<lparr>send_que := q\<rparr> in
                 if q \<noteq> [] then async_write_front st' else Ok st'))"

definition handle_write :: "bool \<Rightarrow> send_state \<Rightarrow> write_end cxx" where
  "handle_write error st =
     (if \<not> error then cxx_bind (pop_and_write st) (\<lambda>st'. Ok (Going st')) else Ok (Gone st))"

section \<open>Nodes that can be sent\<close>

definition wire_ok :: "msg_node \<Rightarrow> bool" where
  "wire_ok n \<longleftrightarrow> 0 \<le> short_val (total_len n) \<and> nat (short_val (total_len n)) \<le> length (node_data n)"

lemma write_buffer_Ok: "wire_ok n \<Longrightarrow> write_buffer n = Ok (wire_bytes n)"
proof -
  assume a: "wire_ok n"
  then have "size_of_int (short_val (total_len n)) = nat (short_val (total_len n))"
    using short_range [of "total_len n"] by (intro size_of_int_nonneg) (auto simp: wire_ok_def)
  with a show ?thesis by (simp add: write_buffer_def wire_bytes_def wire_ok_def)
qed

lemma new_char_array_nat: "new_char_array (int k) = Ok (replicate k 0)"
  by (simp add: new_char_array_def)

lemma prefix_MsgNode_Ok:
  assumes "k + 2 < 2 ^ 15" "k \<le> length msg"
  shows "prefix_MsgNode order msg (word_of_nat k) =
    Ok \<lparr>cur_len = 0, total_len = word_of_nat (k + 2),
        node_data = le_bytes (order (word_of_nat k)) @ take k msg @ [0], msg_id = 0\<rparr>"
proof -
  let ?p = "le_bytes (order (word_of_nat k))"
  have w: "word_of_nat k + 2 = (word_of_nat (k + 2) :: short)" by simp
  have t: "short_val (word_of_nat (k + 2)) = int (k + 2)" using assms by (intro short_of_nat) simp
  have s: "size_of_int (short_val (word_of_nat k)) = k" using assms by (simp add: size_of_int_of_nat)
  have a: "new_char_array (short_val (word_of_nat (k + 2)) + 1) = Ok ([] @ [0, 0] @ replicate k 0 @ [0])"
  proof -
    have "short_val (word_of_nat (k + 2)) + 1 = int (2 + (k + 1))" unfolding t by simp
    then show ?thesis by (simp only: new_char_array_nat replicate_add) (simp add: numeral_eq_Suc replicate_append_same)
  qed
  have m1: "memcpy_at ([] @ [0, 0] @ replicate k 0 @ [0]) 0 ?p 2 = Ok ([] @ take 2 ?p @ replicate k 0 @ [0])"
    by (rule memcpy_at_mid) simp_all
  have m2: "memcpy_at (?p @ replicate k 0 @ [0]) 2 msg k = Ok (?p @ take k msg @ [0])"
    by (rule memcpy_at_mid) (use assms in simp_all)
  have m3: "buf_put (?p @ take k msg @ [0]) (short_val (word_of_nat (k + 2))) 0 = Ok (?p @ take k msg @ [0])"
    using buf_put_mid [of "?p @ take k msg" "short_val (word_of_nat (k + 2))" 0 "[]" 0] assms
    unfolding t by simp
  show ?thesis
    unfolding prefix_MsgNode_def Let_def w s a cxx_bind.simps m1
    by (simp only: append_Nil take_all length_le_bytes order_refl m2 m3 cxx_bind.simps)
qed

lemma id_SendNode_Ok:
  assumes "k + 4 < 2 ^ 15" "k \<le> length msg"
  shows "id_SendNode 4 msg (word_of_nat k) mid =
    Ok \<lparr>cur_len = 0, total_len = word_of_nat (k + 4),
        node_data = le_bytes (swap16 mid) @ le_bytes (swap16 (word_of_nat k)) @ take k msg @ [0], msg_id = mid\<rparr>"
proof -
  let ?i = "le_bytes (swap16 mid)" and ?p = "le_bytes (swap16 (word_of_nat k))"
  have w: "word_of_nat k + 4 = (word_of_nat (k + 4) :: short)" by simp
  have t: "short_val (word_of_nat (k + 4)) = int (k + 4)" using assms by (intro short_of_nat) simp
  have s: "size_of_int (short_val (word_of_nat k)) = k" using assms by (simp add: size_of_int_of_nat)
  define z where "z = [] @ [0, 0] @ [0, 0] @ replicate k 0 @ [0::byte]"
  define z1 where "z1 = ?i @ [0, 0] @ replicate k 0 @ [0::byte]"
  define z2 where "z2 = (?i @ ?p) @ replicate k 0 @ [0::byte]"
  have z: "z = replicate (4 + (k + 1)) 0"
    unfolding z_def by (simp only: replicate_add) (simp add: numeral_eq_Suc replicate_append_same)
  have a: "new_char_array (short_val (word_of_nat (k + 4)) + 1) = Ok z"
  proof -
    have "short_val (word_of_nat (k + 4)) + 1 = int (4 + (k + 1))" unfolding t by simp
    then show ?thesis unfolding z by (simp only: new_char_array_nat)
  qed
  have b: "buf_put z (short_val (word_of_nat (k + 4))) 0 = Ok z"
    using buf_put_mid [of "[0, 0] @ [0, 0] @ replicate k 0" "short_val (word_of_nat (k + 4))" 0 "[]" 0]
    unfolding t z_def by simp
  have m1: "memcpy_at z 0 ?i 2 = Ok z1"
    using memcpy_at_mid [of "[]" 0 "[0, 0]" 2 ?i] unfolding z_def z1_def by simp
  have m2: "memcpy_at z1 2 ?p 2 = Ok z2"
    using memcpy_at_mid [of ?i 2 "[0, 0]" 2 ?p] unfolding z1_def z2_def by simp
  have m3: "memcpy_at z2 4 msg k = Ok (?i @ ?p @ take k msg @ [0])"
    using memcpy_at_mid [of "?i @ ?p" 4 "replicate k 0" k msg] assms unfolding z2_def by simp
  show ?thesis
    unfolding id_SendNode_def nul_MsgNode_def w s a cxx_bind.simps b
    by (simp add: m1 m2 m3 cxx_simps)
qed

text \<open>
  \<open>MsgJsonIDServer\<close> reserves two bytes too few: for every length the copy of the body runs
  over the end of the array.
\<close>

lemma id_SendNode_short_UB:
  assumes "k + 2 < 2 ^ 15"
  shows "id_SendNode 2 msg (word_of_nat k) mid = UB"
proof -
  have w: "word_of_nat k + 2 = (word_of_nat (k + 2) :: short)" by simp
  have t: "short_val (word_of_nat (k + 2)) = int (k + 2)" using assms by (intro short_of_nat) simp
  have s: "size_of_int (short_val (word_of_nat k)) = k" using assms by (simp add: size_of_int_of_nat)
  have over: "length d = k + 3 \<Longrightarrow> memcpy_at d 4 msg k = UB" for d
    by (rule memcpy_at_UB) simp
  have a: "new_char_array (short_val (word_of_nat (k + 2)) + 1) = Ok (replicate (k + 3) 0)"
    unfolding t using new_char_array_nat [of "k + 3"] by (simp add: ac_simps)
  have b: "buf_put (replicate (k + 3) 0) (short_val (word_of_nat (k + 2))) 0 =
      Ok ((replicate (k + 3) 0)[k + 2 := 0])"
    unfolding t by (simp only: buf_put_def nat_int length_replicate of_nat_0_le_iff) simp
  have *: "cxx_bind (memcpy_at d off src n) f = UB"
    if "\<And>d'. length d' = length d \<Longrightarrow> f d' = UB"
    for d off src n and f :: "byte list \<Rightarrow> msg_node cxx"
    using that by (simp add: memcpy_at_def cxx_simps)
  show ?thesis
    unfolding id_SendNode_def nul_MsgNode_def w s a cxx_bind.simps b msg_node.simps
    by (rule *, rule *, simp add: over cxx_simps)
qed

section \<open>The write pump\<close>

text \<open>
  The abstract queue: encoded messages waiting or being written, and the bytes already on the
  wire.  \<open>Post\<close> is a call of \<open>Send\<close>, \<open>Written\<close> the completion of the outstanding write.
\<close>

datatype 'm pump_event = Post 'm | Written

fun pump_spec ::
  "(nat \<Rightarrow> bool) \<Rightarrow> ('m \<Rightarrow> byte list) \<Rightarrow> byte list list \<times> byte list \<Rightarrow> 'm pump_event \<Rightarrow> byte list list \<times> byte list"
where
  "pump_spec full enc (q, out) (Post m) = (if full (length q) then (q, out) else (q @ [enc m], out))"
| "pump_spec full enc (q, out) Written = (case q of [] \<Rightarrow> (q, out) | b # q' \<Rightarrow> (q', out @ b))"

text \<open>
  The concrete run: a completion takes the oldest outstanding buffer, whose bytes are then on
  the wire, and calls \<open>HandleWrite\<close>.
\<close>

fun pump_step ::
  "(send_state \<Rightarrow> 'm \<Rightarrow> send_state cxx) \<Rightarrow> send_state \<times> byte list \<Rightarrow> 'm pump_event \<Rightarrow> (send_state \<times> byte list) cxx"
where
  "pump_step send (st, out) (Post m) = cxx_bind (send st m) (\<lambda>st'. Ok (st', out))"
| "pump_step send (st, out) Written =
     (case in_flight st of
        [] \<Rightarrow> Ok (st, out)
      | b # bs \<Rightarrow> cxx_bind (pop_and_write (st\<lparr>in_flight := bs\<rparr>)) (\<lambda>st'. Ok (st', out @ b)))"

text \<open>At most one write is outstanding, and it is the write of the front of the queue.\<close>

definition pump_inv :: "send_state \<Rightarrow> bool" where
  "pump_inv st \<longleftrightarrow> (\<forall>n \<in> set (send_que st). wire_ok n) \<and>
     in_flight st = (case send_que st of [] \<Rightarrow> [] | n # _ \<Rightarrow> [wire_bytes n])"

definition pump_abs :: "send_state \<times> byte list \<Rightarrow> byte list list \<times> byte list" where
  "pump_abs c = (map wire_bytes (send_que (fst c)), snd c)"

definition enqueue :: "msg_node \<Rightarrow> send_state \<Rightarrow> send_state" where
  "enqueue n st = st\<lparr>send_que := send_que st @ [n],
     in_flight := (if send_que st = [] then in_flight st @ [wire_bytes n] else in_flight st)\<rparr>"

lemma pump_inv_empty [simp]: "pump_inv empty_send"
  by (simp add: pump_inv_def empty_send_def)

lemma send_with_Ok:
  assumes "node = Ok n" "wire_ok n"
  shows "send_with full node st = Ok (if full (length (send_que st)) then st else enqueue n st)"
  using assms by (cases "send_que st")
    (simp_all add: send_with_def Let_def cxx_simps async_write_front_def write_buffer_Ok enqueue_def)

lemma pump_inv_enqueue: "pump_inv st \<Longrightarrow> wire_ok n \<Longrightarrow> pump_inv (enqueue n st)"
  by (cases "send_que st") (auto simp: pump_inv_def enqueue_def)

lemma pop_and_write_Ok:
  assumes "pump_inv st" "send_que st = n # q"
  shows "\<exists>st'. pop_and_write (st\<lparr>in_flight := []\<rparr>) = Ok st' \<and> pump_inv st' \<and> send_que st' = q"
  using assms by (cases q)
    (auto simp: pop_and_write_def Let_def async_write_front_def cxx_simps write_buffer_Ok pump_inv_def)

text \<open>
  The completions of as many writes as there are nodes put the whole queue on the wire: each completion
  starts the next write.
\<close>

lemma pump_drain:
  "pump_inv st \<Longrightarrow> \<exists>st'. cxx_fold (pump_step send) (st, out) (replicate (length (send_que st)) Written) =
     Ok (st', out @ concat (map wire_bytes (send_que st))) \<and> send_que st' = [] \<and> in_flight st' = []"
proof (induction "send_que st" arbitrary: st out)
  case Nil
  then show ?case by (simp add: pump_inv_def)
next
  case (Cons n q)
  obtain st1 where st1: "pop_and_write (st\<lparr>in_flight := []\<rparr>) = Ok st1" "pump_inv st1" "send_que st1 = q"
    using pop_and_write_Ok [OF Cons.prems Cons.hyps(2) [symmetric]] by blast
  have "in_flight st = [wire_bytes n]" using Cons.prems Cons.hyps(2) [symmetric] by (simp add: pump_inv_def)
  then show ?case
    using Cons.hyps(1) [OF st1(3) [symmetric] st1(2), of "out @ wire_bytes n"] Cons.hyps(2) [symmetric] st1(1,3)
    by (simp add: cxx_simps)
qed

text \<open>The messages that are given to \<open>Send\<close> in a run.\<close>

definition posts_in :: "'m pump_event list \<Rightarrow> 'm list" where
  "posts_in es = concat (map (\<lambda>e. case e of Post m \<Rightarrow> [m] | Written \<Rightarrow> []) es)"

lemma posts_in_simps [simp]:
  "posts_in [] = []" "posts_in (Post m # es) = m # posts_in es" "posts_in (Written # es) = posts_in es"
  by (simp_all add: posts_in_def)

lemma set_posts_in: "m \<in> set (posts_in es) \<longleftrightarrow> Post m \<in> set es"
  by (induction es) (auto simp: posts_in_def split: pump_event.splits)

locale write_pump =
  fixes send :: "send_state \<Rightarrow> 'm \<Rightarrow> send_state cxx"
    and full :: "nat \<Rightarrow> bool"
    and enc :: "'m \<Rightarrow> byte list"
    and fits :: "'m \<Rightarrow> bool"
  assumes send_law: "fits m \<Longrightarrow> \<exists>n. wire_ok n \<and> wire_bytes n = enc m \<and>
     (\<forall>st. send st m = Ok (if full (length (send_que st)) then st else enqueue n st))"
begin

lemma pump_step_refines:
  assumes "pump_inv st" "\<And>m. e = Post m \<Longrightarrow> fits m"
  shows "\<exists>c'. pump_step send (st, out) e = Ok c' \<and> pump_inv (fst c') \<and>
           pump_abs c' = pump_spec full enc (pump_abs (st, out)) e"
proof (cases e)
  case (Post m)
  then obtain n where n: "wire_ok n" "wire_bytes n = enc m"
    "send st m = Ok (if full (length (send_que st)) then st else enqueue n st)"
    using send_law assms(2) by blast
  then show ?thesis
    using assms(1) Post by (auto simp: cxx_simps pump_abs_def pump_inv_enqueue) (auto simp: enqueue_def)
next
  case Written
  show ?thesis
  proof (cases "send_que st")
    case Nil
    then show ?thesis using assms(1) Written by (simp add: pump_inv_def pump_abs_def)
  next
    case (Cons n q)
    obtain st' where st': "pop_and_write (st\<lparr>in_flight := []\<rparr>) = Ok st'" "pump_inv st'" "send_que st' = q"
      using pop_and_write_Ok [OF assms(1) Cons] by blast
    have "in_flight st = [wire_bytes n]" using assms(1) Cons by (simp add: pump_inv_def)
    then show ?thesis using Written Cons st' by (simp add: cxx_simps pump_abs_def)
  qed
qed

lemma pump_refines:
  assumes "pump_inv st" "\<And>m. Post m \<in> set es \<Longrightarrow> fits m"
  shows "\<exists>c'. cxx_fold (pump_step send) (st, out) es = Ok c' \<and> pump_inv (fst c') \<and>
           pump_abs c' = foldl (pump_spec full enc) (pump_abs (st, out)) es"
  using assms
proof (induction es arbitrary: st out)
  case (Cons e es)
  obtain st1 out1 where "pump_step send (st, out) e = Ok (st1, out1)" "pump_inv st1"
    "pump_abs (st1, out1) = pump_spec full enc (pump_abs (st, out)) e"
    using pump_step_refines [of st e out] Cons.prems by (auto simp del: pump_step.simps)
  moreover from this Cons obtain c' where "cxx_fold (pump_step send) (st1, out1) es = Ok c'" "pump_inv (fst c')"
    "pump_abs c' = foldl (pump_spec full enc) (pump_abs (st1, out1)) es"
    by (metis list.set_intros(2))
  ultimately show ?case by (auto simp: cxx_simps simp del: pump_step.simps)
qed simp

end

text \<open>What the abstract pump promises: accepted messages leave in order and once.\<close>

fun accepted :: "(nat \<Rightarrow> bool) \<Rightarrow> nat \<Rightarrow> 'm pump_event list \<Rightarrow> 'm list" where
  "accepted full k [] = []"
| "accepted full k (Post m # es) =
     (if full k then accepted full k es else m # accepted full (Suc k) es)"
| "accepted full k (Written # es) = accepted full (k - 1) es"

lemma pump_spec_fifo:
  assumes "foldl (pump_spec full enc) (q, out) es = (q', out')"
  shows "out' @ concat q' = out @ concat q @ concat (map enc (accepted full (length q) es))"
  using assms
proof (induction es arbitrary: q out)
  case (Cons e es)
  show ?case
  proof (cases e)
    case (Post m)
    then show ?thesis using Cons.prems Cons.IH [of q out] Cons.IH [of "q @ [enc m]" out]
      by (auto split: if_splits)
  next
    case Written
    then show ?thesis using Cons.prems Cons.IH by (cases q) fastforce+
  qed
qed simp

lemma pump_spec_bound:
  assumes "foldl (pump_spec que_full enc) (q, out) es = (q', out')" "length q \<le> Suc MAX_SENDQUE"
  shows "length q' \<le> Suc MAX_SENDQUE"
  using assms
proof (induction es arbitrary: q out)
  case (Cons e es)
  have "length (fst (pump_spec que_full enc (q, out) e)) \<le> Suc MAX_SENDQUE"
    using Cons.prems by (cases e) (auto simp: que_full_def split: list.splits)
  then show ?case using Cons by (metis foldl_Cons prod.collapse)
qed simp

lemma accepted_room: "k + length (posts_in es) \<le> Suc MAX_SENDQUE \<Longrightarrow> accepted que_full k es = posts_in es"
proof (induction es arbitrary: k)
  case (Cons e es)
  then show ?case by (cases e) (auto simp: que_full_def)
qed simp

lemma accepted_all: "(\<And>k. \<not> full k) \<Longrightarrow> accepted full k es = concat (map (\<lambda>e. case e of Post m \<Rightarrow> [m] | Written \<Rightarrow> []) es)"
  by (induction full k es rule: accepted.induct) auto

context write_pump
begin

text \<open>
  From an idle session: the bytes on the wire followed by the bytes still queued are the
  encodings of the accepted messages, in the order of the calls of \<open>Send\<close>.
\<close>

lemma pump_fifo:
  assumes "\<And>m. Post m \<in> set es \<Longrightarrow> fits m"
  shows "\<exists>st out. cxx_fold (pump_step send) (empty_send, []) es = Ok (st, out) \<and> pump_inv st \<and>
     out @ concat (map wire_bytes (send_que st)) = concat (map enc (accepted full 0 es))"
proof -
  obtain st out where "cxx_fold (pump_step send) (empty_send, []) es = Ok (st, out)" "pump_inv st"
    "pump_abs (st, out) = foldl (pump_spec full enc) (pump_abs (empty_send, [])) es"
    using pump_refines [OF pump_inv_empty assms] by fastforce
  moreover have "pump_abs (empty_send, []) = ([], [])" by (simp add: pump_abs_def empty_send_def)
  ultimately show ?thesis
    using pump_spec_fifo [of full enc "[]" "[]" es "map wire_bytes (send_que st)" out]
    by (auto simp: pump_abs_def)
qed

end

end
