(* ===== verification/EchoSession.thy ===== *)
theory EchoSession
  imports SessionLoop SendQueue
begin

text \<open>
  A session that answers on its own connection: the receive loop of \<^theory_text>\<open>SessionLoop\<close> whose
  hand-over is a call of \<open>Send\<close>, run against the write pump of \<^theory_text>\<open>SendQueue\<close>.  Reads and
  write completions arrive in any order; the locale \<open>echo_session\<close> shows that no byte is lost,
  doubled or reordered between them.
\<close>

datatype sess_event = ReadChunk "byte list" | WriteDone

fun chunks :: "sess_event list \<Rightarrow> byte list list" where
  "chunks [] = []"
| "chunks (ReadChunk c # es) = c # chunks es"
| "chunks (WriteDone # es) = chunks es"

fun session_step ::
  "send_state proto \<Rightarrow> send_state rsession \<times> byte list \<Rightarrow> sess_event \<Rightarrow> (send_state rsession \<times> byte list) option"
where
  "session_step P (s, out) (ReadChunk c) = map_option (\<lambda>s'. (s', out)) (feed P s c)"
| "session_step P (s, out) WriteDone =
     (case pump_step (deliver_msg P) (world s, out) Written of
        Ok (w, out') \<Rightarrow> Some (s\<lparr>world := w\<rparr>, out') | _ \<Rightarrow> None)"

text \<open>Bytes on the wire, then bytes queued for it.\<close>

definition answered :: "send_state rsession \<times> byte list \<Rightarrow> byte list" where
  "answered c = snd c @ concat (map wire_bytes (send_que (world (fst c))))"

section \<open>Encoded streams\<close>

lemma parse_stream_encoded:
  assumes "\<And>m rest. m \<in> set ms \<Longrightarrow> next_frame P (enc m @ rest) = Frame (fst m) (snd m) rest"
  shows "parse_stream P (concat (map enc ms) @ p) = (ms @ fst (parse_stream P p), snd (parse_stream P p))"
  using assms
proof (induction ms)
  case (Cons m ms)
  then have "parse_stream P (enc m @ (concat (map enc ms) @ p)) =
      ((fst m, snd m) # fst (parse_stream P (concat (map enc ms) @ p)), snd (parse_stream P (concat (map enc ms) @ p)))"
    by (intro parse_stream_Frame) auto
  with Cons show ?case by simp
qed simp

lemma parse_stream_recode:
  assumes "\<And>bs mid body rest. next_frame P bs = Frame mid body rest \<Longrightarrow> bs = enc (mid, body) @ rest"
    and "parse_stream P bs = (ms, Pending p)"
  shows "concat (map enc ms) @ p = bs"
  using assms(2)
proof (induction "length bs" arbitrary: bs ms rule: less_induct)
  case less
  show ?case
  proof (cases "next_frame P bs")
    case (Frame mid body rest)
    then obtain ms' where ms': "ms = (mid, body) # ms'" "parse_stream P rest = (ms', Pending p)"
      using less.prems by (simp add: parse_stream_Frame) (metis prod.collapse)
    have "concat (map enc ms') @ p = rest" using less.hyps [OF next_frame_shorter [OF Frame] ms'(2)] .
    then show ?thesis using assms(1) [OF Frame] ms'(1) by simp
  qed (use less.prems in \<open>simp_all add: parse_stream_cases\<close>)
qed

lemma parse_stream_frames:
  "parse_stream P bs = (ms, e) \<Longrightarrow> (mid, body) \<in> set ms \<Longrightarrow> \<exists>bs' rest. next_frame P bs' = Frame mid body rest"
proof (induction "length bs" arbitrary: bs ms rule: less_induct)
  case less
  show ?case
  proof (cases "next_frame P bs")
    case (Frame mid1 body1 rest)
    then obtain ms' where ms': "ms = (mid1, body1) # ms'" "parse_stream P rest = (ms', e)"
      using less.prems by (simp add: parse_stream_Frame) (metis prod.collapse)
    then show ?thesis
      using less.prems(2) less.hyps [OF next_frame_shorter [OF Frame] ms'(2)] Frame by auto
  qed (use less.prems in \<open>simp_all add: parse_stream_cases\<close>)
qed

section \<open>Reads and writes interleaved\<close>

locale echo_session = frame_protocol P + pump: write_pump "deliver_msg P" full enc fits
  for P :: "send_state proto" and full enc fits +
  assumes frame_fits: "next_frame P bs = Frame mid body rest \<Longrightarrow> fits (mid, body)"
begin

lemma deliver_all:
  assumes "pump_inv st" "\<And>m. m \<in> set ms \<Longrightarrow> fits m"
    and "\<And>k. k < length (send_que st) + length ms \<Longrightarrow> \<not> full k"
  shows "\<exists>st'. cxx_fold (deliver_msg P) st ms = Ok st' \<and> pump_inv st' \<and>
     map wire_bytes (send_que st') = map wire_bytes (send_que st) @ map enc ms"
  using assms
proof (induction ms arbitrary: st)
  case (Cons m ms)
  have m: "fits m" "\<not> full (length (send_que st))"
    by (rule Cons.prems(2), simp) (rule Cons.prems(3), simp)
  obtain n where n: "wire_ok n" "wire_bytes n = enc m" "deliver_msg P st m = Ok (enqueue n st)"
    using pump.send_law [OF m(1)] m(2) by auto
  have room: "\<not> full k" if "k < length (send_que (enqueue n st)) + length ms" for k
    using that by (intro Cons.prems(3)) (simp add: enqueue_def)
  have fm: "fits m'" if "m' \<in> set ms" for m' using that by (intro Cons.prems(2)) simp
  obtain st' where "cxx_fold (deliver_msg P) (enqueue n st) ms = Ok st'" "pump_inv st'"
    "map wire_bytes (send_que st') = map wire_bytes (send_que (enqueue n st)) @ map enc ms"
    using Cons.IH [OF pump_inv_enqueue [OF Cons.prems(1) n(1)] fm room] by blast
  then show ?case using n by (auto simp: cxx_simps enqueue_def)
qed simp

lemma write_done:
  assumes "pump_inv (world s)" "sess_wf P s"
  shows "\<exists>s' out'. session_step P (s, out) WriteDone = Some (s', out') \<and> sess_wf P s' \<and> pump_inv (world s') \<and>
     pending P s' = pending P s \<and> answered (s', out') = answered (s, out) \<and>
     length (send_que (world s')) \<le> length (send_que (world s))"
proof -
  have keep: "sess_wf P (s\<lparr>world := w\<rparr>)" "pending P (s\<lparr>world := w\<rparr>) = pending P s" for w
    using assms(2) by (auto simp: sess_wf_def pending_def split: option.splits)
  show ?thesis
  proof (cases "send_que (world s)")
    case Nil
    then show ?thesis using assms keep by (simp add: pump_inv_def answered_def)
  next
    case (Cons n q)
    obtain w where w: "pop_and_write ((world s)\<lparr>in_flight := []\<rparr>) = Ok w" "pump_inv w" "send_que w = q"
      using pop_and_write_Ok [OF assms(1) Cons] by blast
    have "in_flight (world s) = [wire_bytes n]" using assms(1) Cons by (simp add: pump_inv_def)
    then show ?thesis using w keep Cons by (simp add: cxx_simps answered_def)
  qed
qed

text \<open>As many completions of writes as there are nodes in the queue, and every answer is on the wire.\<close>

lemma session_drains:
  assumes "pump_inv (world s)"
  shows "\<exists>s' out'. feeds (session_step P) (s, out) (replicate (length (send_que (world s))) WriteDone) = Some (s', out') \<and>
     send_que (world s') = [] \<and> out' = answered (s, out)"
  using assms
proof (induction "send_que (world s)" arbitrary: s out)
  case Nil
  then show ?case by (simp add: answered_def)
next
  case (Cons n q)
  obtain w where w: "pop_and_write ((world s)\<lparr>in_flight := []\<rparr>) = Ok w" "pump_inv w" "send_que w = q"
    using pop_and_write_Ok [OF Cons.prems Cons.hyps(2) [symmetric]] by blast
  have f: "in_flight (world s) = [wire_bytes n]" using Cons.prems Cons.hyps(2) [symmetric] by (simp add: pump_inv_def)
  let ?s = "s\<lparr>world := w\<rparr>"
  obtain s' out' where "feeds (session_step P) (?s, out @ wire_bytes n) (replicate (length (send_que (world ?s))) WriteDone) = Some (s', out')"
      "send_que (world s') = []" "out' = answered (?s, out @ wire_bytes n)"
    using Cons.hyps(1) [of ?s "out @ wire_bytes n"] w by auto
  then show ?case using w f Cons.hyps(2) [symmetric] by (simp add: cxx_simps answered_def)
qed

text \<open>
  Whatever the interleaving, the bytes answered are the encodings of the messages of the
  stream received so far, and the session keeps the rest of the stream as pending.
\<close>

lemma session_conserves:
  assumes "sess_wf P s" "pump_inv (world s)" "\<And>c. c \<in> set (chunks es) \<Longrightarrow> chunk_ok c"
    and "parse_stream P (pending P s @ concat (chunks es)) = (ms, Pending p)"
    and "\<And>k. k < length (send_que (world s)) + length ms \<Longrightarrow> \<not> full k"
  shows "\<exists>s' out'. feeds (session_step P) (s, out) es = Some (s', out') \<and> sess_wf P s' \<and>
     pump_inv (world s') \<and> pending P s' = p \<and> answered (s', out') = answered (s, out) @ concat (map enc ms)"
  using assms
proof (induction es arbitrary: s out ms)
  case Nil
  then show ?case using wf_pending [of s] by (auto simp: parse_stream_cases)
next
  case (Cons e es)
  show ?case
  proof (cases e)
    case (ReadChunk c)
    with Cons.prems(4) have "parse_stream P ((pending P s @ c) @ concat (chunks es)) = (ms, Pending p)" by simp
    then obtain ms1 p1 ms2 where m1: "parse_stream P (pending P s @ c) = (ms1, Pending p1)"
      and m2: "parse_stream P (p1 @ concat (chunks es)) = (ms2, Pending p)" and ms: "ms = ms1 @ ms2"
      using parse_stream_prefix by blast
    have fits1: "m \<in> set ms1 \<Longrightarrow> fits m" for m
      using parse_stream_frames [OF m1] frame_fits by (metis prod.collapse)
    have room1: "\<not> full k" if "k < length (send_que (world s)) + length ms1" for k
      using that ms by (intro Cons.prems(5)) simp
    obtain st where st: "cxx_fold (deliver_msg P) (world s) ms1 = Ok st" "pump_inv st"
      "map wire_bytes (send_que st) = map wire_bytes (send_que (world s)) @ map enc ms1"
      using deliver_all [OF Cons.prems(2) fits1 room1] by blast
    obtain s1 where s1: "feed P s c = Some s1" "sess_wf P s1" "pending P s1 = p1" "world s1 = st"
      using reader.feed_law [OF Cons.prems(1) _ m1 st(1)] Cons.prems(3) ReadChunk by auto
    have len: "length (send_que st) = length (send_que (world s)) + length ms1"
      using arg_cong [OF st(3), of length] by simp
    obtain s' out' where "feeds (session_step P) (s1, out) es = Some (s', out')" "sess_wf P s'"
      "pump_inv (world s')" "pending P s' = p" "answered (s', out') = answered (s1, out) @ concat (map enc ms2)"
      using Cons.IH [of s1 ms2 out] s1 st(2) m2 Cons.prems(3,5) ReadChunk ms len by auto
    then show ?thesis using ReadChunk s1 st(3) ms by (auto simp: answered_def)
  next
    case WriteDone
    obtain s1 out1 where s1: "session_step P (s, out) WriteDone = Some (s1, out1)" "sess_wf P s1"
      "pump_inv (world s1)" "pending P s1 = pending P s" "answered (s1, out1) = answered (s, out)"
      "length (send_que (world s1)) \<le> length (send_que (world s))"
      using write_done [OF Cons.prems(2,1)] by blast
    obtain s' out' where "feeds (session_step P) (s1, out1) es = Some (s', out')" "sess_wf P s'"
      "pump_inv (world s')" "pending P s' = p" "answered (s', out') = answered (s1, out1) @ concat (map enc ms)"
      using Cons.IH [of s1 ms out1] s1 Cons.prems WriteDone by auto
    then show ?thesis using WriteDone s1 by (auto simp del: session_step.simps)
  qed
qed

lemma connection_conserves:
  assumes "\<And>c. c \<in> set (chunks es) \<Longrightarrow> chunk_ok c" "parse_stream P (concat (chunks es)) = (ms, Pending p)"
    and "\<And>k. k < length ms \<Longrightarrow> \<not> full k"
  shows "\<exists>s0 s out. start_session P empty_send = Ok s0 \<and> feeds (session_step P) (s0, []) es = Some (s, out) \<and>
     pump_inv (world s) \<and> pending P s = p \<and> answered (s, out) = concat (map enc ms)"
proof -
  obtain s0 where s0: "start_session P empty_send = Ok s0" "sess_wf P s0" "pending P s0 = []" "world s0 = empty_send"
    using start_session_Ok by blast
  then show ?thesis
    using session_conserves [of s0 es ms p "[]"] assms pump_inv_empty
    by (simp add: answered_def) (auto simp: empty_send_def)
qed

text \<open>And the answers reach the wire: the completions of the writes empty the queue.\<close>

lemma connection_answers:
  assumes "\<And>c. c \<in> set (chunks es) \<Longrightarrow> chunk_ok c" "parse_stream P (concat (chunks es)) = (ms, Pending p)"
    and "\<And>k. k < length ms \<Longrightarrow> \<not> full k"
  shows "\<exists>s0 s out s' out'. start_session P empty_send = Ok s0 \<and> feeds (session_step P) (s0, []) es = Some (s, out) \<and>
     pending P s = p \<and> answered (s, out) = concat (map enc ms) \<and>
     feeds (session_step P) (s, out) (replicate (length (send_que (world s))) WriteDone) = Some (s', out') \<and>
     send_que (world s') = [] \<and> out' = concat (map enc ms)"
proof -
  obtain s0 s out where s: "start_session P empty_send = Ok s0" "feeds (session_step P) (s0, []) es = Some (s, out)"
     "pump_inv (world s)" "pending P s = p" "answered (s, out) = concat (map enc ms)"
    using connection_conserves [OF assms] by blast
  then show ?thesis using session_drains [OF s(3), of out] by auto
qed

end

end
