(* ===== verification/CServer.thy ===== *)
theory CServer
  imports SessionLoop
begin

text \<open>
  \<open>CServer\<close>: the listening object of each server.  It owns the map \<open>_sessions\<close> from uuid to
  session, keeps one \<open>async_accept\<close> outstanding, and is called back by the sessions
  (\<open>ClearSession\<close>).  Sessions live as long as a completion handler holds them, so the state
  has the live objects beside the keys of the map, and the sessions whose next read is armed.
\<close>

record 'w server =
  objects :: "string \<Rightarrow> 'w rsession option"
  registered :: "string set"
  reading :: "string set"
  accepting :: "string option"
  dead :: bool

text \<open>\<open>dead\<close>: an exception has left \<open>io_context::run\<close>, or the behaviour is undefined.\<close>

section \<open>Operations\<close>

definition StartAccept :: "string \<Rightarrow> 'w server \<Rightarrow> 'w server" where
  "StartAccept uuid srv = srv\<lparr>accepting := Some uuid\<rparr>"

definition ClearSession :: "string \<Rightarrow> 'w server \<Rightarrow> 'w server" where
  "ClearSession uuid srv = srv\<lparr>registered := registered srv - {uuid}\<rparr>"

definition new_server :: "string \<Rightarrow> 'w server" where
  "new_server uuid = StartAccept uuid
     \<lparr>objects = \<lambda>_. None, registered = {}, reading = {}, accepting = None, dead = False\<rparr>"

text \<open>
  \<open>HandleAccept\<close> starts and registers the accepted session unless the accept failed, and in
  both cases accepts again; \<open>next\<close> is the uuid the next session object draws.
\<close>

definition HandleAccept :: "'w proto \<Rightarrow> 'w \<Rightarrow> bool \<Rightarrow> string \<Rightarrow> 'w server \<Rightarrow> 'w server" where
  "HandleAccept P w0 error next srv =
     (case accepting srv of
        None \<Rightarrow> srv
      | Some uuid \<Rightarrow>
          StartAccept next
            (if \<not> error
             then (case start_session P w0 of
                     Ok s \<Rightarrow> srv\<lparr>objects := (objects srv)(uuid \<mapsto> s),
                               reading := insert uuid (reading srv),
                               registered := insert uuid (registered srv)\<rparr>
                   | _ \<Rightarrow> srv\<lparr>dead := True\<rparr>)
             else srv))"

text \<open>The completion of a read of session \<open>uuid\<close>: \<open>HandleRead\<close> and what it does to the server.\<close>

definition server_read :: "'w proto \<Rightarrow> string \<Rightarrow> bool \<Rightarrow> byte list \<Rightarrow> 'w server \<Rightarrow> 'w server" where
  "server_read P uuid error c srv =
     (case objects srv uuid of
        None \<Rightarrow> srv
      | Some s \<Rightarrow>
          if uuid \<notin> reading srv then srv
          else
            (let srv0 = srv\<lparr>reading := reading srv - {uuid}\<rparr>;
                 put = (\<lambda>s'. srv0\<lparr>objects := (objects srv)(uuid \<mapsto> s')\<rparr>) in
             case handle_read P error (length c) (deliver c s) of
               Some (Rearmed s') \<Rightarrow> (put s')\<lparr>reading := reading srv\<rparr>
             | Some (Cleared s') \<Rightarrow> ClearSession uuid (put s')
             | Some (Closed s') \<Rightarrow> ClearSession uuid (put s')
             | Some (Idle s') \<Rightarrow> put s'
             | Some (Swallowed s') \<Rightarrow> put s'
             | _ \<Rightarrow> srv0\<lparr>dead := True\<rparr>))"

datatype server_event =
    Accepted bool string
  | ReadDone string bool "byte list"

fun server_step :: "'w proto \<Rightarrow> 'w \<Rightarrow> 'w server \<Rightarrow> server_event \<Rightarrow> 'w server" where
  "server_step P w0 srv (Accepted error next) =
     (if dead srv then srv else HandleAccept P w0 error next srv)"
| "server_step P w0 srv (ReadDone uuid error c) =
     (if dead srv then srv else server_read P uuid error c srv)"

text \<open>
  In the servers with a \<open>LogicSystem\<close> all sessions post to one queue: the \<open>world\<close> of a session is
  the shared state when its handler starts, and is handed on when the handler ends.  \<open>Q\<close> gives
  the session of each uuid.
\<close>

definition shared_step ::
  "(string \<Rightarrow> 'w proto) \<Rightarrow> 'w server \<times> 'w \<Rightarrow> server_event \<Rightarrow> 'w server \<times> 'w" where
  "shared_step Q sg e =
     (let srv = fst sg; g = snd sg in
      case e of
        Accepted error nxt \<Rightarrow>
          (case accepting srv of
             None \<Rightarrow> (srv, g)
           | Some uuid \<Rightarrow> (server_step (Q uuid) g srv e, g))
      | ReadDone uuid error c \<Rightarrow>
          (case objects srv uuid of
             None \<Rightarrow> (srv, g)
           | Some s \<Rightarrow>
               (let srv' = server_step (Q uuid) g (srv\<lparr>objects := (objects srv)(uuid \<mapsto> s\<lparr>world := g\<rparr>)\<rparr>) e in
                (srv', case objects srv' uuid of None \<Rightarrow> g | Some s' \<Rightarrow> world s'))))"

section \<open>Sessions do not disturb each other\<close>

lemma server_read_local:
  "v \<noteq> uuid \<Longrightarrow> objects (server_read P uuid error c srv) v = objects srv v"
  "v \<noteq> uuid \<Longrightarrow> v \<in> registered (server_read P uuid error c srv) \<longleftrightarrow> v \<in> registered srv"
  "v \<noteq> uuid \<Longrightarrow> v \<in> reading (server_read P uuid error c srv) \<longleftrightarrow> v \<in> reading srv"
  "accepting (server_read P uuid error c srv) = accepting srv"
  by (auto simp: server_read_def ClearSession_def Let_def split: option.splits read_end.splits)

text \<open>
  The events of one session are handled as if it were alone: the chunks it receives between
  accept and the first failure drive its state, whatever the others do.
\<close>

fun chunks_of :: "string \<Rightarrow> server_event list \<Rightarrow> byte list list" where
  "chunks_of u [] = []"
| "chunks_of u (ReadDone v error c # es) = (if v = u \<and> \<not> error then c # chunks_of u es else chunks_of u es)"
| "chunks_of u (Accepted error next # es) = chunks_of u es"

definition spares :: "string \<Rightarrow> server_event \<Rightarrow> bool" where
  "spares u e = (case e of ReadDone v error c \<Rightarrow> v = u \<longrightarrow> \<not> error | Accepted _ v \<Rightarrow> v \<noteq> u)"

lemma dead_stays: "dead srv \<Longrightarrow> foldl (server_step P w0) srv es = srv"
proof (induction es)
  case (Cons e es)
  then show ?case by (cases e) simp_all
qed simp

lemma server_step_self:
  assumes "objects srv u = Some s" "u \<in> reading srv" "feed P s c = Some s'" "\<not> dead srv"
  shows "objects (server_step P w0 srv (ReadDone u False c)) u = Some s'"
    "u \<in> reading (server_step P w0 srv (ReadDone u False c))"
    "accepting (server_step P w0 srv (ReadDone u False c)) = accepting srv"
  using assms
  by (auto simp: server_read_def feed_def Let_def split: option.splits read_end.splits)

lemma server_step_other:
  assumes "objects srv u = Some s" "u \<in> reading srv" "accepting srv \<noteq> Some u" "\<not> dead srv"
    and "spares u e" "\<And>c. e \<noteq> ReadDone u False c"
  shows "objects (server_step P w0 srv e) u = Some s" "u \<in> reading (server_step P w0 srv e)"
    "accepting (server_step P w0 srv e) \<noteq> Some u"
proof -
  have "objects (server_step P w0 srv e) u = Some s \<and> u \<in> reading (server_step P w0 srv e) \<and>
      accepting (server_step P w0 srv e) \<noteq> Some u"
  proof (cases e)
  case (Accepted error nxt)
  then show "objects (server_step P w0 srv e) u = Some s \<and> u \<in> reading (server_step P w0 srv e) \<and>
      accepting (server_step P w0 srv e) \<noteq> Some u"
    using assms by (auto simp: HandleAccept_def StartAccept_def spares_def split: option.splits cxx.splits)
next
  case (ReadDone v error c)
  with assms(5,6) have "v \<noteq> u" by (auto simp: spares_def)
  then show "objects (server_step P w0 srv e) u = Some s \<and> u \<in> reading (server_step P w0 srv e) \<and>
      accepting (server_step P w0 srv e) \<noteq> Some u"
    using assms ReadDone by (simp add: server_read_local)
  qed
  then show "objects (server_step P w0 srv e) u = Some s" "u \<in> reading (server_step P w0 srv e)"
    "accepting (server_step P w0 srv e) \<noteq> Some u" by simp_all
qed

lemma server_session_alone:
  assumes "objects srv u = Some s" "u \<in> reading srv" "accepting srv \<noteq> Some u"
    and "\<And>e. e \<in> set es \<Longrightarrow> spares u e" "\<not> dead (foldl (server_step P w0) srv es)"
    and "feeds (feed P) s (chunks_of u es) = Some s'"
  shows "objects (foldl (server_step P w0) srv es) u = Some s' \<and> u \<in> reading (foldl (server_step P w0) srv es)"
  using assms
proof (induction es arbitrary: srv s)
  case (Cons e es)
  have alive: "\<not> dead srv" using Cons.prems(5) dead_stays [of srv P w0 "e # es"] by metis
  show ?case
  proof (cases "\<exists>c. e = ReadDone u False c")
    case True
    then obtain c where e: "e = ReadDone u False c" by blast
    with Cons.prems(6) obtain s1 where s1: "feed P s c = Some s1" "feeds (feed P) s1 (chunks_of u es) = Some s'"
      by (auto split: option.splits)
    show ?thesis
      using Cons.IH [of "server_step P w0 srv e" s1] server_step_self [OF Cons.prems(1,2) s1(1) alive, of w0]
        Cons.prems s1(2) e by simp
  next
    case False
    then have ch: "chunks_of u (e # es) = chunks_of u es"
      using Cons.prems(4) [of e] by (cases e) (auto simp: spares_def)
    have sp: "spares u e" using Cons.prems(4) by simp
    have ne: "\<And>c. e \<noteq> ReadDone u False c" using False by blast
    note o = server_step_other [OF Cons.prems(1-3) alive sp ne, of P w0]
    show ?thesis
      using Cons.IH [OF o] Cons.prems(4-6) ch by simp
  qed
qed simp

section \<open>The invariant of the session map\<close>

definition server_inv :: "'w proto \<Rightarrow> 'w server \<Rightarrow> bool" where
  "server_inv P srv \<longleftrightarrow> registered srv \<subseteq> reading srv \<and> reading srv \<subseteq> {u. objects srv u \<noteq> None} \<and>
     (\<forall>u \<in> reading srv. case objects srv u of None \<Rightarrow> False | Some s \<Rightarrow> sess_wf P s)"

text \<open>The reads of a run in which no announced length is negative and no hand-over fails.\<close>

definition tame_read :: "'w proto \<Rightarrow> 'w server \<Rightarrow> string \<Rightarrow> bool \<Rightarrow> byte list \<Rightarrow> bool" where
  "tame_read P srv uuid error c \<longleftrightarrow> error \<or> chunk_ok c \<and>
     (case objects srv uuid of None \<Rightarrow> True
      | Some s \<Rightarrow> snd (parse_stream P (pending P s @ c)) \<noteq> Malformed \<and>
          (\<exists>w. cxx_fold (deliver_msg P) (world s) (fst (parse_stream P (pending P s @ c))) = Ok w))"

text \<open>The read completes a header with a negative length.\<close>

definition negative_read :: "'w proto \<Rightarrow> 'w server \<Rightarrow> server_event \<Rightarrow> bool" where
  "negative_read P srv e \<longleftrightarrow>
     (case e of Accepted error nxt \<Rightarrow> False
      | ReadDone uuid error c \<Rightarrow> \<not> error \<and> uuid \<in> reading srv \<and>
          (case objects srv uuid of None \<Rightarrow> False | Some s \<Rightarrow> snd (parse_stream P (pending P s @ c)) = Malformed))"

context frame_protocol
begin

lemma server_read_inv:
  assumes "server_inv P srv" "tame_read P srv uuid error c" "\<not> dead srv"
  shows "server_inv P (server_read P uuid error c srv) \<and> \<not> dead (server_read P uuid error c srv)"
proof (cases "objects srv uuid = None \<or> uuid \<notin> reading srv")
  case True
  then show ?thesis using assms by (auto simp: server_read_def split: option.splits)
next
  case False
  then obtain s where s: "objects srv uuid = Some s" "uuid \<in> reading srv" by auto
  with assms(1) have wf: "sess_wf P s" by (auto simp: server_inv_def split: option.splits)
  show ?thesis
  proof (cases error)
    case True
    then show ?thesis using s assms
      by (auto simp: server_read_def Let_def ClearSession_def handle_read_def server_inv_def split: option.splits)
  next
    case noerr: False
    obtain ms e w where pr: "parse_stream P (pending P s @ c) = (ms, e)" "e \<noteq> Malformed" "chunk_ok c"
      "cxx_fold (deliver_msg P) (world s) ms = Ok w"
      using assms(2) s noerr by (cases "parse_stream P (pending P s @ c)") (auto simp: tame_read_def)
    obtain s' where "case e of Pending p \<Rightarrow> handle_read P False (length c) (deliver c s) = Some (Rearmed s') \<and>
          sess_wf P s' \<and> pending P s' = p
        | _ \<Rightarrow> handle_read P False (length c) (deliver c s) = Some (Cleared s')"
      using handle_read_spec [OF wf pr(3,1,2,4)] by blast
    then show ?thesis using s assms(1,3) noerr pr(2)
      by (cases e) (auto simp: server_read_def Let_def ClearSession_def server_inv_def split: option.splits)
  qed
qed

lemma sess_wf_world: "sess_wf P (s\<lparr>world := g\<rparr>) = sess_wf P s" "pending P (s\<lparr>world := g\<rparr>) = pending P s"
  by (auto simp: sess_wf_def pending_def split: option.splits)

lemma shared_read_Ok:
  assumes "objects srv uuid = Some s" "uuid \<in> reading srv" "\<not> dead srv" "sess_wf P s" "chunk_ok c"
    and "parse_stream P (pending P s @ c) = (ms, e)" "e \<noteq> Malformed" "cxx_fold (deliver_msg P) g ms = Ok g'"
    and "Q uuid = P" "shared_step Q (srv, g) (ReadDone uuid False c) = (srv', h)"
  shows "h = g' \<and> (\<forall>v. v \<noteq> uuid \<longrightarrow> objects srv' v = objects srv v) \<and> \<not> dead srv' \<and>
     (case e of
        Pending p \<Rightarrow> (\<exists>s'. objects srv' uuid = Some s' \<and> sess_wf P s' \<and> pending P s' = p) \<and> uuid \<in> reading srv' \<and>
          registered srv' = registered srv
      | _ \<Rightarrow> uuid \<notin> reading srv' \<and> registered srv' = registered srv - {uuid})"
proof -
  let ?s = "s\<lparr>world := g\<rparr>"
  have wf: "sess_wf P ?s" "parse_stream P (pending P ?s @ c) = (ms, e)" "cxx_fold (deliver_msg P) (world ?s) ms = Ok g'"
    using assms by (simp_all add: sess_wf_world)
  obtain s' where "world s' = g'" "case e of Pending p \<Rightarrow>
        handle_read P False (length c) (deliver c ?s) = Some (Rearmed s') \<and> sess_wf P s' \<and> pending P s' = p
      | _ \<Rightarrow> handle_read P False (length c) (deliver c ?s) = Some (Cleared s')"
    using handle_read_spec [OF wf(1) assms(5) wf(2) assms(7) wf(3)] by blast
  then show ?thesis
    using assms(1-3,7,9,10)
    by (cases e) (auto simp: shared_step_def Let_def server_read_def ClearSession_def)
qed

lemma handle_accept_inv:
  assumes "server_inv P srv" "\<not> dead srv"
  shows "server_inv P (HandleAccept P w0 error next srv) \<and> \<not> dead (HandleAccept P w0 error next srv) \<and>
    (accepting srv \<noteq> None \<longrightarrow> accepting (HandleAccept P w0 error next srv) = Some next)"
proof -
  obtain s0 where "start_session P w0 = Ok s0" "sess_wf P s0" using start_session_Ok by blast
  then show ?thesis using assms
    by (auto simp: HandleAccept_def StartAccept_def server_inv_def split: option.splits)
qed

lemma server_step_inv:
  assumes "server_inv P srv" "\<not> dead srv" "\<not> negative_read P srv e"
    and "\<And>u c. e = ReadDone u False c \<Longrightarrow> chunk_ok c"
    and del: "\<And>w bs. \<exists>w'. cxx_fold (deliver_msg P) w (fst (parse_stream P bs)) = Ok w'"
  shows "server_inv P (server_step P w0 srv e) \<and> \<not> dead (server_step P w0 srv e)"
proof (cases e)
  case (Accepted error nxt)
  then show ?thesis using assms(1,2) handle_accept_inv by simp
next
  case (ReadDone u error c)
  show ?thesis
  proof (cases "objects srv u = None \<or> u \<notin> reading srv")
    case True
    then show ?thesis using assms(1,2) ReadDone by (auto simp: server_read_def split: option.splits)
  next
    case False
    then have "tame_read P srv u error c"
      using assms(3,4) del ReadDone by (auto simp: tame_read_def negative_read_def split: option.splits)
    then show ?thesis using server_read_inv assms(1,2) ReadDone by simp
  qed
qed

end

lemma new_server_inv: "server_inv P (new_server uuid) \<and> \<not> dead (new_server uuid)"
  by (simp add: new_server_def StartAccept_def server_inv_def)

end
