(* ===== verification/EchoServers.thy ===== *)
theory EchoServers
  imports EchoSession CServer
begin

text \<open>
  The echo servers: \<open>AsyncServer03/asyncserver01\<close> (\<open>as03\<close>), its copy with a delay
  \<open>AsyncServer03/adhereasyncserver01\<close> (\<open>adh\<close>) and \<open>AsyncServer04/Async_async_server04\<close>
  (\<open>as04\<close>).  A message is a two-byte length and a body, and comes back as it was; \<open>as03\<close> and
  \<open>adh\<close> read and write the length in host order with an unbounded send queue, \<open>as04\<close> in
  network order with a queue that drops messages.
\<close>

section \<open>The two-byte header\<close>

text \<open>Length field in the order \<open>conv\<close>, refused when it exceeds \<open>MAX_LENGTH\<close>.\<close>

definition length_head :: "(short \<Rightarrow> short) \<Rightarrow> byte list \<Rightarrow> (short \<times> short) option" where
  "length_head conv bs =
     (let data_len = conv (le_short bs) in
      if short_val data_len > int MAX_LENGTH then None else Some (0, data_len))"

definition prefix_enc :: "(short \<Rightarrow> short) \<Rightarrow> short \<times> byte list \<Rightarrow> byte list" where
  "prefix_enc order m = le_bytes (order (word_of_nat (length (snd m)))) @ snd m"

definition small_msg :: "short \<times> byte list \<Rightarrow> bool" where
  "small_msg m \<longleftrightarrow> fst m = 0 \<and> length (snd m) \<le> MAX_LENGTH"

lemma le_short_take [simp]: "le_short (take 2 bs) = le_short bs"
  by (simp add: le_short_def)

lemma plain_MsgNode_fresh:
  "0 \<le> short_val l \<Longrightarrow> plain_MsgNode l = Ok (fresh_node 0 (nat (short_val l)))"
  by (simp add: plain_MsgNode_def new_char_array_def cxx_simps fresh_node_def nat_add_distrib)

lemma length_head_protocol:
  assumes "head_len P = 2" "parse_head P = length_head conv" "new_node P = (\<lambda>l _. plain_MsgNode l)"
  shows "frame_protocol P"
proof
  show "new_node P (word_of_nat (head_len P)) 0 = Ok (fresh_node 0 (head_len P))"
    using assms plain_MsgNode_fresh [of "word_of_nat 2"] by (simp del: of_nat_numeral)
qed (use assms in \<open>auto simp: length_head_def Let_def plain_MsgNode_fresh split: if_splits\<close>)

lemma le_bytes_short: "2 \<le> length bs \<Longrightarrow> le_bytes (le_short bs) = take 2 bs"
proof -
  assume "2 \<le> length bs"
  then obtain a b r where "bs = a # b # r" by (metis Suc_le_length_iff numeral_2_eq_2)
  moreover have "le_bytes (le_short [a, b]) = [a, b]"
  proof -
    have "ucast (ucast a OR push_bit 8 (ucast b) :: short) = a"
      by (rule bit_word_eqI) (auto simp: bit_simps)
    moreover have "ucast (drop_bit 8 (ucast a OR push_bit 8 (ucast b) :: short)) = b"
      by (rule bit_word_eqI) (auto simp: bit_simps dest: bit_imp_le_length)
    ultimately show ?thesis by (simp add: le_bytes_def le_short_def)
  qed
  ultimately show ?thesis by (simp add: le_short_def)
qed

lemma prefix_enc_frame:
  assumes "head_len P = 2" "parse_head P = length_head conv" "\<And>w. conv (order w) = w"
    and "small_msg m"
  shows "next_frame P (prefix_enc order m @ rest) = Frame (fst m) (snd m) rest"
  using assms
  by (cases m) (simp add: next_frame_def length_head_def prefix_enc_def small_msg_def Let_def MAX_LENGTH_def)

lemma prefix_recode:
  assumes "head_len P = 2" "parse_head P = length_head conv" "\<And>w. order (conv w) = w"
    and "next_frame P bs = Frame mid body rest"
  shows "bs = prefix_enc order (mid, body) @ rest" "small_msg (mid, body)"
proof -
  let ?l = "conv (le_short bs)"
  have len: "2 \<le> length bs" "0 \<le> short_val ?l" "\<not> length bs < 2 + nat (short_val ?l)" "mid = 0"
    "short_val ?l \<le> int MAX_LENGTH"
    and b: "body = take (nat (short_val ?l)) (drop 2 bs)" "rest = drop (2 + nat (short_val ?l)) bs"
    using assms(1,2,4) by (auto simp: next_frame_def length_head_def Let_def split: if_splits)
  have lb: "length body = nat (short_val ?l)" using b len by simp
  then have "word_of_nat (length body) = ?l" using len by simp
  then have pe: "prefix_enc order (mid, body) = take 2 bs @ body"
    using assms(3) len by (simp add: prefix_enc_def le_bytes_short)
  have dd: "drop (2 + nat (short_val ?l)) bs = drop (nat (short_val ?l)) (drop 2 bs)"
    by (simp add: add.commute)
  show "bs = prefix_enc order (mid, body) @ rest"
    unfolding pe unfolding b dd by (simp only: append_assoc append_take_drop_id)
  show "small_msg (mid, body)" using lb len by (simp add: small_msg_def MAX_LENGTH_def)
qed

lemma prefix_stream_recode:
  assumes "head_len P = 2" "parse_head P = length_head conv" "\<And>w. order (conv w) = w"
    and "parse_stream P bs = (ms, Pending p)"
  shows "concat (map (prefix_enc order) ms) @ p = bs"
  by (rule parse_stream_recode [OF _ assms(4)]) (rule prefix_recode(1) [OF assms(1-3)])

text \<open>The hand-over \<open>Send(_recv_msg_node->_data, _recv_msg_node->_total_len)\<close>.\<close>

lemma echo_send_node:
  assumes "small_msg m"
  shows "\<exists>n. prefix_MsgNode order (node_data (full_node (fst m) (snd m)))
        (word_of_int (short_val (total_len (full_node (fst m) (snd m))))) = Ok n \<and>
      wire_ok n \<and> wire_bytes n = prefix_enc order m"
proof -
  let ?k = "length (snd m)"
  have k: "?k + 2 < 2 ^ 15" "?k \<le> length (snd m @ [0])" using assms by (auto simp: small_msg_def MAX_LENGTH_def)
  have tk: "take ?k (snd m @ [0]) = snd m" by simp
  define t :: short where "t = word_of_nat (?k + 2)"
  have sv: "short_val t = int (?k + 2)" using k unfolding t_def by (intro short_of_nat) simp
  have node: "prefix_MsgNode order (snd m @ [0]) (word_of_nat ?k) =
      Ok \<lparr>cur_len = 0, total_len = t,
          node_data = le_bytes (order (word_of_nat ?k)) @ snd m @ [0], msg_id = 0\<rparr>"
    using prefix_MsgNode_Ok [OF k, of order] unfolding tk t_def .
  show ?thesis
    by (simp add: full_node_def node wire_ok_def wire_bytes_def prefix_enc_def sv)
qed

section \<open>AsyncServer03/asyncserver01\<close>

definition as03_Send :: "byte list \<Rightarrow> int \<Rightarrow> send_state \<Rightarrow> send_state cxx" where
  "as03_Send msg max_length st = send_with (\<lambda>_. False) (as03_MsgNode msg (word_of_int max_length)) st"

definition as03_HandleWrite :: "bool \<Rightarrow> send_state \<Rightarrow> write_end cxx" where
  "as03_HandleWrite error st = handle_write error st"

definition as03_proto :: "send_state proto" where
  "as03_proto = \<lparr>head_len = 2, parse_head = length_head (\<lambda>w. w), new_node = (\<lambda>l _. plain_MsgNode l),
     dispatch = (\<lambda>st n. as03_Send (node_data n) (short_val (total_len n)) st), catches = False\<rparr>"

definition as03_Start :: "send_state rsession cxx" where
  "as03_Start = start_session as03_proto empty_send"

definition as03_HandleRead :: "bool \<Rightarrow> nat \<Rightarrow> send_state rsession \<Rightarrow> send_state read_end option" where
  "as03_HandleRead error bytes_transferred s = handle_read as03_proto error bytes_transferred s"

definition as03_CServer_step :: "send_state server \<Rightarrow> server_event \<Rightarrow> send_state server" where
  "as03_CServer_step srv e = server_step as03_proto empty_send srv e"

section \<open>AsyncServer03/adhereasyncserver01\<close>

text \<open>The same session with a pause of 200 ms at the start of each read.\<close>

definition adh_Send :: "byte list \<Rightarrow> int \<Rightarrow> send_state \<Rightarrow> send_state cxx" where
  "adh_Send msg max_length st = send_with (\<lambda>_. False) (as03_MsgNode msg (word_of_int max_length)) st"

definition adh_HandleWrite :: "bool \<Rightarrow> send_state \<Rightarrow> write_end cxx" where
  "adh_HandleWrite error st = handle_write error st"

definition adh_proto :: "send_state proto" where
  "adh_proto = \<lparr>head_len = 2, parse_head = length_head (\<lambda>w. w), new_node = (\<lambda>l _. plain_MsgNode l),
     dispatch = (\<lambda>st n. adh_Send (node_data n) (short_val (total_len n)) st), catches = False\<rparr>"

definition adh_Start :: "send_state rsession cxx" where
  "adh_Start = start_session adh_proto empty_send"

definition adh_HandleRead :: "bool \<Rightarrow> nat \<Rightarrow> send_state rsession \<Rightarrow> send_state read_end option" where
  "adh_HandleRead error bytes_transferred s = handle_read adh_proto error bytes_transferred s"

definition adh_CServer_step :: "send_state server \<Rightarrow> server_event \<Rightarrow> send_state server" where
  "adh_CServer_step srv e = server_step adh_proto empty_send srv e"

section \<open>AsyncServer04/Async_async_server04\<close>

definition as04_Send :: "byte list \<Rightarrow> int \<Rightarrow> send_state \<Rightarrow> send_state cxx" where
  "as04_Send msg max_length st = send_with que_full (as04_MsgNode msg (word_of_int max_length)) st"

definition as04_HandleWrite :: "bool \<Rightarrow> send_state \<Rightarrow> write_end cxx" where
  "as04_HandleWrite error st = handle_write error st"

definition as04_proto :: "send_state proto" where
  "as04_proto = \<lparr>head_len = 2, parse_head = length_head swap16, new_node = (\<lambda>l _. plain_MsgNode l),
     dispatch = (\<lambda>st n. as04_Send (node_data n) (short_val (total_len n)) st), catches = False\<rparr>"

definition as04_Start :: "send_state rsession cxx" where
  "as04_Start = start_session as04_proto empty_send"

definition as04_HandleRead :: "bool \<Rightarrow> nat \<Rightarrow> send_state rsession \<Rightarrow> send_state read_end option" where
  "as04_HandleRead error bytes_transferred s = handle_read as04_proto error bytes_transferred s"

definition as04_CServer_step :: "send_state server \<Rightarrow> server_event \<Rightarrow> send_state server" where
  "as04_CServer_step srv e = server_step as04_proto empty_send srv e"

section \<open>The contracts hold\<close>

lemma proto_sel [simp]:
  "head_len as03_proto = 2" "parse_head as03_proto = length_head (\<lambda>w. w)"
  "new_node as03_proto = (\<lambda>l _. plain_MsgNode l)" "catches as03_proto = False"
  "head_len adh_proto = 2" "parse_head adh_proto = length_head (\<lambda>w. w)"
  "new_node adh_proto = (\<lambda>l _. plain_MsgNode l)" "catches adh_proto = False"
  "head_len as04_proto = 2" "parse_head as04_proto = length_head swap16"
  "new_node as04_proto = (\<lambda>l _. plain_MsgNode l)" "catches as04_proto = False"
  by (simp_all add: as03_proto_def adh_proto_def as04_proto_def)

lemma echo_locale:
  assumes P: "head_len P = 2" "parse_head P = length_head conv" "new_node P = (\<lambda>l _. plain_MsgNode l)"
    and d: "\<And>st n. dispatch P st n =
      send_with full (prefix_MsgNode order (node_data n) (word_of_int (short_val (total_len n)))) st"
    and o: "\<And>w. order (conv w) = w"
  shows "echo_session P full (prefix_enc order) small_msg"
proof (rule echo_session.intro)
  show "frame_protocol P" using P by (rule length_head_protocol)
  show "write_pump (deliver_msg P) full (prefix_enc order) small_msg"
  proof
    fix m assume "small_msg m"
    then obtain n where "prefix_MsgNode order (node_data (full_node (fst m) (snd m)))
        (word_of_int (short_val (total_len (full_node (fst m) (snd m))))) = Ok n"
      "wire_ok n" "wire_bytes n = prefix_enc order m"
      using echo_send_node by blast
    then show "\<exists>n. wire_ok n \<and> wire_bytes n = prefix_enc order m \<and>
        (\<forall>st. deliver_msg P st m = Ok (if full (length (send_que st)) then st else enqueue n st))"
      by (intro exI [of _ n]) (simp add: deliver_msg_def d send_with_Ok)
  qed
  show "echo_session_axioms P small_msg"
    using prefix_recode(2) [OF P(1,2) o] by unfold_locales
qed

interpretation as03: echo_session as03_proto "\<lambda>_. False" "prefix_enc (\<lambda>w. w)" small_msg
  by (rule echo_locale [where conv = "\<lambda>w. w"]) (simp_all add: as03_proto_def as03_Send_def as03_MsgNode_def)

interpretation adh: echo_session adh_proto "\<lambda>_. False" "prefix_enc (\<lambda>w. w)" small_msg
  by (rule echo_locale [where conv = "\<lambda>w. w"]) (simp_all add: adh_proto_def adh_Send_def as03_MsgNode_def)

interpretation as04: echo_session as04_proto que_full "prefix_enc swap16" small_msg
  by (rule echo_locale [where conv = swap16]) (simp_all add: as04_proto_def as04_Send_def as04_MsgNode_def)

end
