(* ===== verification/Termination.thy ===== *)
theory Termination
  imports SessionLoop
begin

text \<open>
  The loop of \<open>HandleRead\<close> always ends, whatever the bytes are, whatever the header format and
  whether or not handing a message over succeeds: each pass that goes on has consumed at
  least one byte.
\<close>

text \<open>What the passes need of the state and keep.\<close>

definition loop_inv :: "'w proto \<Rightarrow> 'w rsession \<Rightarrow> bool" where
  "loop_inv P s \<longleftrightarrow> head_ok (head_len P) (head_node s) \<and>
     (head_parse s \<longrightarrow> (case recv_node s of None \<Rightarrow> False
        | Some n \<Rightarrow> short_val (cur_len n) < short_val (total_len n)))"

lemma sess_wf_loop_inv: "sess_wf P s \<Longrightarrow> loop_inv P s"
  by (auto simp: sess_wf_def loop_inv_def body_ok_def split: option.splits)

lemma size_consume:
  assumes "\<not> size_less bt i" "- (2 ^ 63) \<le> i" "i < 2 ^ 63" "bt < 2 ^ 63"
  shows "0 \<le> i" "size_sub bt i = bt - nat i" "int (size_sub bt i) = int bt - i"
proof -
  show i: "0 \<le> i" using size_less_neg [of i bt] assms by linarith
  then have "nat i \<le> bt" using assms by (simp add: size_less_nonneg)
  then show "size_sub bt i = bt - nat i" using i assms by (subst size_sub_le) auto
  then show "int (size_sub bt i) = int bt - i" using i \<open>nat i \<le> bt\<close> by simp
qed

lemma complete_msg_Continue:
  assumes "complete_msg P s n copy bt = Ok (Continue s' copy' bt')" "head_ok (head_len P) (head_node s)"
    and "head_len P < 2 ^ 15 - 1"
  shows "bt' = bt \<and> loop_inv P s' \<and> \<not> head_parse s'"
proof -
  obtain h where "Clear (head_node s) = Ok h" "head_ok (head_len P) h"
    using Clear_head [OF assms(2,3)] by blast
  then show ?thesis
    using assms(1) by (auto simp: complete_msg_def cxx_bind_eq_Ok Let_def loop_inv_def split: if_splits)
qed

lemma short_diff_bounds:
  "- (2 ^ 63) \<le> short_val v - short_val w" "short_val v - short_val w < 2 ^ 63"
  using short_range [of v] short_range [of w] by simp_all

lemma read_body_Continue:
  assumes "read_body P s copy bt = Ok (Continue s' copy' bt')" "loop_inv P s" "head_parse s"
    and "head_len P < 2 ^ 15 - 1" "bt < 2 ^ 62"
  shows "bt' < bt \<and> loop_inv P s'"
proof -
  obtain n where n: "recv_node s = Some n" "short_val (cur_len n) < short_val (total_len n)"
    using assms(2,3) by (auto simp: loop_inv_def split: option.splits)
  let ?rem = "short_val (total_len n) - short_val (cur_len n)"
  have nl: "\<not> size_less bt ?rem"
    using assms(1) n by (auto simp: read_body_def Let_def cxx_bind_eq_Ok)
  then obtain n' where "complete_msg P s n' (copy + ?rem) (size_sub bt ?rem) = Ok (Continue s' copy' bt')"
    using assms(1) n by (auto simp: read_body_def Let_def cxx_bind_eq_Ok)
  moreover have "size_sub bt ?rem < bt"
    using size_consume [OF nl short_diff_bounds] assms(5) n(2) by simp
  ultimately show ?thesis using complete_msg_Continue assms(2,4) by (metis loop_inv_def)
qed

lemma head_done_Continue:
  assumes "head_done P s copy bt = Ok (Continue s' copy' bt')" "head_ok (head_len P) (head_node s)"
    and "head_len P < 2 ^ 15 - 1" "bt < 2 ^ 62"
  shows "bt' \<le> bt \<and> loop_inv P s'"
proof -
  obtain mid mlen n where h: "parse_head P (node_data (head_node s)) = Some (mid, mlen)"
      "new_node P mlen mid = Ok n"
    using assms(1) by (auto simp: head_done_def cxx_bind_eq_Ok split: option.splits)
  have nl: "\<not> size_less bt (short_val mlen)"
    using assms(1) h by (auto simp: head_done_def cxx_bind_eq_Ok cxx_simps)
  obtain n' where "complete_msg P s n' (copy + short_val mlen) (size_sub bt (short_val mlen)) =
      Ok (Continue s' copy' bt')"
    using assms(1) h nl by (auto simp: head_done_def cxx_bind_eq_Ok cxx_simps)
  moreover have "- (2 ^ 63) \<le> short_val mlen" "short_val mlen < 2 ^ 63"
    using short_range [of mlen] by simp_all
  then have "size_sub bt (short_val mlen) \<le> bt"
    using size_consume [OF nl] assms(4) by simp
  ultimately show ?thesis using complete_msg_Continue assms(2,3) by metis
qed

lemma read_head_Continue:
  assumes "read_head P s copy bt = Ok (Continue s' copy' bt')" "loop_inv P s"
    and "head_len P < 2 ^ 15 - 1" "bt < 2 ^ 62"
  shows "bt' < bt \<and> loop_inv P s'"
proof -
  let ?h = "head_node s" and ?rem = "int (head_len P) - short_val (cur_len (head_node s))"
  from assms(2) have h: "head_ok (head_len P) ?h" by (simp add: loop_inv_def)
  then have rem: "0 < ?rem" "?rem \<le> int (head_len P)" by (auto simp: head_ok_def)
  have nl: "\<not> size_less (size_add bt (short_val (cur_len ?h))) (int (head_len P))"
    using assms(1) by (auto simp: read_head_def Let_def cxx_bind_eq_Ok)
  then have le: "nat ?rem \<le> bt"
    using h assms(3,4) by (simp add: head_ok_def size_add_small size_less_of_nat) linarith
  obtain hs where mc: "memcpy_at (node_data ?h) (short_val (cur_len ?h)) (data_from s copy) (size_of_int ?rem) = Ok hs"
    and hd: "head_done P (s\<lparr>head_node := ?h\<lparr>node_data := hs\<rparr>\<rparr>) (copy + ?rem) (size_sub bt ?rem) =
      Ok (Continue s' copy' bt')"
    using assms(1) nl by (auto simp: read_head_def Let_def cxx_bind_eq_Ok)
  have "head_ok (head_len P) (?h\<lparr>node_data := hs\<rparr>)"
    using h memcpy_at_length [OF mc] by (simp add: head_ok_def)
  moreover have sub: "size_sub bt ?rem < bt"
    using rem le assms(4) by (subst size_sub_le) auto
  ultimately have "bt' \<le> size_sub bt ?rem \<and> loop_inv P s'"
    using head_done_Continue [OF hd] assms(3,4) by simp
  then show ?thesis using sub by simp
qed

lemma read_iter_Continue:
  assumes "read_iter P s copy bt = Ok (Continue s' copy' bt')" "loop_inv P s"
    and "head_len P < 2 ^ 15 - 1" "bt < 2 ^ 62"
  shows "bt' < bt \<and> loop_inv P s'"
  using assms read_body_Continue read_head_Continue by (metis read_iter_def)

lemma read_loop_returns:
  "loop_inv P s \<Longrightarrow> head_len P < 2 ^ 15 - 1 \<Longrightarrow> bt < 2 ^ 62 \<Longrightarrow> bt < fuel \<Longrightarrow> read_loop fuel P s copy bt \<noteq> None"
proof (induction fuel arbitrary: s copy bt)
  case (Suc fuel)
  show ?case
  proof (cases "\<exists>s' copy' bt'. read_iter P s copy bt = Ok (Continue s' copy' bt')")
    case True
    then obtain s' copy' bt' where it: "read_iter P s copy bt = Ok (Continue s' copy' bt')" by blast
    with Suc.prems read_iter_Continue have "bt' < bt" "loop_inv P s'" by blast+
    then show ?thesis using it Suc.IH [of s' bt' copy'] Suc.prems by simp
  next
    case False
    then show ?thesis by (auto split: cxx.splits iter.splits)
  qed
qed simp

lemma handle_read_returns:
  "sess_wf P s \<Longrightarrow> head_len P < 2 ^ 15 - 1 \<Longrightarrow> n \<le> MAX_LENGTH \<Longrightarrow> handle_read P error n s \<noteq> None"
  unfolding handle_read_def
  using read_loop_returns [OF sess_wf_loop_inv, of P s n "Suc n" 0] by (simp add: MAX_LENGTH_def)

end
