(* ===== verification/EchoTheorems.thy ===== *)
theory EchoTheorems
  imports EchoServers Termination
begin

text \<open>
  The properties of the echo servers \<open>as03\<close>, \<open>adh\<close> and \<open>as04\<close>, from the bytes of a connection
  to the map of sessions.  Each is an application of the locales interpreted in
  \<^theory_text>\<open>EchoServers\<close>.
\<close>

section \<open>Example streams\<close>

lemma as04_example_stream: "parse_stream as04_proto [0, 1, 65] = ([(0, [65])], Pending [])"
  by code_simp

lemma as03_example_stream: "parse_stream as03_proto [1, 0, 65, 2] = ([(0, [65])], Pending [2])"
  by code_simp

lemma adh_example_stream: "parse_stream adh_proto [1, 0, 65, 2] = ([(0, [65])], Pending [2])"
  by code_simp

lemma as04_example_refused: "parse_stream as04_proto [9, 0] = ([], Refused)"
  by code_simp

lemma example_chunks: "c \<in> set [[0], [1, 65 :: byte]] \<Longrightarrow> chunk_ok c"
  "c \<in> set [[0, 1 :: byte], [65]] \<Longrightarrow> chunk_ok c" "c \<in> set [[1], [0, 65, 2 :: byte]] \<Longrightarrow> chunk_ok c"
  by (auto simp: chunk_ok_def MAX_LENGTH_def)

lemma as04_start_example:
  obtains s where "as04_Start = Ok s" "sess_wf as04_proto s" "pending as04_proto s = []" "world s = empty_send"
    "\<not> head_parse s"
proof -
  obtain s where s: "as04_Start = Ok s" "sess_wf as04_proto s" "pending as04_proto s = []" "world s = empty_send"
    using as04.start_session_Ok unfolding as04_Start_def by blast
  then have "\<not> head_parse s"
    by (auto simp: as04_Start_def start_session_def cxx_bind_eq_Ok rearm_def)
  with s that show thesis by blast
qed

section \<open>Properties\<close>

lemma as04_delivers: "\<exists>w. cxx_fold (deliver_msg as04_proto) st (fst (parse_stream as04_proto bs)) = Ok w"
proof -
  have fits: "small_msg m" if "m \<in> set (fst (parse_stream as04_proto bs))" for m
    using parse_stream_frames [of as04_proto bs _ _ "fst m" "snd m"] that as04.frame_fits by (metis prod.collapse)
  have "\<exists>w. cxx_fold (deliver_msg as04_proto) st ms = Ok w" if "set ms \<subseteq> set (fst (parse_stream as04_proto bs))" for st ms
    using that
  proof (induction ms arbitrary: st)
    case (Cons m ms)
    then show ?case using as04.pump.send_law [OF fits, of m] by (auto simp: cxx_simps)
  qed simp
  then show ?thesis by blast
qed

lemma as04_recode:
  "parse_stream as04_proto bs = (ms, Pending p) \<Longrightarrow> concat (map (prefix_enc swap16) ms) @ p = bs"
  by (rule prefix_stream_recode [where conv = swap16]) simp_all

lemma as04_conserves:
  assumes "\<And>c. c \<in> set (chunks es) \<Longrightarrow> chunk_ok c"
    and "parse_stream as04_proto (concat (chunks es)) = (ms, Pending p)" "length ms \<le> Suc MAX_SENDQUE"
  shows "\<exists>s0 s out. as04_Start = Ok s0 \<and> feeds (session_step as04_proto) (s0, []) es = Some (s, out) \<and>
     pending as04_proto s = p \<and> answered (s, out) @ p = concat (chunks es)"
proof -
  have "\<not> que_full k" if "k < length ms" for k using that assms(3) by (simp add: que_full_def)
  then show ?thesis
    using as04.connection_conserves [OF assms(1,2)] as04_recode [OF assms(2)] unfolding as04_Start_def by metis
qed

text \<open>
  C1: AsyncServer04 echoes exactly, on streams of at most 1001 messages whose headers all announce 0 to 2048
  bytes: whatever way the stream is cut into reads and interleaved with write completions, the bytes on the
  wire, then the bytes queued, then the bytes pending are the bytes received; and once as many more writes
  have completed as there are nodes queued, the queue is empty and the wire carries every complete message.
\<close>

theorem as04_echo_exact:
  assumes "\<And>c. c \<in> set (chunks es) \<Longrightarrow> chunk_ok c"
    and "parse_stream as04_proto (concat (chunks es)) = (ms, Pending p)" "length ms \<le> Suc MAX_SENDQUE"
  shows "\<exists>s0 s out s' echo. as04_Start = Ok s0 \<and> feeds (session_step as04_proto) (s0, []) es = Some (s, out) \<and>
     pending as04_proto s = p \<and> answered (s, out) @ p = concat (chunks es) \<and>
     feeds (session_step as04_proto) (s, out) (replicate (length (send_que (world s))) WriteDone) = Some (s', echo) \<and>
     send_que (world s') = [] \<and> echo @ p = concat (chunks es)"
proof -
  have "\<not> que_full k" if "k < length ms" for k using that assms(3) by (simp add: que_full_def)
  from as04.connection_answers [OF assms(1,2) this]
  show ?thesis unfolding as04_Start_def as04_recode [OF assms(2), symmetric] by metis
qed

lemma as04_echo_exact_witness:
  "\<exists>s0 s out s' echo. as04_Start = Ok s0 \<and>
     feeds (session_step as04_proto) (s0, []) [ReadChunk [0], ReadChunk [1, 65], WriteDone] = Some (s, out) \<and>
     pending as04_proto s = [] \<and> answered (s, out) @ [] = [0, 1, 65] \<and>
     feeds (session_step as04_proto) (s, out) (replicate (length (send_que (world s))) WriteDone) = Some (s', echo) \<and>
     send_que (world s') = [] \<and> echo @ [] = [0, 1, 65]"
  using as04_echo_exact [of "[ReadChunk [0], ReadChunk [1, 65], WriteDone]" "[(0, [65])]" "[]"]
    as04_example_stream example_chunks(1)
  by (simp add: MAX_SENDQUE_def)

text \<open>
  AsyncServer03 echoes exactly, without a bound on the number of messages in flight.
\<close>

theorem as03_echo_exact:
  assumes "\<And>c. c \<in> set (chunks es) \<Longrightarrow> chunk_ok c"
    and "parse_stream as03_proto (concat (chunks es)) = (ms, Pending p)"
  shows "\<exists>s0 s out. as03_Start = Ok s0 \<and> feeds (session_step as03_proto) (s0, []) es = Some (s, out) \<and>
     pending as03_proto s = p \<and> answered (s, out) @ p = concat (chunks es)"
proof -
  have "concat (map (prefix_enc (\<lambda>w. w)) ms) @ p = concat (chunks es)"
    by (rule prefix_stream_recode [where conv = "\<lambda>w. w", OF _ _ _ assms(2)]) simp_all
  then show ?thesis
    using as03.connection_conserves [OF assms] unfolding as03_Start_def by metis
qed

lemma as03_echo_exact_witness:
  "\<exists>s0 s out. as03_Start = Ok s0 \<and>
     feeds (session_step as03_proto) (s0, []) [ReadChunk [1], ReadChunk [0, 65, 2], WriteDone] = Some (s, out) \<and>
     pending as03_proto s = [2] \<and> answered (s, out) @ [2] = [1, 0, 65, 2]"
  using as03_echo_exact [of "[ReadChunk [1], ReadChunk [0, 65, 2], WriteDone]" "[(0, [65])]" "[2]"]
    as03_example_stream example_chunks(3)
  by simp

text \<open>the delayed copy of AsyncServer03 echoes exactly as well.\<close>

theorem adh_echo_exact:
  assumes "\<And>c. c \<in> set (chunks es) \<Longrightarrow> chunk_ok c"
    and "parse_stream adh_proto (concat (chunks es)) = (ms, Pending p)"
  shows "\<exists>s0 s out. adh_Start = Ok s0 \<and> feeds (session_step adh_proto) (s0, []) es = Some (s, out) \<and>
     pending adh_proto s = p \<and> answered (s, out) @ p = concat (chunks es)"
proof -
  have "concat (map (prefix_enc (\<lambda>w. w)) ms) @ p = concat (chunks es)"
    by (rule prefix_stream_recode [where conv = "\<lambda>w. w", OF _ _ _ assms(2)]) simp_all
  then show ?thesis
    using adh.connection_conserves [OF assms] unfolding adh_Start_def by metis
qed

lemma adh_echo_exact_witness:
  "\<exists>s0 s out. adh_Start = Ok s0 \<and>
     feeds (session_step adh_proto) (s0, []) [ReadChunk [1], ReadChunk [0, 65, 2], WriteDone] = Some (s, out) \<and>
     pending adh_proto s = [2] \<and> answered (s, out) @ [2] = [1, 0, 65, 2]"
  using adh_echo_exact [of "[ReadChunk [1], ReadChunk [0, 65, 2], WriteDone]" "[(0, [65])]" "[2]"]
    adh_example_stream example_chunks(3)
  by simp

text \<open>
  the length-prefixed encoding of AsyncServer04 parses back: a stream of encoded messages
  of at most \<open>MAX_LENGTH\<close> bytes each is read as those messages with nothing left over.
\<close>

theorem as04_roundtrip:
  assumes "\<And>m. m \<in> set ms \<Longrightarrow> small_msg m"
  shows "parse_stream as04_proto (concat (map (prefix_enc swap16) ms)) = (ms, Pending [])"
proof -
  have "next_frame as04_proto (prefix_enc swap16 m @ rest) = Frame (fst m) (snd m) rest" if "m \<in> set ms" for m rest
    using prefix_enc_frame [OF _ _ _ assms [OF that], of as04_proto swap16 swap16 rest] by simp
  from parse_stream_encoded [of ms as04_proto "prefix_enc swap16" "[]", OF this]
  show ?thesis by (simp add: parse_stream_Incomplete next_frame_def)
qed

lemma as04_roundtrip_witness:
  "parse_stream as04_proto (concat (map (prefix_enc swap16) [(0, [65]), (0, [])])) = ([(0, [65]), (0, [])], Pending [])"
  by (rule as04_roundtrip) (auto simp: small_msg_def MAX_LENGTH_def)

text \<open>
  C14: the send queue of AsyncServer04: whatever calls of \<open>Send\<close> and completions of
  \<open>HandleWrite\<close> occur, at most one write is outstanding and it is the front of the queue, and
  the bytes on the wire followed by the queue are the accepted messages in order.
\<close>

theorem as04_send_fifo:
  assumes "\<And>m. Post m \<in> set es \<Longrightarrow> small_msg m"
  shows "\<exists>st out. cxx_fold (pump_step (deliver_msg as04_proto)) (empty_send, []) es = Ok (st, out) \<and>
     length (in_flight st) \<le> 1 \<and>
     out @ concat (map wire_bytes (send_que st)) = concat (map (prefix_enc swap16) (accepted que_full 0 es))"
proof -
  obtain st out where "cxx_fold (pump_step (deliver_msg as04_proto)) (empty_send, []) es = Ok (st, out)"
    "pump_inv st"
    "out @ concat (map wire_bytes (send_que st)) = concat (map (prefix_enc swap16) (accepted que_full 0 es))"
    using as04.pump.pump_fifo [OF assms] by blast
  moreover from \<open>pump_inv st\<close> have "length (in_flight st) \<le> 1"
    by (auto simp: pump_inv_def split: list.splits)
  ultimately show ?thesis by blast
qed

lemma as04_send_fifo_witness:
  "\<exists>st out. cxx_fold (pump_step (deliver_msg as04_proto)) (empty_send, [])
       [Post (0, [65]), Post (0, [66]), Written] = Ok (st, out) \<and> length (in_flight st) \<le> 1 \<and>
     out @ concat (map wire_bytes (send_que st)) =
       concat (map (prefix_enc swap16) (accepted que_full 0 [Post (0, [65]), Post (0, [66]), Written]))"
  by (rule as04_send_fifo) (auto simp: small_msg_def MAX_LENGTH_def)

text \<open>
  C15: the test \<open>send_que_size > MAX_SENDQUE\<close> lets the queue of AsyncServer04 grow to 1001
  nodes, one more than \<open>MAX_SENDQUE\<close>, and never beyond.
\<close>

theorem as04_queue_bound:
  assumes "\<And>m. Post m \<in> set es \<Longrightarrow> small_msg m"
    and "cxx_fold (pump_step (deliver_msg as04_proto)) (empty_send, []) es = Ok (st, out)"
  shows "length (send_que st) \<le> Suc MAX_SENDQUE"
proof -
  have "pump_abs (st, out) = foldl (pump_spec que_full (prefix_enc swap16)) ([], []) es"
    using as04.pump.pump_refines [OF pump_inv_empty assms(1), of es "[]"] assms(2)
    by (auto simp: pump_abs_def empty_send_def)
  then show ?thesis
    using pump_spec_bound [of "prefix_enc swap16" "[]" "[]" es "map wire_bytes (send_que st)" out]
    by (simp add: pump_abs_def)
qed

lemma as04_queue_bound_witness:
  "\<exists>st out. cxx_fold (pump_step (deliver_msg as04_proto)) (empty_send, []) [Post (0, [65])] = Ok (st, out) \<and>
     length (send_que st) \<le> Suc MAX_SENDQUE"
proof -
  have sm: "small_msg m" if "Post m \<in> set [Post (0, [65])]" for m
    using that by (auto simp: small_msg_def MAX_LENGTH_def)
  obtain st out where "cxx_fold (pump_step (deliver_msg as04_proto)) (empty_send, []) [Post (0, [65])] = Ok (st, out)"
    using as04.pump.pump_fifo [OF sm] by blast
  with as04_queue_bound [OF sm] show ?thesis by blast
qed

text \<open>
  a session of AsyncServer04 does not depend on how TCP cuts the stream: two cuttings of
  the same bytes leave the same send queue and the same pending bytes.
\<close>

theorem as04_chunking:
  assumes "\<And>c. c \<in> set cs \<Longrightarrow> chunk_ok c" "\<And>c. c \<in> set ds \<Longrightarrow> chunk_ok c" "concat cs = concat ds"
    and "parse_stream as04_proto (concat cs) = (ms, Pending p)"
  shows "\<exists>s0 s1 s2. as04_Start = Ok s0 \<and> feeds (feed as04_proto) s0 cs = Some s1 \<and>
     feeds (feed as04_proto) s0 ds = Some s2 \<and> world s1 = world s2 \<and> pending as04_proto s1 = pending as04_proto s2"
proof -
  obtain s0 where s0: "start_session as04_proto empty_send = Ok s0" "sess_wf as04_proto s0"
    "pending as04_proto s0 = []" "world s0 = empty_send"
    using as04.start_session_Ok by blast
  obtain w where "cxx_fold (deliver_msg as04_proto) empty_send ms = Ok w"
    using as04_delivers [of empty_send "concat cs"] assms(4) by auto
  then show ?thesis
    using as04.reader.chunking_irrelevant [of s0 cs ds ms p w] s0 assms unfolding as04_Start_def by auto
qed

lemma as04_chunking_witness:
  "\<exists>s0 s1 s2. as04_Start = Ok s0 \<and> feeds (feed as04_proto) s0 [[0], [1, 65]] = Some s1 \<and>
     feeds (feed as04_proto) s0 [[0, 1], [65]] = Some s2 \<and> world s1 = world s2 \<and>
     pending as04_proto s1 = pending as04_proto s2"
  by (rule as04_chunking [OF example_chunks(1,2), where ms = "[(0, [65])]" and p = "[]"])
    (use as04_example_stream in simp_all)

text \<open>
  a header that announces more than \<open>MAX_LENGTH\<close> bytes ends the connection of AsyncServer04:
  the messages before it are queued, then the session is removed and no read is armed.
\<close>

theorem as04_oversize_cleared:
  assumes "sess_wf as04_proto s" "chunk_ok c" "parse_stream as04_proto (pending as04_proto s @ c) = (ms, Refused)"
    and "cxx_fold (deliver_msg as04_proto) (world s) ms = Ok w"
  shows "\<exists>s'. as04_HandleRead False (length c) (deliver c s) = Some (Cleared s') \<and> world s' = w"
  using as04.handle_read_spec [OF assms(1-3) _ assms(4)] unfolding as04_HandleRead_def by auto

lemma as04_oversize_cleared_witness:
  "\<exists>s s'. as04_Start = Ok s \<and> as04_HandleRead False 2 (deliver [9, 0] s) = Some (Cleared s') \<and>
     world s' = empty_send"
proof -
  obtain s where s: "as04_Start = Ok s" "sess_wf as04_proto s" "pending as04_proto s = []" "world s = empty_send"
    by (rule as04_start_example)
  then have "\<exists>s'. as04_HandleRead False (length [9, 0 :: byte]) (deliver [9, 0] s) = Some (Cleared s') \<and>
      world s' = empty_send"
    by (intro as04_oversize_cleared [where ms = "[]"])
      (simp_all add: as04_example_refused chunk_ok_def MAX_LENGTH_def)
  with s(1) show ?thesis by (simp add: numeral_2_eq_2) blast
qed

text \<open>
  C16: a length below -1 is not refused by AsyncServer04: the allocation of the node throws, no
  handler catches it, and the exception leaves \<open>io_context::run\<close>.
\<close>

theorem as04_negative_escapes:
  assumes "sess_wf as04_proto s" "chunk_ok c" "2 \<le> length (pending as04_proto s @ c)" "\<not> head_parse s"
    and "short_val (swap16 (le_short (pending as04_proto s @ c))) < -1"
  shows "as04_HandleRead False (length c) (deliver c s) = Some (Escaped BadArrayNewLength)"
proof -
  let ?b = "pending as04_proto s @ c" and ?l = "swap16 (le_short (pending as04_proto s @ c))"
  have ph: "parse_head as04_proto (take (head_len as04_proto) ?b) = Some (0, ?l)"
    using assms(5) le_short_take [of ?b] by (simp add: length_head_def Let_def MAX_LENGTH_def del: take_append le_short_take)
  moreover have "next_frame as04_proto ?b = NegativeLen"
    using ph assms(3,5) by (simp add: next_frame_def del: take_append)
  moreover have "new_node as04_proto ?l 0 = Throw BadArrayNewLength"
    using assms(5) by (simp add: plain_MsgNode_def new_char_array_def cxx_simps)
  ultimately show ?thesis
    using as04.handle_read_negative [OF assms(1,2)] unfolding as04_HandleRead_def by simp
qed

lemma as04_negative_escapes_witness:
  "\<exists>s. as04_Start = Ok s \<and>
     as04_HandleRead False 2 (deliver [255, 254] s) = Some (Escaped BadArrayNewLength)"
proof -
  obtain s where s: "as04_Start = Ok s" "sess_wf as04_proto s" "pending as04_proto s = []" "\<not> head_parse s"
    by (rule as04_start_example)
  have "short_val (swap16 (le_short [255, 254])) < -1" by code_simp
  then have "as04_HandleRead False (length [255, 254 :: byte]) (deliver [255, 254] s) = Some (Escaped BadArrayNewLength)"
    using s by (intro as04_negative_escapes) (simp_all add: chunk_ok_def MAX_LENGTH_def)
  with s(1) show ?thesis by (simp add: numeral_2_eq_2) blast
qed

text \<open>
  C3: \<open>HandleRead\<close> always returns, for any header format, any bytes and any outcome of handing
  messages over: the loop is never left running.
\<close>

theorem HandleRead_returns:
  assumes "sess_wf P s" "head_len P < 2 ^ 15 - 1" "n \<le> MAX_LENGTH"
  shows "handle_read P error n s \<noteq> None"
  using assms by (rule handle_read_returns)

lemma HandleRead_returns_witness:
  "\<exists>s. as04_Start = Ok s \<and> handle_read as04_proto False 1 (deliver [255] s) \<noteq> None"
proof -
  obtain s where s: "as04_Start = Ok s" "sess_wf as04_proto s"
    by (rule as04_start_example)
  have "sess_wf as04_proto (deliver [255] s)"
    using as04.deliver_chunk(1) [OF s(2), of "[255]"] by (simp add: chunk_ok_def MAX_LENGTH_def)
  then have "handle_read as04_proto False 1 (deliver [255] s) \<noteq> None"
    by (rule HandleRead_returns) (simp_all add: MAX_LENGTH_def)
  with s(1) show ?thesis by blast
qed

text \<open>
  C17: the session map of AsyncServer04: any accept, and any completed read that does not complete a header with
  a negative length, leaves every registered session with a read armed and a well-formed parser, and the
  server alive.
\<close>

theorem as04_server_invariant:
  assumes "server_inv as04_proto srv" "\<not> dead srv" "\<not> negative_read as04_proto srv e"
    and "\<And>u c. e = ReadDone u False c \<Longrightarrow> chunk_ok c"
  shows "server_inv as04_proto (as04_CServer_step srv e) \<and> \<not> dead (as04_CServer_step srv e)"
  unfolding as04_CServer_step_def by (rule as04.server_step_inv [OF assms as04_delivers])

lemma as04_server_invariant_witness:
  "\<exists>srv. srv = foldl as04_CServer_step (new_server ''u1'') [Accepted False ''u2'', ReadDone ''u1'' False [0, 1, 65, 0]] \<and>
     server_inv as04_proto srv \<and> \<not> dead srv"
proof -
  let ?srv = "as04_CServer_step (new_server ''u1'') (Accepted False ''u2'')"
  let ?e = "ReadDone ''u1'' False [0, 1, 65, 0]"
  obtain s where s: "as04_Start = Ok s" "pending as04_proto s = []" by (rule as04_start_example)
  have o: "objects ?srv ''u1'' = Some s" "''u1'' \<in> reading ?srv"
    using s(1) by (simp_all add: as04_CServer_step_def HandleAccept_def new_server_def StartAccept_def as04_Start_def)
  have inv: "server_inv as04_proto ?srv \<and> \<not> dead ?srv"
    by (rule as04_server_invariant) (simp_all add: new_server_inv negative_read_def)
  have "parse_stream as04_proto [0, 1, 65, 0] = ([(0, [65])], Pending [0])" by code_simp
  then have "\<not> negative_read as04_proto ?srv ?e" using o s(2) by (simp add: negative_read_def)
  moreover have "chunk_ok c" if "?e = ReadDone u False c" for u c
    using that by (auto simp: chunk_ok_def MAX_LENGTH_def)
  ultimately have "server_inv as04_proto (as04_CServer_step ?srv ?e) \<and> \<not> dead (as04_CServer_step ?srv ?e)"
    using as04_server_invariant inv by blast
  then show ?thesis by simp
qed

text \<open>
  sessions of AsyncServer04 are isolated: whatever the other connections do, short of killing
  the server, the state of a session is the one its own bytes alone would give.
\<close>

theorem as04_session_isolated:
  assumes "objects srv u = Some s" "u \<in> reading srv" "accepting srv \<noteq> Some u"
    and "\<And>e. e \<in> set es \<Longrightarrow> spares u e" "\<not> dead (foldl as04_CServer_step srv es)"
    and "feeds (feed as04_proto) s (chunks_of u es) = Some s'"
  shows "objects (foldl as04_CServer_step srv es) u = Some s'"
proof -
  have "as04_CServer_step = server_step as04_proto empty_send"
    by (intro ext) (simp add: as04_CServer_step_def)
  then show ?thesis using server_session_alone [OF assms(1-4)] assms(5,6) by metis
qed

lemma as04_session_isolated_witness:
  "\<exists>s s'. as04_Start = Ok s \<and> feed as04_proto s [0] = Some s' \<and>
     objects (foldl as04_CServer_step (as04_CServer_step (new_server ''u1'') (Accepted False ''u2''))
       [ReadDone ''u3'' True [], ReadDone ''u1'' False [0]]) ''u1'' = Some s'"
proof -
  obtain s where s: "as04_Start = Ok s" "sess_wf as04_proto s" "pending as04_proto s = []" "world s = empty_send"
    by (rule as04_start_example)
  let ?srv = "as04_CServer_step (new_server ''u1'') (Accepted False ''u2'')"
  have srv: "objects ?srv ''u1'' = Some s" "''u1'' \<in> reading ?srv" "accepting ?srv = Some ''u2''" "\<not> dead ?srv"
    "objects ?srv ''u3'' = None"
    using s(1) by (simp_all add: as04_CServer_step_def HandleAccept_def new_server_def StartAccept_def as04_Start_def)
  have c: "chunk_ok [0]" by (simp add: chunk_ok_def MAX_LENGTH_def)
  have inc: "parse_stream as04_proto (pending as04_proto s @ [0]) = ([], Pending [0])"
    using s(3) by (simp add: parse_stream_Incomplete next_frame_def)
  obtain s' where s': "feed as04_proto s [0] = Some s'"
    using as04.reader.feed_law [OF s(2) c inc, of "world s"] by auto
  have e1: "as04_CServer_step ?srv (ReadDone ''u3'' True []) = ?srv"
    using srv(4,5) unfolding as04_CServer_step_def [of ?srv "ReadDone ''u3'' True []"] by (simp add: server_read_def)
  have alive: "\<not> dead (foldl as04_CServer_step ?srv [ReadDone ''u3'' True [], ReadDone ''u1'' False [0]])"
    using srv s' e1 by (auto simp: as04_CServer_step_def [of ?srv "ReadDone ''u1'' False [0]"] server_read_def
        feed_def Let_def split: option.splits read_end.splits)
  have "spares ''u1'' e" if "e \<in> set [ReadDone ''u3'' True [], ReadDone ''u1'' False [0]]" for e
    using that by (auto simp: spares_def)
  from as04_session_isolated [OF srv(1,2) _ this alive, of s'] srv(3) s(1) s' show ?thesis
    by (intro exI [of _ s] exI [of _ s']) simp
qed

end
