(* ===== verification/LogicSystem.thy ===== *)
theory LogicSystem
  imports MsgNode
begin

text \<open>
  \<open>LogicSystem\<close>: the queue of received messages between the sessions and the one worker thread
  that runs the callbacks.  \<open>PostMsgToQue\<close> and each pass of \<open>DealMsg\<close> run under \<open>_mutex\<close>; the
  destructor does not take it.  The threads interleave at the points where the mutex is free
  or not needed, and every interleaving is a sequence of labels for \<open>logic_exec\<close>.
\<close>

section \<open>The callbacks\<close>

definition MSG_HELLO_WORD :: short where
  "MSG_HELLO_WORD = 1001"

definition fun_callbacks :: "short set" where
  "fun_callbacks = {MSG_HELLO_WORD}"

text \<open>
  JsonCpp as the callbacks use it; \<open>asInt\<close> and \<open>asString\<close> throw on values of another type,
  and indexing throws on a value that is no object.
\<close>

record 'v json_api =
  json_parse :: "byte list \<Rightarrow> 'v"
  get_id :: "'v \<Rightarrow> int cxx"
  get_data :: "'v \<Rightarrow> byte list cxx"
  set_data :: "'v \<Rightarrow> byte list \<Rightarrow> 'v"
  to_styled :: "'v \<Rightarrow> byte list"

definition greeting :: "byte list" where
  "greeting = map of_char ''server has received msg, msg data is ''"

text \<open>\<open>HelloWorldCallBack\<close> up to its call \<open>session->Send(return_str, root["id"].asInt())\<close>.\<close>

definition HelloWorldCallBack :: "'v json_api \<Rightarrow> byte list \<Rightarrow> (byte list \<times> short) cxx" where
  "HelloWorldCallBack api msg_data =
     (let root = json_parse api msg_data in
      cxx_bind (get_id api root) (\<lambda>_.
      cxx_bind (get_data api root) (\<lambda>text.
        let root' = set_data api root (greeting @ text) in
        cxx_bind (get_id api root') (\<lambda>i. Ok (to_styled api root', word_of_int i)))))"

text \<open>\<open>std::string(_recvnode->_data, len)\<close> with \<open>len\<close> the \<open>_cur_len\<close> or the \<open>_total_len\<close>.\<close>

definition node_string :: "(msg_node \<Rightarrow> short) \<Rightarrow> msg_node \<Rightarrow> byte list cxx" where
  "node_string len n =
     (if size_of_int (short_val (len n)) \<le> length (node_data n)
      then Ok (take (size_of_int (short_val (len n))) (node_data n)) else UB)"

section \<open>State and steps\<close>

datatype worker_pc = WLock | WTest | WSleep | WBlocked | WDone | WCrashed

datatype dtor_pc = DNone | DNotify | DJoin | DJoined

type_synonym logic_node = "string \<times> msg_node"

text \<open>
  \<open>notifies\<close> counts posters between \<open>unlock\<close> and \<open>notify_one\<close>; \<open>outbox\<close> lists the calls of
  \<open>Send\<close> the callbacks made; \<open>posted\<close> and \<open>dealt\<close> are histories.
\<close>

record logic_sys =
  msg_que :: "logic_node list"
  b_stop :: bool
  worker :: worker_pc
  dtor :: dtor_pc
  notifies :: nat
  outbox :: "(string \<times> byte list \<times> short) list"
  posted :: "logic_node list"
  dealt :: "logic_node list"

definition new_LogicSystem :: logic_sys where
  "new_LogicSystem = \<lparr>msg_que = [], b_stop = False, worker = WLock, dtor = DNone, notifies = 0,
     outbox = [], posted = [], dealt = []\<rparr>"

definition mutex_free :: "logic_sys \<Rightarrow> bool" where
  "mutex_free st \<longleftrightarrow> worker st \<noteq> WTest \<and> worker st \<noteq> WSleep"

definition PostMsgToQue :: "logic_node \<Rightarrow> logic_sys \<Rightarrow> logic_sys" where
  "PostMsgToQue m st =
     (let que = msg_que st @ [m] in
      st\<lparr>msg_que := que, posted := posted st @ [m],
         notifies := (if length que = 1 then Suc (notifies st) else notifies st)\<rparr>)"

definition notify_one :: "logic_sys \<Rightarrow> logic_sys" where
  "notify_one st = (if worker st = WBlocked then st\<lparr>worker := WLock\<rparr> else st)"

text \<open>What the callback sends for a message, or nothing when no callback is registered.\<close>

definition call_back ::
  "(msg_node \<Rightarrow> byte list cxx) \<Rightarrow> (byte list \<Rightarrow> (byte list \<times> short) cxx) \<Rightarrow> logic_node \<Rightarrow>
     (string \<times> byte list \<times> short) list cxx" where
  "call_back str cb m =
     (if msg_id (snd m) \<in> fun_callbacks
      then cxx_bind (str (snd m)) (\<lambda>s. cxx_bind (cb s) (\<lambda>(r, i). Ok [(fst m, r, i)]))
      else Ok [])"

text \<open>One message: front, callback if there is one, pop.\<close>

definition deal_front ::
  "(msg_node \<Rightarrow> byte list cxx) \<Rightarrow> (byte list \<Rightarrow> (byte list \<times> short) cxx) \<Rightarrow> logic_sys \<Rightarrow> logic_sys cxx" where
  "deal_front str cb st =
     (case msg_que st of
        [] \<Rightarrow> UB
      | m # q \<Rightarrow> cxx_bind (call_back str cb m) (\<lambda>sends.
          Ok (st\<lparr>msg_que := q, outbox := outbox st @ sends, dealt := dealt st @ [m]\<rparr>)))"

text \<open>
  A pass of \<open>DealMsg\<close> that holds the mutex: wait, or drain and leave when stopping, or handle
  one message and unlock.  An exception has no handler in the thread and ends the process.
\<close>

definition deal_test ::
  "(msg_node \<Rightarrow> byte list cxx) \<Rightarrow> (byte list \<Rightarrow> (byte list \<times> short) cxx) \<Rightarrow> logic_sys \<Rightarrow> logic_sys" where
  "deal_test str cb st =
     (if msg_que st = [] \<and> \<not> b_stop st then st\<lparr>worker := WSleep\<rparr>
      else if b_stop st \<and> msg_que st = [] then st\<lparr>worker := WDone\<rparr>
      else case deal_front str cb st of
             Ok st' \<Rightarrow> if b_stop st then st' else st'\<lparr>worker := WLock\<rparr>
           | _ \<Rightarrow> st\<lparr>worker := WCrashed\<rparr>)"

datatype logic_label =
    Lock | Test | Sleep | Spurious | PostMsg logic_node | Notify | StopFlag | StopNotify | Join

fun logic_exec ::
  "(msg_node \<Rightarrow> byte list cxx) \<Rightarrow> (byte list \<Rightarrow> (byte list \<times> short) cxx) \<Rightarrow>
     logic_label \<Rightarrow> logic_sys \<Rightarrow> logic_sys option"
where
  "logic_exec str cb Lock st = (if worker st = WLock then Some (st\<lparr>worker := WTest\<rparr>) else None)"
| "logic_exec str cb Test st = (if worker st = WTest then Some (deal_test str cb st) else None)"
| "logic_exec str cb Sleep st = (if worker st = WSleep then Some (st\<lparr>worker := WBlocked\<rparr>) else None)"
| "logic_exec str cb Spurious st = (if worker st = WBlocked then Some (st\<lparr>worker := WLock\<rparr>) else None)"
| "logic_exec str cb (PostMsg m) st = (if mutex_free st then Some (PostMsgToQue m st) else None)"
| "logic_exec str cb Notify st =
     (if notifies st > 0 then Some (notify_one (st\<lparr>notifies := notifies st - 1\<rparr>)) else None)"
| "logic_exec str cb StopFlag st =
     (if dtor st = DNone then Some (st\<lparr>b_stop := True, dtor := DNotify\<rparr>) else None)"
| "logic_exec str cb StopNotify st =
     (if dtor st = DNotify then Some (notify_one (st\<lparr>dtor := DJoin\<rparr>)) else None)"
| "logic_exec str cb Join st =
     (if dtor st = DJoin \<and> worker st = WDone then Some (st\<lparr>dtor := DJoined\<rparr>) else None)"

inductive logic_step ::
  "(msg_node \<Rightarrow> byte list cxx) \<Rightarrow> (byte list \<Rightarrow> (byte list \<times> short) cxx) \<Rightarrow> logic_sys \<Rightarrow> logic_sys \<Rightarrow> bool"
  for str cb where
  logic_stepI: "logic_exec str cb l st = Some st' \<Longrightarrow> logic_step str cb st st'"

inductive_cases logic_stepE: "logic_step str cb st st'"

definition logic_init :: "logic_sys \<Rightarrow> bool" where
  "logic_init st \<longleftrightarrow> st = new_LogicSystem"

fun logic_run ::
  "(msg_node \<Rightarrow> byte list cxx) \<Rightarrow> (byte list \<Rightarrow> (byte list \<times> short) cxx) \<Rightarrow>
     logic_label list \<Rightarrow> logic_sys \<Rightarrow> logic_sys option"
where
  "logic_run str cb [] st = Some st"
| "logic_run str cb (l # ls) st =
     (case logic_exec str cb l st of None \<Rightarrow> None | Some st' \<Rightarrow> logic_run str cb ls st')"

lemma logic_run_steps: "logic_run str cb ls st = Some st' \<Longrightarrow> steps (logic_step str cb) st st'"
  by (induction ls arbitrary: st) (auto intro: steps.intros logic_stepI split: option.splits)

section \<open>Invariants\<close>

text \<open>The replies of a list of messages, in order, when no callback fails.\<close>

definition replies ::
  "(msg_node \<Rightarrow> byte list cxx) \<Rightarrow> (byte list \<Rightarrow> (byte list \<times> short) cxx) \<Rightarrow> logic_node list \<Rightarrow>
     (string \<times> byte list \<times> short) list" where
  "replies str cb ms = concat (map (\<lambda>m. case call_back str cb m of Ok r \<Rightarrow> r | _ \<Rightarrow> []) ms)"

text \<open>
  Messages are handled in the order of the calls of \<open>PostMsgToQue\<close>, each once; the sends are
  their replies; and the worker never sleeps on a non-empty queue without a \<open>notify_one\<close> on
  its way.
\<close>

definition logic_inv ::
  "(msg_node \<Rightarrow> byte list cxx) \<Rightarrow> (byte list \<Rightarrow> (byte list \<times> short) cxx) \<Rightarrow> logic_sys \<Rightarrow> bool" where
  "logic_inv str cb st \<longleftrightarrow> posted st = dealt st @ msg_que st \<and> outbox st = replies str cb (dealt st) \<and>
     (worker st = WSleep \<longrightarrow> msg_que st = []) \<and>
     (worker st = WBlocked \<and> msg_que st \<noteq> [] \<longrightarrow> notifies st > 0)"

lemma deal_front_inv:
  assumes "posted st = dealt st @ msg_que st" "outbox st = replies str cb (dealt st)" "deal_front str cb st = Ok st'"
  shows "posted st' = dealt st' @ msg_que st' \<and> outbox st' = replies str cb (dealt st') \<and> worker st' = worker st"
  using assms by (auto simp: deal_front_def cxx_bind_eq_Ok replies_def split: list.splits)

lemma logic_inv_step:
  assumes inv: "logic_inv str cb st" and ex: "logic_exec str cb l st = Some st'"
  shows "logic_inv str cb st'"
proof (cases l)
  case Test
  with ex have t: "worker st = WTest" "st' = deal_test str cb st" by (auto split: if_splits)
  show ?thesis
  proof (cases "deal_front str cb st")
    case (Ok st1)
    with inv deal_front_inv [OF _ _ Ok] t show ?thesis
      by (auto simp: logic_inv_def deal_test_def)
  qed (use inv t in \<open>auto simp: logic_inv_def deal_test_def\<close>)
next
  case (PostMsg m)
  with inv ex show ?thesis
    by (auto simp: logic_inv_def mutex_free_def PostMsgToQue_def Let_def split: if_splits)
qed (use inv ex in \<open>auto simp: logic_inv_def notify_one_def split: if_splits\<close>)

interpretation logic: step_invariant logic_init "logic_step str cb" "logic_inv str cb" for str cb
proof
  show "logic_init st \<Longrightarrow> logic_inv str cb st" for st
    by (simp add: logic_init_def new_LogicSystem_def logic_inv_def replies_def)
  show "logic_inv str cb s \<Longrightarrow> logic_step str cb s t \<Longrightarrow> logic_inv str cb t" for s t
    using logic_inv_step by (blast elim: logic_stepE)
qed

text \<open>
  From every reachable state with a message waiting, the threads can run on to handle it,
  without a new post and without a spurious wake-up.
\<close>

lemma logic_inv_run: "logic_inv str cb st \<Longrightarrow> logic_run str cb ls st = Some st' \<Longrightarrow> logic_inv str cb st'"
  by (induction ls arbitrary: st) (auto intro: logic_inv_step split: option.splits)

lemma logic_run_append:
  "logic_run str cb (ls @ ls') st =
     (case logic_run str cb ls st of None \<Rightarrow> None | Some st' \<Rightarrow> logic_run str cb ls' st')"
  by (induction ls arbitrary: st) (auto split: option.splits)

definition dealt_one ::
  "logic_sys \<Rightarrow> logic_node \<Rightarrow> logic_node list \<Rightarrow> (string \<times> byte list \<times> short) list \<Rightarrow> logic_sys \<Rightarrow> bool" where
  "dealt_one st m q r st' \<longleftrightarrow> msg_que st' = q \<and> posted st' = posted st \<and> dealt st' = dealt st @ [m] \<and>
     outbox st' = outbox st @ r \<and> (worker st' = WLock \<or> worker st' = WTest)"

lemma can_deal:
  assumes inv: "logic_inv str cb st" and que: "msg_que st = m # q" "worker st \<noteq> WCrashed" "worker st \<noteq> WDone"
    and ok: "call_back str cb m = Ok r"
  shows "\<exists>ls st'. set ls \<subseteq> {Lock, Test, Notify} \<and> logic_run str cb ls st = Some st' \<and> dealt_one st m q r st'"
proof -
  have test: "\<exists>st'. logic_run str cb [Test] s = Some st' \<and> dealt_one s m q r st'"
    if "worker s = WTest" "msg_que s = m # q" for s
    using that ok by (simp add: deal_test_def deal_front_def cxx_simps dealt_one_def)
  have lock: "\<exists>st'. logic_run str cb [Lock, Test] s = Some st' \<and> dealt_one s m q r st'"
    if "worker s = WLock" "msg_que s = m # q" for s
    using that test [of "s\<lparr>worker := WTest\<rparr>"] by (simp add: dealt_one_def)
  show ?thesis
  proof (cases "worker st")
    case WLock
    then show ?thesis using lock [of st] que(1) by (intro exI [of _ "[Lock, Test]"]) auto
  next
    case WTest
    then show ?thesis using test [of st] que(1) by (intro exI [of _ "[Test]"]) auto
  next
    case WBlocked
    then have "notifies st > 0" using inv que(1) by (simp add: logic_inv_def)
    then show ?thesis
      using lock [of "st\<lparr>notifies := notifies st - 1, worker := WLock\<rparr>"] WBlocked que(1)
      by (intro exI [of _ "[Notify, Lock, Test]"]) (auto simp: notify_one_def dealt_one_def)
  qed (use inv que in \<open>auto simp: logic_inv_def\<close>)
qed

lemma can_drain:
  assumes "logic_inv str cb st" "worker st \<noteq> WCrashed" "worker st \<noteq> WDone"
    and "\<And>m. m \<in> set (msg_que st) \<Longrightarrow> \<exists>r. call_back str cb m = Ok r"
  shows "\<exists>ls st'. set ls \<subseteq> {Lock, Test, Notify} \<and> logic_run str cb ls st = Some st' \<and>
     msg_que st' = [] \<and> dealt st' = posted st \<and> outbox st' = replies str cb (posted st)"
  using assms
proof (induction "msg_que st" arbitrary: st)
  case Nil
  then show ?case by (intro exI [of _ "[]"]) (simp add: logic_inv_def)
next
  case (Cons m q)
  then obtain r where r: "call_back str cb m = Ok r" by (metis list.set_intros(1))
  obtain ls st1 where run: "set ls \<subseteq> {Lock, Test, Notify}" "logic_run str cb ls st = Some st1"
    and one: "dealt_one st m q r st1"
    using can_deal [OF Cons.prems(1) Cons.hyps(2) [symmetric] Cons.prems(2,3) r] by blast
  have inv1: "logic_inv str cb st1" using logic_inv_run Cons.prems(1) run(2) by blast
  have q1: "q = msg_que st1" using one by (simp add: dealt_one_def)
  have w1: "worker st1 \<noteq> WCrashed" "worker st1 \<noteq> WDone" using one by (auto simp: dealt_one_def)
  have ok1: "\<exists>r. call_back str cb m' = Ok r" if "m' \<in> set (msg_que st1)" for m'
    using that Cons.hyps(2) q1 Cons.prems(4) by (metis list.set_intros(2))
  obtain ls' st' where "set ls' \<subseteq> {Lock, Test, Notify}" "logic_run str cb ls' st1 = Some st'"
    "msg_que st' = []" "dealt st' = posted st1" "outbox st' = replies str cb (posted st1)"
    using Cons.hyps(1) [OF q1 inv1 w1 ok1] by blast
  then show ?case
    using run one by (intro exI [of _ "ls @ ls'"] exI [of _ st'])
      (simp add: logic_run_append dealt_one_def)
qed

text \<open>
  Runs without the destructor: the calls of \<open>PostMsgToQue\<close> come from the sessions, in any order with
  the steps of the worker.
\<close>

definition posts_of :: "logic_label list \<Rightarrow> logic_node list" where
  "posts_of ls = concat (map (\<lambda>l. case l of PostMsg m \<Rightarrow> [m] | _ \<Rightarrow> []) ls)"

lemma posts_of_simps [simp]:
  "posts_of [] = []" "posts_of (l # ls) = (case l of PostMsg m \<Rightarrow> m # posts_of ls | _ \<Rightarrow> posts_of ls)"
  by (auto simp: posts_of_def split: logic_label.splits)

lemma deal_test_keeps: "posted (deal_test str cb st) = posted st \<and> b_stop (deal_test str cb st) = b_stop st"
  by (auto simp: deal_test_def deal_front_def cxx_bind_eq_Ok split: cxx.splits list.splits)

lemma logic_exec_posted:
  "logic_exec str cb l st = Some st' \<Longrightarrow>
     posted st' = posted st @ posts_of [l] \<and> (l \<noteq> StopFlag \<longrightarrow> b_stop st' = b_stop st)"
  by (cases l) (auto simp: deal_test_keeps notify_one_def PostMsgToQue_def Let_def split: if_splits)

lemma logic_run_posted: "logic_run str cb ls st = Some st' \<Longrightarrow> posted st' = posted st @ posts_of ls"
proof (induction ls arbitrary: st)
  case (Cons l ls)
  then obtain st1 where "logic_exec str cb l st = Some st1" "logic_run str cb ls st1 = Some st'"
    by (auto split: option.splits)
  with Cons.IH [of st1] logic_exec_posted [of str cb l st st1] show ?case by (auto split: logic_label.splits)
qed simp

definition worker_alive :: "logic_sys \<Rightarrow> bool" where
  "worker_alive st \<longleftrightarrow> \<not> b_stop st \<and> worker st \<noteq> WCrashed \<and> worker st \<noteq> WDone"

lemma logic_exec_alive:
  assumes "logic_inv str cb st" "worker_alive st" "l \<noteq> StopFlag" "logic_exec str cb l st = Some st'"
    and ok: "\<And>m. m \<in> set (posted st) \<Longrightarrow> \<exists>r. call_back str cb m = Ok r"
  shows "worker_alive st'"
proof (cases l)
  case Test
  have "\<exists>r. call_back str cb m = Ok r" if "m \<in> set (msg_que st)" for m
    using ok that assms(1) by (auto simp: logic_inv_def)
  then have "\<exists>st1. deal_front str cb st = Ok st1 \<and> b_stop st1 = b_stop st" if "msg_que st \<noteq> []"
    using that by (cases "msg_que st") (fastforce simp: deal_front_def cxx_simps)+
  then show ?thesis using Test assms(2,4) by (auto simp: worker_alive_def deal_test_def split: if_splits)
qed (use assms(2-4) in \<open>auto simp: worker_alive_def notify_one_def PostMsgToQue_def Let_def split: if_splits\<close>)

lemma logic_run_alive:
  assumes "logic_run str cb ls st = Some st'" "logic_inv str cb st" "worker_alive st" "StopFlag \<notin> set ls"
    and "\<And>m. m \<in> set (posted st') \<Longrightarrow> \<exists>r. call_back str cb m = Ok r"
  shows "worker_alive st'"
  using assms
proof (induction ls arbitrary: st)
  case (Cons l ls)
  then obtain st1 where st1: "logic_exec str cb l st = Some st1" "logic_run str cb ls st1 = Some st'"
    by (auto split: option.splits)
  have "set (posted st) \<subseteq> set (posted st')" using logic_run_posted [OF Cons.prems(1)] by simp
  then have "worker_alive st1"
    using logic_exec_alive [OF Cons.prems(2,3) _ st1(1)] Cons.prems(4,5) by auto
  with Cons.IH [OF st1(2) logic_inv_step [OF Cons.prems(2) st1(1)]] Cons.prems(4,5) show ?case by simp
qed simp

text \<open>
  From the first post on: the sends made are the beginning of the replies, and the threads can run on to
  make all of them.
\<close>

lemma logic_serves:
  assumes "logic_run str cb ls new_LogicSystem = Some st" "StopFlag \<notin> set ls"
    and "\<And>m. m \<in> set (posts_of ls) \<Longrightarrow> \<exists>r. call_back str cb m = Ok r"
  shows "(\<exists>more. replies str cb (posts_of ls) = outbox st @ more) \<and>
     (\<exists>ls' st'. set ls' \<subseteq> {Lock, Test, Notify} \<and> logic_run str cb ls' st = Some st' \<and> msg_que st' = [] \<and>
        outbox st' = replies str cb (posts_of ls))"
proof -
  have init: "logic_inv str cb new_LogicSystem" "worker_alive new_LogicSystem" "posted new_LogicSystem = []"
    by (simp_all add: new_LogicSystem_def logic_inv_def replies_def worker_alive_def)
  have post: "posted st = posts_of ls" using logic_run_posted [OF assms(1)] init(3) by simp
  have inv: "logic_inv str cb st" using logic_inv_run [OF init(1) assms(1)] .
  have alive: "worker_alive st"
    by (rule logic_run_alive [OF assms(1) init(1,2) assms(2)]) (use assms(3) post in simp)
  have "replies str cb (posted st) = outbox st @ replies str cb (msg_que st)"
    using inv by (simp add: logic_inv_def replies_def)
  moreover have "\<exists>r. call_back str cb m = Ok r" if "m \<in> set (msg_que st)" for m
    using that assms(3) inv by (auto simp: logic_inv_def simp flip: post)
  ultimately show ?thesis
    using can_drain [OF inv] alive unfolding post [symmetric] worker_alive_def by blast
qed

section \<open>The destructor\<close>

text \<open>
  \<open>~LogicSystem\<close> sets \<open>_b_stop\<close> without the mutex: between the worker's test and its wait,
  the flag and the notification are both missed.
\<close>

definition stuck :: "logic_sys \<Rightarrow> bool" where
  "stuck st \<longleftrightarrow> dtor st = DJoin \<and> worker st = WBlocked \<and> notifies st = 0"

lemma stuck_stays:
  assumes "stuck st" "logic_exec str cb l st = Some st'" "l \<noteq> Spurious" "\<And>m. l \<noteq> PostMsg m"
  shows False
  using assms by (cases l) (auto simp: stuck_def split: if_splits)

end
