(* ===== verification/IdSession.thy ===== *)
theory IdSession
  imports EchoServers LogicSystem
begin

text \<open>
  The four-byte header of the servers with a message id, and the sessions that post every
  message to the \<open>LogicSystem\<close>: the header format shown to satisfy \<open>frame_protocol\<close>, its
  encoder, and the locale \<open>logic_session\<close> that follows a stream from the socket through the
  queue of the worker to the replies.
\<close>

section \<open>The four-byte header\<close>

text \<open>Id and length in network order; both are refused above \<open>MAX_LENGTH\<close>.\<close>

definition id_head :: "byte list \<Rightarrow> (short \<times> short) option" where
  "id_head bs =
     (let mid = swap16 (le_short bs) in
      if short_val mid > int MAX_LENGTH then None
      else let mlen = swap16 (le_short (drop 2 bs)) in
           if short_val mlen > int MAX_LENGTH then None else Some (mid, mlen))"

definition id_enc :: "short \<times> byte list \<Rightarrow> byte list" where
  "id_enc m = le_bytes (swap16 (fst m)) @ le_bytes (swap16 (word_of_nat (length (snd m)))) @ snd m"

definition id_msg :: "short \<times> byte list \<Rightarrow> bool" where
  "id_msg m \<longleftrightarrow> short_val (fst m) \<le> int MAX_LENGTH \<and> length (snd m) \<le> MAX_LENGTH"

definition sendable :: "short \<times> byte list \<Rightarrow> bool" where
  "sendable m \<longleftrightarrow> length (snd m) + 4 < 2 ^ 15"

lemma RecvNode_fresh:
  "0 \<le> short_val l \<Longrightarrow> RecvNode l i = Ok (fresh_node i (nat (short_val l)))"
  by (simp add: RecvNode_def nul_MsgNode_def new_char_array_def buf_put_def cxx_simps fresh_node_def
      nat_add_distrib list_update_same_conv del: replicate_Suc)

lemma le_short_take4 [simp]: "le_short (take 4 bs) = le_short bs" "le_short (drop 2 (take 4 bs)) = le_short (drop 2 bs)"
  by (simp add: le_short_def) (simp add: drop_take)

lemma id_protocol:
  assumes "head_len P = 4" "parse_head P = id_head" "new_node P = RecvNode"
  shows "frame_protocol P"
proof
  show "new_node P (word_of_nat (head_len P)) 0 = Ok (fresh_node 0 (head_len P))"
    using assms RecvNode_fresh [of "word_of_nat 4" 0] by (simp del: of_nat_numeral)
qed (use assms in \<open>auto simp: id_head_def Let_def RecvNode_fresh split: if_splits\<close>)

lemma id_enc_frame:
  assumes "head_len P = 4" "parse_head P = id_head" "id_msg m"
  shows "next_frame P (id_enc m @ rest) = Frame (fst m) (snd m) rest"
proof -
  have d: "drop 2 (take 4 (id_enc m @ rest)) = le_bytes (swap16 (word_of_nat (length (snd m))))"
    "take 4 (id_enc m @ rest) = le_bytes (swap16 (fst m)) @ le_bytes (swap16 (word_of_nat (length (snd m))))"
    by (simp_all add: id_enc_def numeral_eq_Suc le_bytes_def)
  have t: "id_head (take 4 (id_enc m @ rest)) = Some (fst m, word_of_nat (length (snd m)))"
    using assms(3) unfolding id_head_def d(2) by (simp add: d(2) le_bytes_take id_msg_def MAX_LENGTH_def Let_def)
  have l: "short_val (word_of_nat (length (snd m))) = int (length (snd m))"
    using assms(3) by (simp add: id_msg_def MAX_LENGTH_def)
  have n: "length (id_enc m @ rest) = 4 + length (snd m) + length rest"
    "drop 4 (id_enc m @ rest) = snd m @ rest" "drop (4 + length (snd m)) (id_enc m @ rest) = rest"
    by (simp_all add: id_enc_def numeral_eq_Suc le_bytes_def)
  show ?thesis
    unfolding next_frame_def assms(1,2) t n by (simp add: l n(3) del: drop_append)
qed

lemma id_recode:
  assumes "head_len P = 4" "parse_head P = id_head" "next_frame P bs = Frame mid body rest"
  shows "bs = id_enc (mid, body) @ rest" "id_msg (mid, body)"
proof -
  let ?l = "swap16 (le_short (drop 2 bs))"
  have len: "4 \<le> length bs" "0 \<le> short_val ?l" "\<not> length bs < 4 + nat (short_val ?l)"
    "mid = swap16 (le_short bs)" "short_val ?l \<le> int MAX_LENGTH" "short_val mid \<le> int MAX_LENGTH"
    and b: "body = take (nat (short_val ?l)) (drop 4 bs)" "rest = drop (4 + nat (short_val ?l)) bs"
    using assms by (auto simp: next_frame_def id_head_def Let_def split: if_splits)
  have lb: "length body = nat (short_val ?l)" using b len by simp
  then have wl: "word_of_nat (length body) = ?l" using len by simp
  have "take 2 bs @ take 2 (drop 2 bs) = take 4 bs"
    using take_add [of 2 2 bs] by simp
  then have pe: "id_enc (mid, body) = take 4 bs @ body"
    using len wl by (simp add: id_enc_def le_bytes_short)
  have dd: "drop (4 + nat (short_val ?l)) bs = drop (nat (short_val ?l)) (drop 4 bs)"
    by (simp add: add.commute)
  show "bs = id_enc (mid, body) @ rest"
    unfolding pe unfolding b dd by (simp only: append_assoc append_take_drop_id)
  show "id_msg (mid, body)" using lb len by (simp add: id_msg_def MAX_LENGTH_def)
qed

section \<open>Sending with an id\<close>

lemma logic_SendNode_wire:
  assumes "sendable m"
  shows "\<exists>n. logic_SendNode (snd m) (word_of_nat (length (snd m))) (fst m) = Ok n \<and>
    wire_ok n \<and> wire_bytes n = id_enc m"
proof -
  let ?k = "length (snd m)"
  have k: "?k + 4 < 2 ^ 15" "?k \<le> length (snd m)" using assms by (auto simp: sendable_def)
  have tk: "take ?k (snd m) = snd m" by simp
  define t :: short where "t = word_of_nat (?k + 4)"
  have sv: "short_val t = int (?k + 4)" using k unfolding t_def by (intro short_of_nat) simp
  have node: "logic_SendNode (snd m) (word_of_nat ?k) (fst m) =
      Ok \<lparr>cur_len = 0, total_len = t, node_data = le_bytes (swap16 (fst m)) @
          le_bytes (swap16 (word_of_nat ?k)) @ snd m @ [0], msg_id = fst m\<rparr>"
    using id_SendNode_Ok [OF k, of "fst m"] unfolding tk t_def logic_SendNode_def .
  have nn: "nat (int (?k + 4)) = 4 + ?k" by simp
  show ?thesis
    by (simp add: node wire_ok_def wire_bytes_def id_enc_def sv nn del: of_nat_add)
qed

lemma id_send_pump:
  assumes "\<And>st m. sendable m \<Longrightarrow> send st m =
    send_with full (logic_SendNode (snd m) (word_of_nat (length (snd m))) (fst m)) st"
  shows "write_pump send full id_enc sendable"
proof
  fix m assume m: "sendable m"
  then obtain n where "logic_SendNode (snd m) (word_of_nat (length (snd m))) (fst m) = Ok n"
    "wire_ok n" "wire_bytes n = id_enc m"
    using logic_SendNode_wire by blast
  then show "\<exists>n. wire_ok n \<and> wire_bytes n = id_enc m \<and>
      (\<forall>st. send st m = Ok (if full (length (send_que st)) then st else enqueue n st))"
    using assms [OF m] by (intro exI [of _ n]) (simp add: send_with_Ok)
qed

section \<open>Sessions that post to the LogicSystem\<close>

definition posting :: "string \<Rightarrow> short \<times> byte list \<Rightarrow> logic_node" where
  "posting uuid m = (uuid, full_node (fst m) (snd m))"

lemma PostMsgToQue_inv:
  assumes "logic_inv str cb st" "mutex_free st"
  shows "logic_inv str cb (PostMsgToQue m st)" "mutex_free (PostMsgToQue m st)"
    "posted (PostMsgToQue m st) = posted st @ [m]" "worker (PostMsgToQue m st) = worker st"
  using assms by (auto simp: logic_inv_def mutex_free_def PostMsgToQue_def Let_def)

lemma full_node_string:
  "length body < 2 ^ 15 \<Longrightarrow> node_string cur_len (full_node mid body) = Ok body"
  "length body < 2 ^ 15 \<Longrightarrow> node_string total_len (full_node mid body) = Ok body"
  by (simp_all add: node_string_def full_node_def size_of_int_of_nat)

locale logic_session = frame_protocol P for P :: "logic_sys proto" +
  fixes uuid :: string
  assumes dispatch_post: "dispatch P st n = Ok (PostMsgToQue (uuid, n) st)"
begin

lemma post_all:
  assumes "logic_inv str cb st" "mutex_free st"
  shows "\<exists>st'. cxx_fold (deliver_msg P) st ms = Ok st' \<and> logic_inv str cb st' \<and> mutex_free st' \<and>
     posted st' = posted st @ map (posting uuid) ms \<and> worker st' = worker st"
  using assms
proof (induction ms arbitrary: st)
  case (Cons m ms)
  note p = PostMsgToQue_inv [OF Cons.prems, of "posting uuid m"]
  obtain st' where "cxx_fold (deliver_msg P) (PostMsgToQue (posting uuid m) st) ms = Ok st'"
    "logic_inv str cb st'" "mutex_free st'" "worker st' = worker st"
    "posted st' = posted st @ posting uuid m # map (posting uuid) ms"
    using Cons.IH [OF p(1,2)] p(3,4) by auto
  moreover have "deliver_msg P st m = Ok (PostMsgToQue (posting uuid m) st)"
    by (simp add: deliver_msg_def dispatch_post posting_def)
  ultimately show ?case by (simp add: cxx_simps)
qed simp

text \<open>Every cutting of the stream posts its messages, in order, and keeps the rest pending.\<close>

lemma posts_law:
  assumes "\<And>c. c \<in> set cs \<Longrightarrow> chunk_ok c" "parse_stream P (concat cs) = (ms, Pending p)"
    and "logic_inv str cb st" "mutex_free st"
  shows "\<exists>s0 s. start_session P st = Ok s0 \<and> feeds (feed P) s0 cs = Some s \<and> pending P s = p \<and>
     logic_inv str cb (world s) \<and> mutex_free (world s) \<and> worker (world s) = worker st \<and>
     posted (world s) = posted st @ map (posting uuid) ms"
proof -
  obtain st' where "cxx_fold (deliver_msg P) st ms = Ok st'" "logic_inv str cb st'" "mutex_free st'"
    "posted st' = posted st @ map (posting uuid) ms" "worker st' = worker st"
    using post_all [OF assms(3,4)] by blast
  with session_law [OF assms(1,2)] show ?thesis by metis
qed

lemma posts_new:
  assumes "\<And>c. c \<in> set cs \<Longrightarrow> chunk_ok c" "parse_stream P (concat cs) = (ms, Pending p)"
  shows "\<exists>s0 s. start_session P new_LogicSystem = Ok s0 \<and> feeds (feed P) s0 cs = Some s \<and>
     pending P s = p \<and> posted (world s) = map (posting uuid) ms"
  using posts_law [OF assms, of "\<lambda>_. UB" "\<lambda>_. UB" new_LogicSystem]
  by (auto simp: new_LogicSystem_def logic_inv_def mutex_free_def replies_def)

text \<open>
  From the socket to the callbacks: once the stream is in, the worker can handle all of it,
  and what it sends is the reply of each message in order.
\<close>

lemma served:
  assumes "\<And>c. c \<in> set cs \<Longrightarrow> chunk_ok c" "parse_stream P (concat cs) = (ms, Pending p)"
    and "\<And>m. m \<in> set ms \<Longrightarrow> \<exists>r. call_back str cb (posting uuid m) = Ok r"
  shows "\<exists>s0 s ls st. start_session P new_LogicSystem = Ok s0 \<and> feeds (feed P) s0 cs = Some s \<and>
     pending P s = p \<and> set ls \<subseteq> {Lock, Test, Notify} \<and> logic_run str cb ls (world s) = Some st \<and>
     msg_que st = [] \<and> outbox st = replies str cb (map (posting uuid) ms)"
proof -
  have init: "logic_inv str cb new_LogicSystem" "mutex_free new_LogicSystem" "worker new_LogicSystem = WLock"
    "posted new_LogicSystem = []"
    by (simp_all add: new_LogicSystem_def logic_inv_def mutex_free_def replies_def)
  obtain s0 s where s: "start_session P new_LogicSystem = Ok s0" "feeds (feed P) s0 cs = Some s" "pending P s = p"
    "logic_inv str cb (world s)" "worker (world s) = WLock" "posted (world s) = map (posting uuid) ms"
    using posts_law [OF assms(1,2) init(1,2)] init(3,4) by auto
  have "set (msg_que (world s)) \<subseteq> set (posted (world s))" using s(4) by (auto simp: logic_inv_def)
  then have "\<exists>r. call_back str cb m = Ok r" if "m \<in> set (msg_que (world s))" for m
    using that assms(3) s(6) by auto
  then show ?thesis using can_drain [OF s(4)] s by (metis worker_pc.distinct(7,9))
qed

end

end
