(* ===== verification/LogicServers.thy ===== *)
theory LogicServers
  imports IdSession
begin

text \<open>
  The servers that hand messages to a \<open>LogicSystem\<close>: \<open>LogicServer01\<close> (\<open>lg1\<close>),
  \<open>LogicServer02\<close> (\<open>lg2\<close>), \<open>IoContextPoolServer\<close> (\<open>iop\<close>), \<open>ThreadPoolServer\<close> (\<open>thp\<close>) and
  \<open>StrandPoolServer\<close> (\<open>stp\<close>).  Each has its own copy of the session, the nodes, the logic
  system and the server, so each has its own definitions here, over the shared ones.  A
  handler of \<open>thp\<close> is taken as one step, as the strand makes it in \<open>stp\<close>.
\<close>

section \<open>LogicServer/LogicServer01\<close>

definition lg1_MsgNode :: "short \<Rightarrow> msg_node cxx" where
  "lg1_MsgNode max_len = nul_MsgNode max_len"

definition lg1_RecvNode :: "short \<Rightarrow> short \<Rightarrow> msg_node cxx" where
  "lg1_RecvNode max_len mid = RecvNode max_len mid"

definition lg1_SendNode :: "byte list \<Rightarrow> short \<Rightarrow> short \<Rightarrow> msg_node cxx" where
  "lg1_SendNode msg max_len mid = logic_SendNode msg max_len mid"

definition lg1_Send_string :: "byte list \<Rightarrow> short \<Rightarrow> send_state \<Rightarrow> send_state cxx" where
  "lg1_Send_string msg msgid st =
     send_with que_full (lg1_SendNode msg (word_of_nat (length msg)) msgid) st"

definition lg1_Send :: "byte list \<Rightarrow> short \<Rightarrow> short \<Rightarrow> send_state \<Rightarrow> send_state cxx" where
  "lg1_Send msg max_length msgid st = send_with que_full (lg1_SendNode msg max_length msgid) st"

definition lg1_HandleWrite :: "bool \<Rightarrow> send_state \<Rightarrow> write_end cxx" where
  "lg1_HandleWrite error st = handle_write error st"

definition lg1_proto :: "string \<Rightarrow> logic_sys proto" where
  "lg1_proto uuid = \<lparr>head_len = 4, parse_head = id_head, new_node = lg1_RecvNode,
     dispatch = (\<lambda>st n. Ok (PostMsgToQue (uuid, n) st)), catches = True\<rparr>"

definition lg1_Start :: "string \<Rightarrow> logic_sys \<Rightarrow> logic_sys rsession cxx" where
  "lg1_Start uuid st = start_session (lg1_proto uuid) st"

definition lg1_HandleRead ::
  "string \<Rightarrow> bool \<Rightarrow> nat \<Rightarrow> logic_sys rsession \<Rightarrow> logic_sys read_end option" where
  "lg1_HandleRead uuid error bytes_transferred s =
     handle_read (lg1_proto uuid) error bytes_transferred s"

definition lg1_LogicSystem :: "'v json_api \<Rightarrow> logic_label \<Rightarrow> logic_sys \<Rightarrow> logic_sys option" where
  "lg1_LogicSystem api l st = logic_exec (node_string cur_len) (HelloWorldCallBack api) l st"

definition lg1_CServer_step ::
  "logic_sys server \<times> logic_sys \<Rightarrow> server_event \<Rightarrow> logic_sys server \<times> logic_sys" where
  "lg1_CServer_step sg e = shared_step lg1_proto sg e"

interpretation lg1: logic_session "lg1_proto uuid" uuid for uuid
proof (intro logic_session.intro id_protocol)
  have [simp]: "lg1_RecvNode = RecvNode" by (intro ext) (simp add: lg1_RecvNode_def)
  show "new_node (lg1_proto uuid) = RecvNode" by (simp add: lg1_proto_def)
qed (simp_all add: lg1_proto_def logic_session_axioms_def)

interpretation lg1_pump: write_pump "\<lambda>st m. lg1_Send_string (snd m) (fst m) st" que_full id_enc sendable
  by (rule id_send_pump) (simp add: lg1_Send_string_def lg1_SendNode_def)

section \<open>LogicServer/LogicServer02\<close>

definition lg2_MsgNode :: "short \<Rightarrow> msg_node cxx" where
  "lg2_MsgNode max_len = nul_MsgNode max_len"

definition lg2_RecvNode :: "short \<Rightarrow> short \<Rightarrow> msg_node cxx" where
  "lg2_RecvNode max_len mid = RecvNode max_len mid"

definition lg2_SendNode :: "byte list \<Rightarrow> short \<Rightarrow> short \<Rightarrow> msg_node cxx" where
  "lg2_SendNode msg max_len mid = logic_SendNode msg max_len mid"

definition lg2_Send_string :: "byte list \<Rightarrow> short \<Rightarrow> send_state \<Rightarrow> send_state cxx" where
  "lg2_Send_string msg msgid st =
     send_with que_full (lg2_SendNode msg (word_of_nat (length msg)) msgid) st"

definition lg2_Send :: "byte list \<Rightarrow> short \<Rightarrow> short \<Rightarrow> send_state \<Rightarrow> send_state cxx" where
  "lg2_Send msg max_length msgid st = send_with que_full (lg2_SendNode msg max_length msgid) st"

definition lg2_HandleWrite :: "bool \<Rightarrow> send_state \<Rightarrow> write_end cxx" where
  "lg2_HandleWrite error st = handle_write error st"

definition lg2_proto :: "string \<Rightarrow> logic_sys proto" where
  "lg2_proto uuid = \<lparr>head_len = 4, parse_head = id_head, new_node = lg2_RecvNode,
     dispatch = (\<lambda>st n. Ok (PostMsgToQue (uuid, n) st)), catches = True\<rparr>"

definition lg2_Start :: "string \<Rightarrow> logic_sys \<Rightarrow> logic_sys rsession cxx" where
  "lg2_Start uuid st = start_session (lg2_proto uuid) st"

definition lg2_HandleRead ::
  "string \<Rightarrow> bool \<Rightarrow> nat \<Rightarrow> logic_sys rsession \<Rightarrow> logic_sys read_end option" where
  "lg2_HandleRead uuid error bytes_transferred s =
     handle_read (lg2_proto uuid) error bytes_transferred s"

definition lg2_LogicSystem :: "'v json_api \<Rightarrow> logic_label \<Rightarrow> logic_sys \<Rightarrow> logic_sys option" where
  "lg2_LogicSystem api l st = logic_exec (node_string cur_len) (HelloWorldCallBack api) l st"

definition lg2_CServer_step ::
  "logic_sys server \<times> logic_sys \<Rightarrow> server_event \<Rightarrow> logic_sys server \<times> logic_sys" where
  "lg2_CServer_step sg e = shared_step lg2_proto sg e"

interpretation lg2: logic_session "lg2_proto uuid" uuid for uuid
proof (intro logic_session.intro id_protocol)
  have [simp]: "lg2_RecvNode = RecvNode" by (intro ext) (simp add: lg2_RecvNode_def)
  show "new_node (lg2_proto uuid) = RecvNode" by (simp add: lg2_proto_def)
qed (simp_all add: lg2_proto_def logic_session_axioms_def)

interpretation lg2_pump: write_pump "\<lambda>st m. lg2_Send_string (snd m) (fst m) st" que_full id_enc sendable
  by (rule id_send_pump) (simp add: lg2_Send_string_def lg2_SendNode_def)

section \<open>IoContextPoolServer/IoContextPoolServer\<close>

definition iop_MsgNode :: "short \<Rightarrow> msg_node cxx" where
  "iop_MsgNode max_len = nul_MsgNode max_len"

definition iop_RecvNode :: "short \<Rightarrow> short \<Rightarrow> msg_node cxx" where
  "iop_RecvNode max_len mid = RecvNode max_len mid"

definition iop_SendNode :: "byte list \<Rightarrow> short \<Rightarrow> short \<Rightarrow> msg_node cxx" where
  "iop_SendNode msg max_len mid = logic_SendNode msg max_len mid"

definition iop_Send_string :: "byte list \<Rightarrow> short \<Rightarrow> send_state \<Rightarrow> send_state cxx" where
  "iop_Send_string msg msgid st =
     send_with que_full (iop_SendNode msg (word_of_nat (length msg)) msgid) st"

definition iop_Send :: "byte list \<Rightarrow> short \<Rightarrow> short \<Rightarrow> send_state \<Rightarrow> send_state cxx" where
  "iop_Send msg max_length msgid st = send_with que_full (iop_SendNode msg max_length msgid) st"

definition iop_HandleWrite :: "bool \<Rightarrow> send_state \<Rightarrow> write_end cxx" where
  "iop_HandleWrite error st = handle_write error st"

definition iop_proto :: "string \<Rightarrow> logic_sys proto" where
  "iop_proto uuid = \<lparr>head_len = 4, parse_head = id_head, new_node = iop_RecvNode,
     dispatch = (\<lambda>st n. Ok (PostMsgToQue (uuid, n) st)), catches = True\<rparr>"

definition iop_Start :: "string \<Rightarrow> logic_sys \<Rightarrow> logic_sys rsession cxx" where
  "iop_Start uuid st = start_session (iop_proto uuid) st"

definition iop_HandleRead ::
  "string \<Rightarrow> bool \<Rightarrow> nat \<Rightarrow> logic_sys rsession \<Rightarrow> logic_sys read_end option" where
  "iop_HandleRead uuid error bytes_transferred s =
     handle_read (iop_proto uuid) error bytes_transferred s"

definition iop_LogicSystem :: "'v json_api \<Rightarrow> logic_label \<Rightarrow> logic_sys \<Rightarrow> logic_sys option" where
  "iop_LogicSystem api l st = logic_exec (node_string cur_len) (HelloWorldCallBack api) l st"

definition iop_CServer_step ::
  "logic_sys server \<times> logic_sys \<Rightarrow> server_event \<Rightarrow> logic_sys server \<times> logic_sys" where
  "iop_CServer_step sg e = shared_step iop_proto sg e"

interpretation iop: logic_session "iop_proto uuid" uuid for uuid
proof (intro logic_session.intro id_protocol)
  have [simp]: "iop_RecvNode = RecvNode" by (intro ext) (simp add: iop_RecvNode_def)
  show "new_node (iop_proto uuid) = RecvNode" by (simp add: iop_proto_def)
qed (simp_all add: iop_proto_def logic_session_axioms_def)

interpretation iop_pump: write_pump "\<lambda>st m. iop_Send_string (snd m) (fst m) st" que_full id_enc sendable
  by (rule id_send_pump) (simp add: iop_Send_string_def iop_SendNode_def)

section \<open>ThreadPoolServer/ThreadPoolServer\<close>

definition thp_MsgNode :: "short \<Rightarrow> msg_node cxx" where
  "thp_MsgNode max_len = nul_MsgNode max_len"

definition thp_RecvNode :: "short \<Rightarrow> short \<Rightarrow> msg_node cxx" where
  "thp_RecvNode max_len mid = RecvNode max_len mid"

definition thp_SendNode :: "byte list \<Rightarrow> short \<Rightarrow> short \<Rightarrow> msg_node cxx" where
  "thp_SendNode msg max_len mid = logic_SendNode msg max_len mid"

definition thp_Send_string :: "byte list \<Rightarrow> short \<Rightarrow> send_state \<Rightarrow> send_state cxx" where
  "thp_Send_string msg msgid st =
     send_with que_full (thp_SendNode msg (word_of_nat (length msg)) msgid) st"

definition thp_Send :: "byte list \<Rightarrow> short \<Rightarrow> short \<Rightarrow> send_state \<Rightarrow> send_state cxx" where
  "thp_Send msg max_length msgid st = send_with que_full (thp_SendNode msg max_length msgid) st"

definition thp_HandleWrite :: "bool \<Rightarrow> send_state \<Rightarrow> write_end cxx" where
  "thp_HandleWrite error st = handle_write error st"

definition thp_proto :: "string \<Rightarrow> logic_sys proto" where
  "thp_proto uuid = \<lparr>head_len = 4, parse_head = id_head, new_node = thp_RecvNode,
     dispatch = (\<lambda>st n. Ok (PostMsgToQue (uuid, n) st)), catches = True\<rparr>"

definition thp_Start :: "string \<Rightarrow> logic_sys \<Rightarrow> logic_sys rsession cxx" where
  "thp_Start uuid st = start_session (thp_proto uuid) st"

definition thp_HandleRead ::
  "string \<Rightarrow> bool \<Rightarrow> nat \<Rightarrow> logic_sys rsession \<Rightarrow> logic_sys read_end option" where
  "thp_HandleRead uuid error bytes_transferred s =
     handle_read (thp_proto uuid) error bytes_transferred s"

definition thp_LogicSystem :: "'v json_api \<Rightarrow> logic_label \<Rightarrow> logic_sys \<Rightarrow> logic_sys option" where
  "thp_LogicSystem api l st = logic_exec (node_string cur_len) (HelloWorldCallBack api) l st"

definition thp_CServer_step ::
  "logic_sys server \<times> logic_sys \<Rightarrow> server_event \<Rightarrow> logic_sys server \<times> logic_sys" where
  "thp_CServer_step sg e = shared_step thp_proto sg e"

interpretation thp: logic_session "thp_proto uuid" uuid for uuid
proof (intro logic_session.intro id_protocol)
  have [simp]: "thp_RecvNode = RecvNode" by (intro ext) (simp add: thp_RecvNode_def)
  show "new_node (thp_proto uuid) = RecvNode" by (simp add: thp_proto_def)
qed (simp_all add: thp_proto_def logic_session_axioms_def)

interpretation thp_pump: write_pump "\<lambda>st m. thp_Send_string (snd m) (fst m) st" que_full id_enc sendable
  by (rule id_send_pump) (simp add: thp_Send_string_def thp_SendNode_def)

section \<open>ThreadPoolServer/StrandPoolServer\<close>

definition stp_MsgNode :: "short \<Rightarrow> msg_node cxx" where
  "stp_MsgNode max_len = nul_MsgNode max_len"

definition stp_RecvNode :: "short \<Rightarrow> short \<Rightarrow> msg_node cxx" where
  "stp_RecvNode max_len mid = RecvNode max_len mid"

definition stp_SendNode :: "byte list \<Rightarrow> short \<Rightarrow> short \<Rightarrow> msg_node cxx" where
  "stp_SendNode msg max_len mid = logic_SendNode msg max_len mid"

definition stp_Send_string :: "byte list \<Rightarrow> short \<Rightarrow> send_state \<Rightarrow> send_state cxx" where
  "stp_Send_string msg msgid st =
     send_with que_full (stp_SendNode msg (word_of_nat (length msg)) msgid) st"

definition stp_Send :: "byte list \<Rightarrow> short \<Rightarrow> short \<Rightarrow> send_state \<Rightarrow> send_state cxx" where
  "stp_Send msg max_length msgid st = send_with que_full (stp_SendNode msg max_length msgid) st"

definition stp_HandleWrite :: "bool \<Rightarrow> send_state \<Rightarrow> write_end cxx" where
  "stp_HandleWrite error st = handle_write error st"

definition stp_proto :: "string \<Rightarrow> logic_sys proto" where
  "stp_proto uuid = \<lparr>head_len = 4, parse_head = id_head, new_node = stp_RecvNode,
     dispatch = (\<lambda>st n. Ok (PostMsgToQue (uuid, n) st)), catches = True\<rparr>"

definition stp_Start :: "string \<Rightarrow> logic_sys \<Rightarrow> logic_sys rsession cxx" where
  "stp_Start uuid st = start_session (stp_proto uuid) st"

definition stp_HandleRead ::
  "string \<Rightarrow> bool \<Rightarrow> nat \<Rightarrow> logic_sys rsession \<Rightarrow> logic_sys read_end option" where
  "stp_HandleRead uuid error bytes_transferred s =
     handle_read (stp_proto uuid) error bytes_transferred s"

definition stp_LogicSystem :: "'v json_api \<Rightarrow> logic_label \<Rightarrow> logic_sys \<Rightarrow> logic_sys option" where
  "stp_LogicSystem api l st = logic_exec (node_string cur_len) (HelloWorldCallBack api) l st"

definition stp_CServer_step ::
  "logic_sys server \<times> logic_sys \<Rightarrow> server_event \<Rightarrow> logic_sys server \<times> logic_sys" where
  "stp_CServer_step sg e = shared_step stp_proto sg e"

interpretation stp: logic_session "stp_proto uuid" uuid for uuid
proof (intro logic_session.intro id_protocol)
  have [simp]: "stp_RecvNode = RecvNode" by (intro ext) (simp add: stp_RecvNode_def)
  show "new_node (stp_proto uuid) = RecvNode" by (simp add: stp_proto_def)
qed (simp_all add: stp_proto_def logic_session_axioms_def)

interpretation stp_pump: write_pump "\<lambda>st m. stp_Send_string (snd m) (fst m) st" que_full id_enc sendable
  by (rule id_send_pump) (simp add: stp_Send_string_def stp_SendNode_def)

end
