(* ===== verification/CoroutineServer.thy ===== *)
theory CoroutineServer
  imports LogicServers
begin

text \<open>
  \<open>CoroutineServer\<close>: \<open>CSession::Start\<close> is a coroutine that reads exactly a header and then
  exactly a body, in place of a state machine over partial reads.  Its grammar is the one
  of the callback servers except for one case: a message of length 0 reads as a closed peer.
\<close>

section \<open>The coroutine\<close>

text \<open>
  \<open>co_buf\<close> are the bytes that have arrived and are not read yet; \<open>co_node\<close> is the node whose
  body is awaited, or nothing while a header is awaited.
\<close>

record co_session =
  co_buf :: "byte list"
  co_node :: "msg_node option"
  co_head :: msg_node
  b_close :: bool
  co_world :: logic_sys

text \<open>
  The coroutine is suspended in an \<open>async_read\<close>, has cleared its session, has closed the socket
  and cleared the session, has left its loop since \<open>_b_close\<close> is set, or is undefined.
\<close>

datatype co_end =
    Suspended co_session
  | CoCleared co_session
  | CoClosed co_session
  | CoLeft co_session
  | CoUndefined

datatype co_iter = CoReturn co_end | CoGoOn co_session

definition co_close :: "co_session \<Rightarrow> co_end" where
  "co_close s = CoClosed (s\<lparr>b_close := True\<rparr>)"

text \<open>The head of the \<open>for\<close> loop: \<open>!_b_close\<close>, \<open>_recv_head_node->Clear()\<close>.\<close>

definition co_loop_head :: "co_session \<Rightarrow> co_iter" where
  "co_loop_head s =
     (if b_close s then CoReturn (CoLeft s)
      else case Clear (co_head s) of
        Ok h \<Rightarrow> CoGoOn (s\<lparr>co_node := None, co_head := h\<rparr>)
      | _ \<Rightarrow> CoReturn CoUndefined)"

definition co_got_head :: "co_session \<Rightarrow> co_iter" where
  "co_got_head s =
     (let s1 = s\<lparr>co_head := (co_head s)\<lparr>node_data := take 4 (co_buf s) @ drop 4 (node_data (co_head s))\<rparr>,
                 co_buf := drop 4 (co_buf s)\<rparr> in
      case id_head (node_data (co_head s1)) of
        None \<Rightarrow> CoReturn (CoCleared s1)
      | Some (mid, mlen) \<Rightarrow>
          (case RecvNode mlen mid of
             Ok n \<Rightarrow> CoGoOn (s1\<lparr>co_node := Some n\<rparr>)
           | Throw _ \<Rightarrow> CoReturn (co_close s1)
           | UB \<Rightarrow> CoReturn CoUndefined))"

text \<open>A completed body read of \<open>k\<close> bytes; \<open>n == 0\<close> is taken for a closed peer.\<close>

definition co_got_body :: "string \<Rightarrow> co_session \<Rightarrow> msg_node \<Rightarrow> nat \<Rightarrow> co_iter" where
  "co_got_body uuid s n k =
     (if k = 0 then CoReturn (co_close s)
      else case buf_put (take k (co_buf s) @ drop k (node_data n)) (short_val (total_len n)) 0 of
             Ok d \<Rightarrow> co_loop_head
               (s\<lparr>co_buf := drop k (co_buf s),
                  co_world := PostMsgToQue (uuid, n\<lparr>node_data := d\<rparr>) (co_world s)\<rparr>)
           | _ \<Rightarrow> CoReturn CoUndefined)"

definition co_iter :: "string \<Rightarrow> co_session \<Rightarrow> co_iter" where
  "co_iter uuid s =
     (case co_node s of
        None \<Rightarrow> if length (co_buf s) < 4 then CoReturn (Suspended s) else co_got_head s
      | Some n \<Rightarrow>
          (let k = size_of_int (short_val (total_len n)) in
           if length (node_data n) < k then CoReturn CoUndefined
           else if length (co_buf s) < k then CoReturn (Suspended s)
           else co_got_body uuid s n k))"

fun co_run :: "nat \<Rightarrow> string \<Rightarrow> co_session \<Rightarrow> co_end option" where
  "co_run 0 uuid s = None"
| "co_run (Suc fuel) uuid s =
     (case co_iter uuid s of CoReturn r \<Rightarrow> Some r | CoGoOn s' \<Rightarrow> co_run fuel uuid s')"

definition co_arrive :: "string \<Rightarrow> co_session \<Rightarrow> byte list \<Rightarrow> co_end option" where
  "co_arrive uuid s c =
     (let s' = s\<lparr>co_buf := co_buf s @ c\<rparr> in co_run (Suc (length (co_buf s'))) uuid s')"

text \<open>End of file or an error: \<open>async_read\<close> throws, the handler closes and clears.\<close>

definition co_eof :: "co_session \<Rightarrow> co_end" where
  "co_eof s = co_close s"

definition co_feed :: "string \<Rightarrow> co_session \<Rightarrow> byte list \<Rightarrow> co_session option" where
  "co_feed uuid s c = (case co_arrive uuid s c of Some (Suspended s') \<Rightarrow> Some s' | _ \<Rightarrow> None)"

text \<open>Constructor and the first steps of the coroutine, up to its first \<open>async_read\<close>.\<close>

definition co_Start :: "logic_sys \<Rightarrow> co_session cxx" where
  "co_Start st =
     cxx_bind (nul_MsgNode 4) (\<lambda>h. cxx_bind (Clear h) (\<lambda>h'.
       Ok \<lparr>co_buf = [], co_node = None, co_head = h', b_close = False, co_world = st\<rparr>))"

section \<open>Sending and the logic system\<close>

definition co_SendNode :: "byte list \<Rightarrow> short \<Rightarrow> short \<Rightarrow> msg_node cxx" where
  "co_SendNode msg max_len mid = logic_SendNode msg max_len mid"

definition co_Send :: "byte list \<Rightarrow> short \<Rightarrow> short \<Rightarrow> send_state \<Rightarrow> send_state cxx" where
  "co_Send msg max_length msgid st = send_with que_full (co_SendNode msg max_length msgid) st"

definition co_Send_string :: "byte list \<Rightarrow> short \<Rightarrow> send_state \<Rightarrow> send_state cxx" where
  "co_Send_string msg msgid st = co_Send msg (word_of_nat (length msg)) msgid st"

definition co_HandleWrite :: "bool \<Rightarrow> send_state \<Rightarrow> write_end cxx" where
  "co_HandleWrite error st = handle_write error st"

definition co_LogicSystem :: "'v json_api \<Rightarrow> logic_label \<Rightarrow> logic_sys \<Rightarrow> logic_sys option" where
  "co_LogicSystem api l st = logic_exec (node_string total_len) (HelloWorldCallBack api) l st"

interpretation co_pump: write_pump "\<lambda>st m. co_Send_string (snd m) (fst m) st" que_full id_enc sendable
  by (rule id_send_pump) (simp add: co_Send_string_def co_Send_def co_SendNode_def)

section \<open>The coroutine and the callback servers read the same messages\<close>

text \<open>The node posted for a message: \<open>_cur_len\<close> is never advanced.\<close>

definition co_full_node :: "short \<Rightarrow> byte list \<Rightarrow> msg_node" where
  "co_full_node mid body = (full_node mid body)\<lparr>cur_len := 0\<rparr>"

definition co_posting :: "string \<Rightarrow> short \<times> byte list \<Rightarrow> logic_node" where
  "co_posting uuid m = (uuid, co_full_node (fst m) (snd m))"

definition co_disp :: "string \<Rightarrow> logic_sys \<Rightarrow> short \<times> byte list \<Rightarrow> logic_sys cxx" where
  "co_disp uuid st m = (if snd m = [] then Throw OtherError else Ok (PostMsgToQue (co_posting uuid m) st))"

definition co_ok :: "co_session \<Rightarrow> bool" where
  "co_ok s \<longleftrightarrow> \<not> b_close s \<and> total_len (co_head s) = 4 \<and> length (node_data (co_head s)) = 5 \<and>
     (case co_node s of None \<Rightarrow> True
      | Some n \<Rightarrow> \<exists>mid len. n = fresh_node mid len \<and> len \<le> MAX_LENGTH \<and>
          id_head (take 4 (node_data (co_head s))) = Some (mid, word_of_nat len))"

definition co_pending :: "co_session \<Rightarrow> byte list" where
  "co_pending s =
     (case co_node s of None \<Rightarrow> co_buf s | Some _ \<Rightarrow> take 4 (node_data (co_head s)) @ co_buf s)"

lemma lg1_sel [simp]: "head_len (lg1_proto uuid) = 4" "parse_head (lg1_proto uuid) = id_head"
  by (simp_all add: lg1_proto_def)

lemma id_head_take4: "id_head (take 4 bs) = id_head bs"
  unfolding id_head_def le_short_take4 ..

lemma id_head_bound: "id_head bs = Some (mid, mlen) \<Longrightarrow> short_val mlen \<le> int MAX_LENGTH"
  by (auto simp: id_head_def Let_def split: if_splits)

lemma co_body_frame:
  assumes "co_ok s" "co_node s = Some n"
  obtains mid len where "n = fresh_node mid len" "len \<le> MAX_LENGTH"
    "size_of_int (short_val (total_len n)) = len"
    "next_frame (lg1_proto u) (co_pending s) =
       (if length (co_buf s) < len then Incomplete else Frame mid (take len (co_buf s)) (drop len (co_buf s)))"
proof -
  obtain mid len where n: "n = fresh_node mid len" "len \<le> MAX_LENGTH"
    "id_head (take 4 (node_data (co_head s))) = Some (mid, word_of_nat len)" "length (node_data (co_head s)) = 5"
    using assms by (auto simp: co_ok_def)
  have l: "short_val (word_of_nat len) = int len" using n(2) by (simp add: MAX_LENGTH_def)
  have "size_of_int (short_val (total_len n)) = len"
    using n(1,2) l by (simp add: size_of_int_of_nat MAX_LENGTH_def)
  moreover have "next_frame (lg1_proto u) (co_pending s) =
      (if length (co_buf s) < len then Incomplete else Frame mid (take len (co_buf s)) (drop len (co_buf s)))"
    using assms n l by (simp add: next_frame_def co_pending_def)
  ultimately show ?thesis using that n by blast
qed

lemma co_run_spec:
  "co_ok s \<Longrightarrow> length (co_buf s) < fuel \<Longrightarrow> parse_stream (lg1_proto u) (co_pending s) = (ms, Pending p) \<Longrightarrow>
     cxx_fold (co_disp uuid) (co_world s) ms = Ok w \<Longrightarrow>
     \<exists>s'. co_run fuel uuid s = Some (Suspended s') \<and> co_ok s' \<and> co_pending s' = p \<and> co_world s' = w \<and>
       next_frame (lg1_proto u) p = Incomplete"
proof (induction fuel arbitrary: s ms)
  case 0
  then show ?case by simp
next
  case (Suc fuel)
  show ?case
  proof (cases "co_node s")
    case None
    show ?thesis
    proof (cases "length (co_buf s) < 4")
      case True
      then have "next_frame (lg1_proto u) (co_pending s) = Incomplete"
        using None by (simp add: next_frame_def co_pending_def)
      then show ?thesis using Suc.prems None True by (auto simp: parse_stream_cases co_iter_def)
    next
      case False
      let ?h = "(co_head s)\<lparr>node_data := take 4 (co_buf s) @ drop 4 (node_data (co_head s))\<rparr>"
      have nd: "take 4 (node_data ?h) = take 4 (co_buf s)" using False by simp
      have ih: "id_head (node_data ?h) = id_head (take 4 (co_buf s))"
        using id_head_take4 [of "node_data ?h", unfolded nd] by (rule sym)
      obtain mid mlen where h: "id_head (take 4 (co_buf s)) = Some (mid, mlen)" "0 \<le> short_val mlen"
      proof (cases "next_frame (lg1_proto u) (co_buf s)")
        case RefusedHead
        then show ?thesis using Suc.prems(3) None by (simp add: parse_stream_cases co_pending_def)
      next
        case NegativeLen
        then show ?thesis using Suc.prems(3) None by (simp add: parse_stream_cases co_pending_def)
      next
        case Incomplete
        then show ?thesis using that False by (auto simp: next_frame_def split: option.splits if_splits)
      next
        case (Frame a b c)
        then show ?thesis using that False by (auto simp: next_frame_def split: option.splits if_splits)
      qed
      then obtain len where len: "mlen = word_of_nat len" "len < 2 ^ 15"
        using short_val_exhaust by blast
      have lm: "len \<le> MAX_LENGTH" using id_head_bound [OF h(1)] len by simp
      have nn: "RecvNode mlen mid = Ok (fresh_node mid len)"
        using RecvNode_fresh [OF h(2)] len by simp
      let ?s1 = "s\<lparr>co_head := ?h, co_buf := drop 4 (co_buf s), co_node := Some (fresh_node mid len)\<rparr>"
      have go: "co_iter uuid s = CoGoOn ?s1"
        using None False ih h(1) nn by (simp add: co_iter_def co_got_head_def Let_def)
      have ok: "co_ok ?s1" using Suc.prems(1) h(1) len(1) lm nd False
        by (auto simp: co_ok_def)
      have pe: "co_pending ?s1 = co_pending s" using None False by (simp add: co_pending_def)
      show ?thesis
        using Suc.IH [OF ok, of ms] Suc.prems(2-4) False go pe by simp
    qed
  next
    case (Some n)
    obtain mid len where n: "n = fresh_node mid len" "len \<le> MAX_LENGTH"
      "size_of_int (short_val (total_len n)) = len" and nf: "next_frame (lg1_proto u) (co_pending s) =
       (if length (co_buf s) < len then Incomplete else Frame mid (take len (co_buf s)) (drop len (co_buf s)))"
      using co_body_frame [OF Suc.prems(1) Some] by metis
    have ld: "length (node_data n) = Suc len" using n(1) by simp
    show ?thesis
    proof (cases "length (co_buf s) < len")
      case True
      have it: "co_iter uuid s = CoReturn (Suspended s)"
        using Some n(3) ld True by (simp add: co_iter_def)
      show ?thesis using nf True Suc.prems it by (auto simp: parse_stream_cases)
    next
      case False
      let ?body = "take len (co_buf s)" and ?rest = "drop len (co_buf s)"
      have fr: "next_frame (lg1_proto u) (co_pending s) = Frame mid ?body ?rest" using nf False by simp
      obtain ms' where ms: "ms = (mid, ?body) # ms'" "parse_stream (lg1_proto u) ?rest = (ms', Pending p)"
        using Suc.prems(3) by (simp add: parse_stream_Frame [OF fr]) (metis prod.collapse)
      obtain w1 where w1: "co_disp uuid (co_world s) (mid, ?body) = Ok w1"
        and w2: "cxx_fold (co_disp uuid) w1 ms' = Ok w"
        using Suc.prems(4) ms(1) by (auto simp: cxx_bind_eq_Ok)
      have b0: "?body \<noteq> []" and w1': "w1 = PostMsgToQue (co_posting uuid (mid, ?body)) (co_world s)"
        using w1 by (simp_all add: co_disp_def split: if_splits)
      have w': "cxx_fold (co_disp uuid) (PostMsgToQue (co_posting uuid (mid, ?body)) (co_world s)) ms' = Ok w"
        using w2 w1' by simp
      from b0 have len0: "len \<noteq> 0" by auto
      have tl: "short_val (total_len n) = int len" using n(1,2) by (simp add: MAX_LENGTH_def)
      have lb: "length ?body = len" using False by simp
      have dr: "drop len (node_data n) = [0]"
        using n(1) by (simp only: fresh_node_sel drop_replicate) simp
      have put: "buf_put (?body @ drop len (node_data n)) (short_val (total_len n)) 0 = Ok (?body @ [0])"
        unfolding dr tl using buf_put_mid [of ?body "int len" 0 "[]" 0] lb by simp
      have node: "n\<lparr>node_data := ?body @ [0]\<rparr> = co_full_node mid ?body"
        using n(1) lb by (simp add: co_full_node_def full_node_def fresh_node_def)
      obtain h' where h': "Clear (co_head s) = Ok h'" "total_len h' = 4" "length (node_data h') = 5"
        using Suc.prems(1) by (auto simp: co_ok_def Clear_def size_of_int_nonneg)
      let ?s1 = "s\<lparr>co_buf := ?rest, co_world := PostMsgToQue (co_posting uuid (mid, ?body)) (co_world s),
          co_node := None, co_head := h'\<rparr>"
      have alive: "\<not> b_close s" using Suc.prems(1) by (simp add: co_ok_def)
      have go: "co_iter uuid s = CoGoOn ?s1"
        using alive Some n(3) ld False len0 put node h'(1)
        by (simp add: co_iter_def co_got_body_def co_loop_head_def co_posting_def)
      have ok: "co_ok ?s1" using Suc.prems(1) h' by (simp add: co_ok_def)
      have "\<exists>s'. co_run fuel uuid ?s1 = Some (Suspended s') \<and> co_ok s' \<and> co_pending s' = p \<and> co_world s' = w \<and>
          next_frame (lg1_proto u) p = Incomplete"
      proof (rule Suc.IH [OF ok])
        show "length (co_buf ?s1) < fuel" using Suc.prems(2) len0 False by simp
        show "parse_stream (lg1_proto u) (co_pending ?s1) = (ms', Pending p)"
          using ms(2) by (simp add: co_pending_def)
        show "cxx_fold (co_disp uuid) (co_world ?s1) ms' = Ok w" using w' by simp
      qed
      then show ?thesis using go by simp
    qed
  qed
qed

definition co_wf :: "string \<Rightarrow> co_session \<Rightarrow> bool" where
  "co_wf u s \<longleftrightarrow> co_ok s \<and> next_frame (lg1_proto u) (co_pending s) = Incomplete"

lemma co_pending_arrive: "co_pending (s\<lparr>co_buf := co_buf s @ c\<rparr>) = co_pending s @ c"
  by (simp add: co_pending_def split: option.splits)

interpretation co: stream_reader "co_feed uuid" "co_wf uuid" "\<lambda>_. True" co_pending co_world
    "parse_stream (lg1_proto uuid)" "co_disp uuid" for uuid
proof
  fix s c ms p w
  assume a: "co_wf uuid s" "parse_stream (lg1_proto uuid) (co_pending s @ c) = (ms, Pending p)"
    "cxx_fold (co_disp uuid) (co_world s) ms = Ok w"
  let ?s = "s\<lparr>co_buf := co_buf s @ c\<rparr>"
  have "co_ok ?s" using a(1) by (auto simp: co_wf_def co_ok_def split: option.splits)
  then obtain s' where "co_run (Suc (length (co_buf ?s))) uuid ?s = Some (Suspended s')" "co_ok s'"
    "co_pending s' = p" "co_world s' = w" "next_frame (lg1_proto uuid) p = Incomplete"
    using co_run_spec [of ?s "Suc (length (co_buf ?s))" uuid ms p uuid w] a(2,3) co_pending_arrive [of s c] by auto
  then show "\<exists>s'. co_feed uuid s c = Some s' \<and> co_wf uuid s' \<and> co_pending s' = p \<and> co_world s' = w"
    unfolding co_feed_def co_arrive_def Let_def co_wf_def by (simp del: co_run.simps)
next
  show "co_wf uuid s \<Longrightarrow> parse_stream (lg1_proto uuid) (co_pending s) = ([], Pending (co_pending s))" for s
    by (simp add: co_wf_def parse_stream_cases)
next
  show "parse_stream (lg1_proto uuid) (a @ b) = (ms, Pending p) \<Longrightarrow>
      \<exists>ms1 p1 ms2. parse_stream (lg1_proto uuid) a = (ms1, Pending p1) \<and>
        parse_stream (lg1_proto uuid) (p1 @ b) = (ms2, Pending p) \<and> ms = ms1 @ ms2" for a b ms p
    by (rule parse_stream_prefix)
qed

lemma co_Start_Ok:
  "\<exists>s. co_Start st = Ok s \<and> co_wf uuid s \<and> co_pending s = [] \<and> co_world s = st"
proof -
  have "nul_MsgNode 4 = Ok (fresh_node 0 4)"
    by (simp add: nul_MsgNode_def new_char_array_def buf_put_def cxx_simps fresh_node_def numeral_eq_Suc)
  moreover have "Clear (fresh_node 0 4) = Ok (fresh_node 0 4)"
    by (simp add: Clear_def fresh_node_def size_of_int_nonneg numeral_eq_Suc)
  ultimately show ?thesis
    by (simp add: co_Start_def cxx_simps co_wf_def co_ok_def co_pending_def next_frame_def)
qed

text \<open>Posting all messages of a stream whose bodies are not empty.\<close>

lemma co_post_all:
  assumes "logic_inv str cb st" "mutex_free st" "\<And>m. m \<in> set ms \<Longrightarrow> snd m \<noteq> []"
  shows "\<exists>st'. cxx_fold (co_disp uuid) st ms = Ok st' \<and> posted st' = posted st @ map (co_posting uuid) ms \<and>
    logic_inv str cb st' \<and> mutex_free st' \<and> worker st' = worker st"
  using assms
proof (induction ms arbitrary: st)
  case (Cons m ms)
  note p = PostMsgToQue_inv [OF Cons.prems(1,2), of "co_posting uuid m"]
  obtain st' where "cxx_fold (co_disp uuid) (PostMsgToQue (co_posting uuid m) st) ms = Ok st'"
    "posted st' = posted st @ co_posting uuid m # map (co_posting uuid) ms"
    "logic_inv str cb st'" "mutex_free st'" "worker st' = worker st"
    using Cons.IH [OF p(1,2)] Cons.prems(3) p(3,4) by auto
  moreover have "co_disp uuid st m = Ok (PostMsgToQue (co_posting uuid m) st)"
    using Cons.prems(3) by (simp add: co_disp_def)
  ultimately show ?case by (simp add: cxx_simps)
qed simp

end
