(* ===== verification/Pools.thy ===== *)
theory Pools
  imports CoroutineServer
begin

text \<open>
  The pools of \<open>io_context\<close>s that carry the sessions of the multi-threaded servers
  (\<open>AsioIOServicePool\<close>, \<open>AsioThreadPool\<close>): round-robin assignment, shutdown, and the accept
  handler of \<open>CServer\<close> when the new session already runs on another thread.
\<close>

section \<open>io_context\<close>

text \<open>
  \<open>run\<close> returns when the context has been stopped or when no work guard and no pending
  operation keeps it alive; that is the documented contract of \<open>boost::asio::io_context\<close>.
\<close>

record io_service =
  work :: bool
  stopped :: bool
  pending_ops :: nat

definition run_returns :: "io_service \<Rightarrow> bool" where
  "run_returns s \<longleftrightarrow> stopped s \<or> \<not> work s \<and> pending_ops s = 0"

record pool =
  services :: "io_service list"
  next_service :: nat

text \<open>The constructor: one work guard and one thread in \<open>run\<close> for each context.\<close>

definition new_pool :: "nat \<Rightarrow> pool" where
  "new_pool sz =
     \<lparr>services = replicate sz \<lparr>work = True, stopped = False, pending_ops = 0\<rparr>, next_service = 0\<rparr>"

definition GetIOService :: "pool \<Rightarrow> (nat \<times> pool) cxx" where
  "GetIOService p =
     (if next_service p < length (services p)
      then (let k = Suc (next_service p) in
            Ok (next_service p, p\<lparr>next_service := if k = length (services p) then 0 else k\<rparr>))
      else UB)"

fun get_services :: "nat \<Rightarrow> pool \<Rightarrow> (nat list \<times> pool) cxx" where
  "get_services 0 p = Ok ([], p)"
| "get_services (Suc n) p =
     cxx_bind (GetIOService p) (\<lambda>(i, p'). cxx_bind (get_services n p') (\<lambda>(is, q). Ok (i # is, q)))"

section \<open>Shutdown\<close>

text \<open>
  \<open>Stop\<close> joins the threads, so it returns when every \<open>run\<close> does.  \<open>IoContextPoolServer\<close>
  stops each context, \<open>CoroutineServer\<close> only drops the work guards.
\<close>

definition iop_Stop :: "pool \<Rightarrow> pool" where
  "iop_Stop p = p\<lparr>services := map (\<lambda>s. s\<lparr>stopped := True, work := False\<rparr>) (services p)\<rparr>"

definition co_Stop :: "pool \<Rightarrow> pool" where
  "co_Stop p = p\<lparr>services := map (\<lambda>s. s\<lparr>work := False\<rparr>) (services p)\<rparr>"

definition join_returns :: "pool \<Rightarrow> bool" where
  "join_returns p \<longleftrightarrow> list_all run_returns (services p)"

text \<open>\<open>AsioThreadPool\<close>: several threads in the \<open>run\<close> of one context.\<close>

record thread_pool =
  service :: io_service
  pool_threads :: nat

definition new_thread_pool :: "nat \<Rightarrow> thread_pool" where
  "new_thread_pool n = \<lparr>service = \<lparr>work = True, stopped = False, pending_ops = 0\<rparr>, pool_threads = n\<rparr>"

definition thp_Stop :: "thread_pool \<Rightarrow> thread_pool" where
  "thp_Stop p = p\<lparr>service := (service p)\<lparr>stopped := True, work := False\<rparr>\<rparr>"

definition stp_Stop :: "thread_pool \<Rightarrow> thread_pool" where
  "stp_Stop p = p\<lparr>service := (service p)\<lparr>stopped := True, work := False\<rparr>\<rparr>"

lemma get_services_mod:
  assumes "0 < sz" "services p = replicate sz s" "next_service p = k mod sz"
  shows "\<exists>q. get_services n p = Ok (map (\<lambda>i. (k + i) mod sz) [0..<n], q) \<and> services q = services p"
  using assms
proof (induction n arbitrary: p k)
  case (Suc n)
  let ?p' = "p\<lparr>next_service := if Suc (k mod sz) = sz then 0 else Suc (k mod sz)\<rparr>"
  have g: "GetIOService p = Ok (k mod sz, ?p')"
    using Suc.prems by (simp add: GetIOService_def Let_def)
  have nx: "next_service ?p' = Suc k mod sz" by (simp add: mod_Suc)
  obtain q where q: "get_services n ?p' = Ok (map (\<lambda>i. (Suc k + i) mod sz) [0..<n], q)" "services q = services ?p'"
    using Suc.IH [of ?p' "Suc k"] Suc.prems nx by auto
  have "map (\<lambda>i. (k + i) mod sz) [0..<Suc n] = k mod sz # map (\<lambda>i. (Suc k + i) mod sz) [0..<n]"
    by (simp add: upt_conv_Cons map_Suc_upt [symmetric] del: upt_Suc)
  then show ?case using g q by (simp add: cxx_simps del: upt_Suc)
qed simp

section \<open>Accepting on one thread, reading on another\<close>

text \<open>
  \<open>HandleAccept\<close> first calls \<open>Start\<close>, which arms the read on the context of the session, and
  only then locks \<open>_mutex\<close> and inserts the session; in the pool servers a read handler of
  the session can run between the two.
\<close>

definition accept_start :: "'w proto \<Rightarrow> 'w \<Rightarrow> 'w server \<Rightarrow> 'w server" where
  "accept_start P w0 srv =
     (case accepting srv of
        None \<Rightarrow> srv
      | Some uuid \<Rightarrow>
          (case start_session P w0 of
             Ok s \<Rightarrow> srv\<lparr>objects := (objects srv)(uuid \<mapsto> s), reading := insert uuid (reading srv)\<rparr>
           | _ \<Rightarrow> srv\<lparr>dead := True\<rparr>))"

definition accept_insert :: "string \<Rightarrow> 'w server \<Rightarrow> 'w server" where
  "accept_insert nxt srv =
     (case accepting srv of
        None \<Rightarrow> srv
      | Some uuid \<Rightarrow> StartAccept nxt (srv\<lparr>registered := insert uuid (registered srv)\<rparr>))"

lemma accept_sequential:
  assumes "start_session P w0 = Ok s"
  shows "accept_insert nxt (accept_start P w0 srv) = HandleAccept P w0 False nxt srv"
  using assms by (auto simp: accept_insert_def accept_start_def HandleAccept_def split: option.splits)

definition iop_HandleAccept :: "logic_sys \<Rightarrow> bool \<Rightarrow> string \<Rightarrow> logic_sys server \<Rightarrow> logic_sys server" where
  "iop_HandleAccept g error nxt srv = 
     (case accepting srv of None \<Rightarrow> srv | Some uuid \<Rightarrow> HandleAccept (iop_proto uuid) g error nxt srv)"

definition thp_HandleAccept :: "logic_sys \<Rightarrow> bool \<Rightarrow> string \<Rightarrow> logic_sys server \<Rightarrow> logic_sys server" where
  "thp_HandleAccept g error nxt srv = 
     (case accepting srv of None \<Rightarrow> srv | Some uuid \<Rightarrow> HandleAccept (thp_proto uuid) g error nxt srv)"

definition stp_HandleAccept :: "logic_sys \<Rightarrow> bool \<Rightarrow> string \<Rightarrow> logic_sys server \<Rightarrow> logic_sys server" where
  "stp_HandleAccept g error nxt srv = 
     (case accepting srv of None \<Rightarrow> srv | Some uuid \<Rightarrow> HandleAccept (stp_proto uuid) g error nxt srv)"

text \<open>The read handler between the two halves: its \<open>ClearSession\<close> finds nothing to erase.\<close>

lemma accept_race:
  assumes "start_session P w0 = Ok s" "accepting srv = Some u" "u \<notin> registered srv"
  shows "u \<in> registered (accept_insert nxt (server_read P u True c (accept_start P w0 srv)))"
    "u \<notin> reading (accept_insert nxt (server_read P u True c (accept_start P w0 srv)))"
    "u \<notin> registered (server_read P u True c (HandleAccept P w0 False nxt srv))"
  using assms
  by (auto simp: accept_insert_def accept_start_def HandleAccept_def StartAccept_def server_read_def Let_def
      ClearSession_def handle_read_def)

end
