(* ===== verification/InlineServers.thy ===== *)
theory InlineServers
  imports IdSession
begin

text \<open>
  The servers that answer inside \<open>HandleRead\<close>: \<open>ProtobufServer/AsyncServer\<close> (\<open>pb\<close>), two-byte
  header and a protobuf body, and \<open>MsgJsonIDServer/LogicServer\<close> (\<open>js\<close>), four-byte header and
  a JSON body.  The protobuf and JSON libraries are parameters.
\<close>

section \<open>ProtobufServer/AsyncServer\<close>

text \<open>
  The generated class \<open>MsgData\<close> as the handler uses it: \<open>ParseFromString\<close> (its result is
  ignored; a failed parse leaves some message), the accessors and \<open>SerializeToString\<close>.
\<close>

record 'v pb_api =
  pb_parse :: "byte list \<Rightarrow> 'v"
  pb_id :: "'v \<Rightarrow> int"
  pb_data :: "'v \<Rightarrow> byte list"
  pb_build :: "int \<Rightarrow> byte list \<Rightarrow> 'v"
  pb_serialize :: "'v \<Rightarrow> byte list"

definition pb_reply :: "'v pb_api \<Rightarrow> byte list \<Rightarrow> byte list" where
  "pb_reply api s =
     (let msgdata = pb_parse api s in
      pb_serialize api (pb_build api (pb_id api msgdata) (greeting @ pb_data api msgdata)))"

definition pb_MsgNode :: "byte list \<Rightarrow> short \<Rightarrow> msg_node cxx" where
  "pb_MsgNode msg max_len = prefix_MsgNode swap16 msg max_len"

definition pb_Send_string :: "byte list \<Rightarrow> send_state \<Rightarrow> send_state cxx" where
  "pb_Send_string msg st = send_with que_full (pb_MsgNode msg (word_of_nat (length msg))) st"

definition pb_Send :: "byte list \<Rightarrow> int \<Rightarrow> send_state \<Rightarrow> send_state cxx" where
  "pb_Send msg max_length st = send_with que_full (pb_MsgNode msg (word_of_int max_length)) st"

definition pb_HandleWrite :: "bool \<Rightarrow> send_state \<Rightarrow> write_end cxx" where
  "pb_HandleWrite error st = handle_write error st"

definition pb_proto :: "'v pb_api \<Rightarrow> send_state proto" where
  "pb_proto api = \<lparr>head_len = 2, parse_head = length_head swap16, new_node = (\<lambda>l _. plain_MsgNode l),
     dispatch = (\<lambda>st n. cxx_bind (node_string total_len n) (\<lambda>s. pb_Send_string (pb_reply api s) st)),
     catches = True\<rparr>"

definition pb_Start :: "'v pb_api \<Rightarrow> send_state rsession cxx" where
  "pb_Start api = start_session (pb_proto api) empty_send"

definition pb_HandleRead ::
  "'v pb_api \<Rightarrow> bool \<Rightarrow> nat \<Rightarrow> send_state rsession \<Rightarrow> send_state read_end option" where
  "pb_HandleRead api error bytes_transferred s = handle_read (pb_proto api) error bytes_transferred s"

definition pb_CServer_step :: "'v pb_api \<Rightarrow> send_state server \<Rightarrow> server_event \<Rightarrow> send_state server" where
  "pb_CServer_step api srv e = server_step (pb_proto api) empty_send srv e"

text \<open>The reply to a message on the wire, and the messages whose reply fits a node.\<close>

definition pb_enc :: "'v pb_api \<Rightarrow> short \<times> byte list \<Rightarrow> byte list" where
  "pb_enc api m = prefix_enc swap16 (0, pb_reply api (snd m))"

definition pb_fits :: "'v pb_api \<Rightarrow> short \<times> byte list \<Rightarrow> bool" where
  "pb_fits api m \<longleftrightarrow> length (snd m) \<le> MAX_LENGTH \<and> length (pb_reply api (snd m)) + 2 < 2 ^ 15"

lemma pb_sel [simp]:
  "head_len (pb_proto api) = 2" "parse_head (pb_proto api) = length_head swap16"
  "new_node (pb_proto api) = (\<lambda>l _. plain_MsgNode l)" "catches (pb_proto api) = True"
  by (simp_all add: pb_proto_def)

lemma pb_send_node:
  assumes "length r + 2 < 2 ^ 15"
  shows "\<exists>n. pb_MsgNode r (word_of_nat (length r)) = Ok n \<and> wire_ok n \<and> wire_bytes n = prefix_enc swap16 (0, r)"
proof -
  define t :: short where "t = word_of_nat (length r + 2)"
  have sv: "short_val t = int (length r + 2)" using assms unfolding t_def by (intro short_of_nat) simp
  have node: "pb_MsgNode r (word_of_nat (length r)) = Ok \<lparr>cur_len = 0, total_len = t,
      node_data = le_bytes (swap16 (word_of_nat (length r))) @ r @ [0], msg_id = 0\<rparr>"
    using prefix_MsgNode_Ok [of "length r" r swap16] assms unfolding t_def pb_MsgNode_def by simp
  show ?thesis by (simp add: node wire_ok_def wire_bytes_def prefix_enc_def sv)
qed

lemma pb_deliver:
  assumes "length (snd m) < 2 ^ 15"
  shows "deliver_msg (pb_proto api) st m = pb_Send_string (pb_reply api (snd m)) st"
  using assms by (simp add: deliver_msg_def pb_proto_def full_node_string cxx_simps)

interpretation pb: frame_protocol "pb_proto api" for api
  by (rule length_head_protocol) simp_all

interpretation pb_pump: write_pump "deliver_msg (pb_proto api)" que_full "pb_enc api" "pb_fits api" for api
proof
  fix m assume m: "pb_fits api m"
  then obtain n where "pb_MsgNode (pb_reply api (snd m)) (word_of_nat (length (pb_reply api (snd m)))) = Ok n"
    "wire_ok n" "wire_bytes n = pb_enc api m"
    using pb_send_node unfolding pb_fits_def pb_enc_def by blast
  moreover have "length (snd m) < 2 ^ 15" using m by (simp add: pb_fits_def MAX_LENGTH_def)
  ultimately show "\<exists>n. wire_ok n \<and> wire_bytes n = pb_enc api m \<and> (\<forall>st. deliver_msg (pb_proto api) st m =
      Ok (if que_full (length (send_que st)) then st else enqueue n st))"
    by (intro exI [of _ n]) (simp add: pb_deliver pb_Send_string_def send_with_Ok)
qed

section \<open>MsgJsonIDServer/LogicServer\<close>

definition js_RecvNode :: "short \<Rightarrow> short \<Rightarrow> msg_node cxx" where
  "js_RecvNode max_len mid = RecvNode max_len mid"

definition js_Send_string :: "byte list \<Rightarrow> short \<Rightarrow> send_state \<Rightarrow> send_state cxx" where
  "js_Send_string msg msgid st =
     send_with que_full (json_SendNode msg (word_of_nat (length msg)) msgid) st"

definition js_Send :: "byte list \<Rightarrow> short \<Rightarrow> short \<Rightarrow> send_state \<Rightarrow> send_state cxx" where
  "js_Send msg max_length msgid st = send_with que_full (json_SendNode msg max_length msgid) st"

definition js_HandleWrite :: "bool \<Rightarrow> send_state \<Rightarrow> write_end cxx" where
  "js_HandleWrite error st = handle_write error st"

definition js_proto :: "'v json_api \<Rightarrow> send_state proto" where
  "js_proto api = \<lparr>head_len = 4, parse_head = id_head, new_node = js_RecvNode,
     dispatch = (\<lambda>st n. cxx_bind (node_string total_len n) (\<lambda>s.
                        cxx_bind (HelloWorldCallBack api s) (\<lambda>(r, i). js_Send_string r i st))),
     catches = True\<rparr>"

definition js_Start :: "'v json_api \<Rightarrow> send_state rsession cxx" where
  "js_Start api = start_session (js_proto api) empty_send"

definition js_HandleRead ::
  "'v json_api \<Rightarrow> bool \<Rightarrow> nat \<Rightarrow> send_state rsession \<Rightarrow> send_state read_end option" where
  "js_HandleRead api error bytes_transferred s = handle_read (js_proto api) error bytes_transferred s"

definition js_CServer_step :: "'v json_api \<Rightarrow> send_state server \<Rightarrow> server_event \<Rightarrow> send_state server" where
  "js_CServer_step api srv e = server_step (js_proto api) empty_send srv e"

lemma js_sel [simp]:
  "head_len (js_proto api) = 4" "parse_head (js_proto api) = id_head"
  "new_node (js_proto api) = RecvNode" "catches (js_proto api) = True"
  by (auto simp: js_proto_def js_RecvNode_def intro!: ext)

interpretation js: frame_protocol "js_proto api" for api
  by (rule id_protocol) simp_all

lemma js_deliver:
  assumes "length (snd m) < 2 ^ 15"
  shows "deliver_msg (js_proto api) st m =
     cxx_bind (HelloWorldCallBack api (snd m)) (\<lambda>(r, i). js_Send_string r i st)"
  using assms by (simp add: deliver_msg_def js_proto_def full_node_string cxx_simps)

lemma js_Send_string_UB:
  assumes "length r + 2 < 2 ^ 15" "\<not> que_full (length (send_que st))"
  shows "js_Send_string r i st = UB"
  using assms id_SendNode_short_UB [OF assms(1)]
  by (simp add: js_Send_string_def send_with_def json_SendNode_def Let_def cxx_simps)

end
