(* ===== verification/ServerTheorems.thy ===== *)
theory ServerTheorems
  imports Pools InlineServers Termination
begin

text \<open>
  The properties of the servers with a message id, of the \<open>LogicSystem\<close> behind them, of the
  servers that answer inline, of the coroutine server and of the pools.
\<close>

section \<open>Shared lemmas\<close>

definition plain_api :: "byte list json_api" where
  "plain_api = \<lparr>json_parse = (\<lambda>s. s), get_id = (\<lambda>_. Ok 1001), get_data = Ok,
     set_data = (\<lambda>_ d. d), to_styled = (\<lambda>s. s)\<rparr>"

text \<open>\<^const>\<open>plain_api\<close> is a stand-in for the JSON library in the examples: every text is the
  data of a message with id 1001.\<close>

lemma plain_api_reply: "HelloWorldCallBack plain_api s = Ok (greeting @ s, 1001)"
  by (simp add: HelloWorldCallBack_def plain_api_def cxx_simps Let_def)

lemma length_greeting [simp]: "length greeting = 37"
  by (simp add: greeting_def)

lemma call_back_posting:
  assumes "length (snd m) < 2 ^ 15" "cb (snd m) = Ok (r, i)"
  shows "call_back (node_string cur_len) cb (posting uuid m) =
    Ok (if fst m = MSG_HELLO_WORD then [(uuid, r, i)] else [])"
  using assms
  by (simp add: call_back_def posting_def fun_callbacks_def full_node_string cxx_simps)
     (simp add: full_node_def)

lemma replies_posting:
  assumes "\<And>m. m \<in> set ms \<Longrightarrow> length (snd m) < 2 ^ 15 \<and> cb (snd m) = Ok (rep m)"
  shows "replies (node_string cur_len) cb (map (posting uuid) ms) =
    map (\<lambda>m. (uuid, rep m)) (filter (\<lambda>m. fst m = MSG_HELLO_WORD) ms)"
  using assms
proof (induction ms)
  case (Cons m ms)
  obtain r i where ri: "rep m = (r, i)" by (cases "rep m")
  have "call_back (node_string cur_len) cb (posting uuid m) =
      Ok (if fst m = MSG_HELLO_WORD then [(uuid, r, i)] else [])"
    by (rule call_back_posting) (use Cons.prems [of m] ri in simp_all)
  then show ?case using Cons ri by (simp add: replies_def)
qed (simp add: replies_def)

lemma id_frame_small:
  assumes "head_len P = 4" "parse_head P = id_head" "parse_stream P bs = (ms, e)" "m \<in> set ms"
  shows "length (snd m) \<le> MAX_LENGTH"
proof -
  obtain bs' rest where "next_frame P bs' = Frame (fst m) (snd m) rest"
    using parse_stream_frames [OF assms(3)] assms(4) by (metis prod.collapse)
  from id_recode(2) [OF assms(1,2) this] show ?thesis by (simp add: id_msg_def)
qed

lemma accepted_posts: "length xs + k \<le> Suc MAX_SENDQUE \<Longrightarrow> accepted que_full k (map Post xs) = xs"
  by (induction xs arbitrary: k) (auto simp: que_full_def)

lemma RecvNode_neg: "short_val l < -1 \<Longrightarrow> RecvNode l i = Throw BadArrayNewLength"
  by (simp add: RecvNode_def nul_MsgNode_def new_char_array_def cxx_simps)

lemma RecvNode_minus_one: "RecvNode (-1) i = UB"
  by (simp add: RecvNode_def nul_MsgNode_def new_char_array_def buf_put_def cxx_simps)

text \<open>From the socket to the replies, for any session that posts to the logic system.\<close>

context logic_session
begin

lemma served_replies:
  assumes "head_len P = 4" "parse_head P = id_head"
    and "\<And>c. c \<in> set cs \<Longrightarrow> chunk_ok c" "parse_stream P (concat cs) = (ms, Pending p)"
    and "\<And>m. m \<in> set ms \<Longrightarrow> HelloWorldCallBack api (snd m) = Ok (rep m)"
  shows "\<exists>s0 s ls st. start_session P new_LogicSystem = Ok s0 \<and> feeds (feed P) s0 cs = Some s \<and>
     pending P s = p \<and> set ls \<subseteq> {Lock, Test, Notify} \<and>
     logic_run (node_string cur_len) (HelloWorldCallBack api) ls (world s) = Some st \<and>
     outbox st = map (\<lambda>m. (uuid, rep m)) (filter (\<lambda>m. fst m = MSG_HELLO_WORD) ms)"
proof -
  have small: "length (snd m) < 2 ^ 15 \<and> HelloWorldCallBack api (snd m) = Ok (rep m)" if "m \<in> set ms" for m
    using id_frame_small [OF assms(1,2,4) that] assms(5) [OF that] by (simp add: MAX_LENGTH_def)
  then have "\<exists>r. call_back (node_string cur_len) (HelloWorldCallBack api) (posting uuid m) = Ok r" if "m \<in> set ms" for m
    using call_back_posting [of m "HelloWorldCallBack api" "fst (rep m)" "snd (rep m)" uuid] that by fastforce
  from served [OF assms(3,4) this] replies_posting [OF small, of ms uuid] show ?thesis
    by metis
qed

end

section \<open>The logic system\<close>

text \<open>
  C12: the queue of the LogicSystem is first in, first out and loses nothing: in every reachable
  state of the interleaved threads the messages posted are those handled, in order, followed
  by those queued, and the sends made are the replies of the messages handled, in order.
\<close>

theorem logic_queue_fifo:
  assumes "reachable logic_init (logic_step str cb) st"
  shows "posted st = dealt st @ msg_que st \<and> outbox st = replies str cb (dealt st)"
  using logic.reachable_inv [OF assms] by (simp add: logic_inv_def)

lemma logic_queue_fifo_witness:
  "posted (PostMsgToQue (''u'', full_node 1001 [65]) new_LogicSystem) =
     dealt (PostMsgToQue (''u'', full_node 1001 [65]) new_LogicSystem) @
     msg_que (PostMsgToQue (''u'', full_node 1001 [65]) new_LogicSystem)"
proof -
  let ?m = "(''u'', full_node 1001 [65])"
  have "logic_step (node_string cur_len) (HelloWorldCallBack plain_api) new_LogicSystem (PostMsgToQue ?m new_LogicSystem)"
    by (rule logic_stepI [where l = "PostMsg ?m"]) (simp add: mutex_free_def new_LogicSystem_def)
  moreover have "reachable logic_init (logic_step (node_string cur_len) (HelloWorldCallBack plain_api)) new_LogicSystem"
    by (rule reach_init) (simp add: logic_init_def)
  ultimately have "reachable logic_init (logic_step (node_string cur_len) (HelloWorldCallBack plain_api))
      (PostMsgToQue ?m new_LogicSystem)"
    by (blast intro: reach_step)
  from logic_queue_fifo [OF this] show ?thesis by blast
qed

text \<open>
  C5: no post is lost although \<open>PostMsgToQue\<close> only notifies on an empty queue: when the worker is
  blocked in \<open>wait\<close> while a message is queued, a notification is on its way, and it wakes
  the worker.
\<close>

theorem logic_no_lost_post:
  assumes "reachable logic_init (logic_step str cb) st" "worker st = WBlocked" "msg_que st \<noteq> []"
  shows "\<exists>st'. logic_exec str cb Notify st = Some st' \<and> worker st' = WLock \<and> msg_que st' = msg_que st"
  using logic.reachable_inv [OF assms(1)] assms(2,3) by (simp add: logic_inv_def notify_one_def)

lemma logic_no_lost_post_witness:
  "\<exists>st st'. logic_run (node_string cur_len) (HelloWorldCallBack plain_api)
       [Lock, Test, Sleep, PostMsg (''u'', full_node 1001 [65])] new_LogicSystem = Some st \<and>
     logic_exec (node_string cur_len) (HelloWorldCallBack plain_api) Notify st = Some st' \<and> worker st' = WLock"
proof -
  let ?m = "(''u'', full_node 1001 [65])" and ?str = "node_string cur_len" and ?cb = "HelloWorldCallBack plain_api"
  obtain st where st: "logic_run ?str ?cb [Lock, Test, Sleep, PostMsg ?m] new_LogicSystem = Some st"
      "worker st = WBlocked" "msg_que st \<noteq> []"
    by (simp add: new_LogicSystem_def deal_test_def mutex_free_def PostMsgToQue_def Let_def)
  have "reachable logic_init (logic_step ?str ?cb) st"
    by (rule reachable_steps [OF logic_run_steps [OF st(1)]]) (rule reach_init, simp add: logic_init_def)
  from logic_no_lost_post [OF this st(2,3)] st(1) show ?thesis by blast
qed

text \<open>
  C13: the destructor can hang: it sets \<open>_b_stop\<close> without the mutex, so flag and notification can
  fall between the worker's test and its wait; from then on nothing can happen but a
  spurious wake-up or another post, and \<open>join\<close> does not return.
\<close>

theorem logic_stop_lost_wakeup:
  "\<exists>st. logic_run str cb [Lock, Test, StopFlag, StopNotify, Sleep] new_LogicSystem = Some st \<and>
     b_stop st \<and> stuck st \<and> {l. logic_exec str cb l st \<noteq> None} \<subseteq> insert Spurious (range PostMsg)"
proof -
  obtain st where st: "logic_run str cb [Lock, Test, StopFlag, StopNotify, Sleep] new_LogicSystem = Some st"
      "b_stop st" "stuck st"
    by (simp add: new_LogicSystem_def deal_test_def stuck_def notify_one_def)
  have "{l. logic_exec str cb l st \<noteq> None} \<subseteq> insert Spurious (range PostMsg)"
    using stuck_stays [OF st(3)] by blast
  with st show ?thesis by blast
qed

text \<open>
  an exception in a callback, such as JsonCpp's on an id that is no number, ends the process:
  the worker thread has no handler for it.
\<close>

theorem logic_callback_exception:
  assumes "msg_id n = MSG_HELLO_WORD" "node_string cur_len n = Ok s" "HelloWorldCallBack api s = Throw e"
  shows "\<exists>st. logic_run (node_string cur_len) (HelloWorldCallBack api) [PostMsg (uuid, n), Lock, Test]
     new_LogicSystem = Some st \<and> worker st = WCrashed"
  using assms
  by (simp add: new_LogicSystem_def mutex_free_def PostMsgToQue_def deal_test_def deal_front_def call_back_def
      fun_callbacks_def cxx_simps Let_def)

lemma logic_callback_exception_witness:
  "\<exists>st. logic_run (node_string cur_len) (HelloWorldCallBack (plain_api\<lparr>get_id := \<lambda>_. Throw JsonError\<rparr>))
     [PostMsg (''u'', full_node 1001 [65]), Lock, Test] new_LogicSystem = Some st \<and> worker st = WCrashed"
  by (rule logic_callback_exception [where s = "[65]" and e = JsonError])
    (simp_all add: full_node_string, simp_all add: full_node_def MSG_HELLO_WORD_def HelloWorldCallBack_def cxx_simps Let_def)

section \<open>The servers with a logic system\<close>

lemma lg1_answers:
  assumes "\<And>c. c \<in> set cs \<Longrightarrow> chunk_ok c" "parse_stream (lg1_proto uuid) (concat cs) = (ms, Pending p)"
    and "\<And>m. m \<in> set ms \<Longrightarrow> HelloWorldCallBack api (snd m) = Ok (rep m)"
    and "\<And>m. m \<in> set ms \<Longrightarrow> sendable (snd (rep m), fst (rep m))"
    and "sends = map (\<lambda>m. (snd (rep m), fst (rep m))) (filter (\<lambda>m. fst m = MSG_HELLO_WORD) ms)"
    and "length sends \<le> Suc MAX_SENDQUE"
    and "logic_run (node_string cur_len) (HelloWorldCallBack api) ls new_LogicSystem = Some st"
    and "posts_of ls = map (posting uuid) ms" "StopFlag \<notin> set ls"
    and "posts_in es = map (\<lambda>(u, r, i). (i, r)) (outbox st)"
  shows "\<exists>s0 s k sst out sst' wire. lg1_Start uuid new_LogicSystem = Ok s0 \<and>
     feeds (feed (lg1_proto uuid)) s0 cs = Some s \<and> posted (world s) = posts_of ls \<and>
     outbox st = map (\<lambda>(i, r). (uuid, r, i)) (take k sends) \<and>
     (\<exists>ls' st'. set ls' \<subseteq> {Lock, Test, Notify} \<and>
        logic_run (node_string cur_len) (HelloWorldCallBack api) ls' st = Some st' \<and>
        outbox st' = map (\<lambda>(i, r). (uuid, r, i)) sends) \<and>
     cxx_fold (pump_step (\<lambda>st m. lg1_Send_string (snd m) (fst m) st)) (empty_send, []) es = Ok (sst, out) \<and>
     out @ concat (map wire_bytes (send_que sst)) = concat (map id_enc (take k sends)) \<and>
     cxx_fold (pump_step (\<lambda>st m. lg1_Send_string (snd m) (fst m) st)) (sst, out)
       (replicate (length (send_que sst)) Written) = Ok (sst', wire) \<and>
     send_que sst' = [] \<and> wire = concat (map id_enc (take k sends))"
proof -
  let ?str = "node_string cur_len" and ?cb = "HelloWorldCallBack api"
  let ?send = "\<lambda>st m. lg1_Send_string (snd m) (fst m) st"
  have small: "length (snd m) < 2 ^ 15 \<and> ?cb (snd m) = Ok (rep m)" if "m \<in> set ms" for m
    using id_frame_small [OF lg1_sel assms(2) that] assms(3) [OF that] by (simp add: MAX_LENGTH_def)
  have "\<exists>r. call_back ?str ?cb (posting uuid m) = Ok r" if "m \<in> set ms" for m
    using call_back_posting [of m ?cb "fst (rep m)" "snd (rep m)" uuid] small [OF that] by simp
  then have "\<exists>r. call_back ?str ?cb m = Ok r" if "m \<in> set (posts_of ls)" for m
    using that unfolding assms(8) by auto
  from logic_serves [OF assms(7,9) this]
  obtain more ls' st' where more: "replies ?str ?cb (posts_of ls) = outbox st @ more"
    and st': "set ls' \<subseteq> {Lock, Test, Notify}" "logic_run ?str ?cb ls' st = Some st'"
      "outbox st' = replies ?str ?cb (posts_of ls)" by blast
  have rep: "replies ?str ?cb (posts_of ls) = map (\<lambda>(i, r). (uuid, r, i)) sends"
    using replies_posting [OF small, of ms uuid] by (simp add: assms(5,8) comp_def)
  define k where "k = length (outbox st)"
  have ob: "outbox st = map (\<lambda>(i, r). (uuid, r, i)) (take k sends)"
    using arg_cong [OF more [unfolded rep], of "take k"] by (simp add: k_def take_map)
  have posts: "posts_in es = take k sends" unfolding assms(10) ob by (simp add: case_prod_beta comp_def)
  have "sendable m" if "Post m \<in> set es" for m
  proof -
    have "m \<in> set sends" using that posts in_set_takeD [of m k sends] by (simp flip: set_posts_in)
    then show ?thesis using assms(4,5) by auto
  qed
  from lg1_pump.pump_fifo [OF this] obtain sst out where w:
    "cxx_fold (pump_step ?send) (empty_send, []) es = Ok (sst, out)" "pump_inv sst"
    "out @ concat (map wire_bytes (send_que sst)) = concat (map id_enc (accepted que_full 0 es))"
    by blast
  have acc: "accepted que_full 0 es = take k sends"
    using accepted_room [of 0 es] assms(6) posts by simp
  obtain sst' where d: "cxx_fold (pump_step ?send) (sst, out) (replicate (length (send_que sst)) Written) =
      Ok (sst', concat (map id_enc (take k sends)))" "send_que sst' = []"
    using pump_drain [OF w(2), of ?send out] w(3) acc by auto
  obtain s0 s where s: "start_session (lg1_proto uuid) new_LogicSystem = Ok s0"
    "feeds (feed (lg1_proto uuid)) s0 cs = Some s" "posted (world s) = map (posting uuid) ms"
    using lg1.posts_new [OF assms(1,2)] by blast
  have all: "\<exists>ls' st'. set ls' \<subseteq> {Lock, Test, Notify} \<and> logic_run ?str ?cb ls' st = Some st' \<and>
      outbox st' = map (\<lambda>(i, r). (uuid, r, i)) sends"
    using st' unfolding rep by blast
  have s3: "posted (world s) = posts_of ls" using s(3) assms(8) by simp
  show ?thesis
    unfolding lg1_Start_def
    by (rule exI [of _ s0], rule exI [of _ s], rule exI [of _ k], rule exI [of _ sst], rule exI [of _ out],
        rule exI [of _ sst'], rule exI [of _ "concat (map id_enc (take k sends))"])
      (intro conjI s(1,2) s3 ob all w(1) w(3) [unfolded acc] d refl)
qed

text \<open>
  C2: LogicServer01 from request bytes to reply bytes, for a stream whose headers are accepted, whose messages the
  callback answers without an exception, with replies of at most 32763 bytes and at most 1001 of them.  However
  the stream is cut, the session posts its messages in order.  However the posts are interleaved with the
  steps of the worker (and no destructor), the sends are the beginning of the list of replies of the messages
  with the registered id, and the worker can go on to make them all.  However the sends are interleaved with
  completions of writes, wire and queue hold exactly the encoded replies, in order, and as many more
  completions as there are nodes queued bring all of them on the wire.
\<close>

theorem lg1_request_reply:
  assumes "\<And>c. c \<in> set cs \<Longrightarrow> chunk_ok c" "parse_stream (lg1_proto uuid) (concat cs) = (ms, Pending p)"
    and "\<And>m. m \<in> set ms \<Longrightarrow> HelloWorldCallBack api (snd m) = Ok (rep m)"
    and "\<And>m. m \<in> set ms \<Longrightarrow> sendable (snd (rep m), fst (rep m))"
    and "sends = map (\<lambda>m. (snd (rep m), fst (rep m))) (filter (\<lambda>m. fst m = MSG_HELLO_WORD) ms)"
    and "length sends \<le> Suc MAX_SENDQUE"
    and "logic_run (node_string cur_len) (HelloWorldCallBack api) ls new_LogicSystem = Some st"
    and "posts_of ls = map (posting uuid) ms" "StopFlag \<notin> set ls"
    and "posts_in es = map (\<lambda>(u, r, i). (i, r)) (outbox st)"
  shows "\<exists>s0 s k sst out sst' wire. lg1_Start uuid new_LogicSystem = Ok s0 \<and>
     feeds (feed (lg1_proto uuid)) s0 cs = Some s \<and> posted (world s) = posts_of ls \<and>
     outbox st = map (\<lambda>(i, r). (uuid, r, i)) (take k sends) \<and>
     (\<exists>ls' st'. set ls' \<subseteq> {Lock, Test, Notify} \<and>
        logic_run (node_string cur_len) (HelloWorldCallBack api) ls' st = Some st' \<and>
        outbox st' = map (\<lambda>(i, r). (uuid, r, i)) sends) \<and>
     cxx_fold (pump_step (\<lambda>st m. lg1_Send_string (snd m) (fst m) st)) (empty_send, []) es = Ok (sst, out) \<and>
     out @ concat (map wire_bytes (send_que sst)) = concat (map id_enc (take k sends)) \<and>
     cxx_fold (pump_step (\<lambda>st m. lg1_Send_string (snd m) (fst m) st)) (sst, out)
       (replicate (length (send_que sst)) Written) = Ok (sst', wire) \<and>
     send_que sst' = [] \<and> wire = concat (map id_enc (take k sends))"
  using lg1_answers [OF assms] .

lemma lg1_example_stream:
  "parse_stream (lg1_proto ''u'') [3, 233, 0, 1, 65] = ([(1001, [65])], Pending [])"
  by code_simp

lemma lg1_request_reply_witness:
  "\<exists>st. logic_run (node_string cur_len) (HelloWorldCallBack plain_api)
       [PostMsg (posting ''u'' (1001, [65])), Lock, Test] new_LogicSystem = Some st \<and>
     outbox st = [(''u'', greeting @ [65], 1001)] \<and>
     (\<exists>s0 s k sst out sst' wire. lg1_Start ''u'' new_LogicSystem = Ok s0 \<and>
     feeds (feed (lg1_proto ''u'')) s0 [[3, 233], [0, 1, 65]] = Some s \<and> posted (world s) = posts_of [PostMsg (posting ''u'' (1001, [65])), Lock, Test] \<and>
     outbox st = map (\<lambda>(i, r). (''u'', r, i)) (take k [(1001, greeting @ [65])]) \<and>
     (\<exists>ls' st'. set ls' \<subseteq> {Lock, Test, Notify} \<and>
        logic_run (node_string cur_len) (HelloWorldCallBack plain_api) ls' st = Some st' \<and>
        outbox st' = map (\<lambda>(i, r). (''u'', r, i)) [(1001, greeting @ [65])]) \<and>
     cxx_fold (pump_step (\<lambda>st m. lg1_Send_string (snd m) (fst m) st)) (empty_send, []) [Post (1001, greeting @ [65])] = Ok (sst, out) \<and>
     out @ concat (map wire_bytes (send_que sst)) = concat (map id_enc (take k [(1001, greeting @ [65])])) \<and>
     cxx_fold (pump_step (\<lambda>st m. lg1_Send_string (snd m) (fst m) st)) (sst, out)
       (replicate (length (send_que sst)) Written) = Ok (sst', wire) \<and>
     send_que sst' = [] \<and> wire = concat (map id_enc (take k [(1001, greeting @ [65])])))"
proof -
  let ?ls = "[PostMsg (posting ''u'' (1001, [65])), Lock, Test]"
  have cb: "call_back (node_string cur_len) (HelloWorldCallBack plain_api) (posting ''u'' (1001, [65])) =
      Ok [(''u'', greeting @ [65], 1001)]"
    using call_back_posting [of "(1001, [65])" "HelloWorldCallBack plain_api" "greeting @ [65]" 1001 "''u''"]
    by (simp add: plain_api_reply MSG_HELLO_WORD_def)
  obtain st where st: "logic_run (node_string cur_len) (HelloWorldCallBack plain_api) ?ls new_LogicSystem = Some st"
    "outbox st = [(''u'', greeting @ [65], 1001)]"
    by (simp add: new_LogicSystem_def mutex_free_def PostMsgToQue_def deal_test_def deal_front_def cb cxx_simps Let_def)
  have *: "\<exists>s0 s k sst out sst' wire. lg1_Start ''u'' new_LogicSystem = Ok s0 \<and>
     feeds (feed (lg1_proto ''u'')) s0 [[3, 233], [0, 1, 65]] = Some s \<and> posted (world s) = posts_of ?ls \<and>
     outbox st = map (\<lambda>(i, r). (''u'', r, i)) (take k [(1001, greeting @ [65])]) \<and>
     (\<exists>ls' st'. set ls' \<subseteq> {Lock, Test, Notify} \<and>
        logic_run (node_string cur_len) (HelloWorldCallBack plain_api) ls' st = Some st' \<and>
        outbox st' = map (\<lambda>(i, r). (''u'', r, i)) [(1001, greeting @ [65])]) \<and>
     cxx_fold (pump_step (\<lambda>st m. lg1_Send_string (snd m) (fst m) st)) (empty_send, []) [Post (1001, greeting @ [65])] = Ok (sst, out) \<and>
     out @ concat (map wire_bytes (send_que sst)) = concat (map id_enc (take k [(1001, greeting @ [65])])) \<and>
     cxx_fold (pump_step (\<lambda>st m. lg1_Send_string (snd m) (fst m) st)) (sst, out)
       (replicate (length (send_que sst)) Written) = Ok (sst', wire) \<and>
     send_que sst' = [] \<and> wire = concat (map id_enc (take k [(1001, greeting @ [65])]))"
    by (rule lg1_request_reply [where ms = "[(1001, [65])]" and p = "[]" and rep = "\<lambda>m. (greeting @ snd m, 1001)"])
      (use st in \<open>auto simp: chunk_ok_def MAX_LENGTH_def lg1_example_stream plain_api_reply sendable_def MSG_HELLO_WORD_def
        MAX_SENDQUE_def simp del: feeds.simps\<close>)
  show ?thesis by (rule exI [of _ st], intro conjI st *)
qed

text \<open>
  a read of one LogicServer01 session among others: its messages are appended to the shared
  queue under its own uuid and in order, the other sessions are untouched, and the session
  either waits for the rest of its stream or, at a refused header, has left the server.
\<close>

theorem lg1_server_read:
  assumes "objects srv u = Some s" "u \<in> reading srv" "\<not> dead srv" "sess_wf (lg1_proto u) s" "chunk_ok c"
    and "parse_stream (lg1_proto u) (pending (lg1_proto u) s @ c) = (ms, e)" "e \<noteq> Malformed" "mutex_free g"
    and "logic_inv str cb g" "lg1_CServer_step (srv, g) (ReadDone u False c) = (srv', h)"
  shows "posted h = posted g @ map (posting u) ms \<and> (\<forall>v. v \<noteq> u \<longrightarrow> objects srv' v = objects srv v) \<and>
     (case e of
        Pending p \<Rightarrow> u \<in> reading srv' \<and> registered srv' = registered srv
      | _ \<Rightarrow> u \<notin> reading srv' \<and> u \<notin> registered srv')"
proof -
  obtain g' where g': "cxx_fold (deliver_msg (lg1_proto u)) g ms = Ok g'" "posted g' = posted g @ map (posting u) ms"
    using lg1.post_all [OF assms(9,8)] by blast
  from lg1.shared_read_Ok [OF assms(1-7) g'(1) refl assms(10) [unfolded lg1_CServer_step_def]] g'(2)
  show ?thesis by (cases e) auto
qed

lemma lg1_server_read_witness:
  "\<exists>srv s srv' h. objects srv ''u'' = Some s \<and>
     lg1_CServer_step (srv, new_LogicSystem) (ReadDone ''u'' False [3, 233, 0, 1, 65]) = (srv', h) \<and>
     posted h = map (posting ''u'') [(1001, [65])]"
proof -
  obtain s where s: "start_session (lg1_proto ''u'') new_LogicSystem = Ok s" "sess_wf (lg1_proto ''u'') s"
    "pending (lg1_proto ''u'') s = []"
    using lg1.start_session_Ok by blast
  let ?srv = "HandleAccept (lg1_proto ''u'') new_LogicSystem False ''v'' (new_server ''u'')"
  have srv: "objects ?srv ''u'' = Some s" "''u'' \<in> reading ?srv" "\<not> dead ?srv"
    using s(1) by (simp_all add: HandleAccept_def new_server_def StartAccept_def)
  have g: "mutex_free new_LogicSystem" "posted new_LogicSystem = []"
    "logic_inv (node_string cur_len) (HelloWorldCallBack plain_api) new_LogicSystem"
    by (simp_all add: mutex_free_def new_LogicSystem_def logic_inv_def replies_def)
  have c: "chunk_ok [3, 233, 0, 1, 65]" by (simp add: chunk_ok_def MAX_LENGTH_def)
  have ps: "parse_stream (lg1_proto ''u'') (pending (lg1_proto ''u'') s @ [3, 233, 0, 1, 65]) = ([(1001, [65])], Pending [])"
    using s(3) lg1_example_stream by simp
  obtain srv' h where st: "lg1_CServer_step (?srv, new_LogicSystem) (ReadDone ''u'' False [3, 233, 0, 1, 65]) = (srv', h)"
    by (cases "lg1_CServer_step (?srv, new_LogicSystem) (ReadDone ''u'' False [3, 233, 0, 1, 65])")
  from lg1_server_read [OF srv s(2) c ps _ g(1,3) st] g(2) srv(1) st show ?thesis by auto
qed

text \<open>IoContextPoolServer reads, posts and handles the messages of a stream in order.\<close>

theorem iop_serves:
  assumes "\<And>c. c \<in> set cs \<Longrightarrow> chunk_ok c" "parse_stream (iop_proto uuid) (concat cs) = (ms, Pending p)"
    and "\<And>m. m \<in> set ms \<Longrightarrow> HelloWorldCallBack api (snd m) = Ok (rep m)"
  shows "\<exists>s0 s ls st. iop_Start uuid new_LogicSystem = Ok s0 \<and> feeds (feed (iop_proto uuid)) s0 cs = Some s \<and>
     pending (iop_proto uuid) s = p \<and> logic_run (node_string cur_len) (HelloWorldCallBack api) ls (world s) = Some st \<and>
     outbox st = map (\<lambda>m. (uuid, rep m)) (filter (\<lambda>m. fst m = MSG_HELLO_WORD) ms)"
  using iop.served_replies [OF _ _ assms] unfolding iop_Start_def by (simp add: iop_proto_def) metis

lemma iop_example_stream:
  "parse_stream (iop_proto ''u'') [3, 233, 0, 1, 65, 9] = ([(1001, [65])], Pending [9])"
  by code_simp

lemma iop_serves_witness:
  "\<exists>s0 s ls st. iop_Start ''u'' new_LogicSystem = Ok s0 \<and>
     feeds (feed (iop_proto ''u'')) s0 [[3, 233], [0, 1, 65, 9]] = Some s \<and> pending (iop_proto ''u'') s = [9] \<and>
     logic_run (node_string cur_len) (HelloWorldCallBack plain_api) ls (world s) = Some st \<and>
     outbox st = map (\<lambda>m. (''u'', greeting @ snd m, 1001)) (filter (\<lambda>m. fst m = MSG_HELLO_WORD) [(1001, [65])])"
  by (rule iop_serves) (auto simp: chunk_ok_def MAX_LENGTH_def iop_example_stream plain_api_reply)

text \<open>StrandPoolServer reads, posts and handles the messages of a stream in order.\<close>

theorem stp_serves:
  assumes "\<And>c. c \<in> set cs \<Longrightarrow> chunk_ok c" "parse_stream (stp_proto uuid) (concat cs) = (ms, Pending p)"
    and "\<And>m. m \<in> set ms \<Longrightarrow> HelloWorldCallBack api (snd m) = Ok (rep m)"
  shows "\<exists>s0 s ls st. stp_Start uuid new_LogicSystem = Ok s0 \<and> feeds (feed (stp_proto uuid)) s0 cs = Some s \<and>
     pending (stp_proto uuid) s = p \<and> logic_run (node_string cur_len) (HelloWorldCallBack api) ls (world s) = Some st \<and>
     outbox st = map (\<lambda>m. (uuid, rep m)) (filter (\<lambda>m. fst m = MSG_HELLO_WORD) ms)"
  using stp.served_replies [OF _ _ assms] unfolding stp_Start_def by (simp add: stp_proto_def) metis

lemma stp_example_stream:
  "parse_stream (stp_proto ''u'') [3, 233, 0, 1, 65, 9] = ([(1001, [65])], Pending [9])"
  by code_simp

lemma stp_serves_witness:
  "\<exists>s0 s ls st. stp_Start ''u'' new_LogicSystem = Ok s0 \<and>
     feeds (feed (stp_proto ''u'')) s0 [[3, 233], [0, 1, 65, 9]] = Some s \<and> pending (stp_proto ''u'') s = [9] \<and>
     logic_run (node_string cur_len) (HelloWorldCallBack plain_api) ls (world s) = Some st \<and>
     outbox st = map (\<lambda>m. (''u'', greeting @ snd m, 1001)) (filter (\<lambda>m. fst m = MSG_HELLO_WORD) [(1001, [65])])"
  by (rule stp_serves) (auto simp: chunk_ok_def MAX_LENGTH_def stp_example_stream plain_api_reply)

text \<open>
  the id-and-length encoding of LogicServer02 parses back: encoded messages with ids and
  lengths up to \<open>MAX_LENGTH\<close> are read as those messages, with nothing left over.
\<close>

theorem lg2_roundtrip:
  assumes "\<And>m. m \<in> set ms \<Longrightarrow> id_msg m"
  shows "parse_stream (lg2_proto uuid) (concat (map id_enc ms)) = (ms, Pending [])"
proof -
  have "next_frame (lg2_proto uuid) (id_enc m @ rest) = Frame (fst m) (snd m) rest" if "m \<in> set ms" for m rest
    using id_enc_frame [of "lg2_proto uuid" m rest] assms [OF that] by (simp add: lg2_proto_def)
  from parse_stream_encoded [of ms "lg2_proto uuid" id_enc "[]", OF this]
  show ?thesis by (simp add: parse_stream_Incomplete next_frame_def lg2_proto_def)
qed

lemma lg2_roundtrip_witness:
  "parse_stream (lg2_proto ''u'') (concat (map id_enc [(1001, [65]), (7, [])])) = ([(1001, [65]), (7, [])], Pending [])"
  by (rule lg2_roundtrip) (auto simp: id_msg_def MAX_LENGTH_def)

text \<open>
  a length below -1 leaves a ThreadPoolServer session dangling: the exception is logged, the
  session stays in the map of the server, and no read is armed any more.
\<close>

theorem thp_negative_dangles:
  assumes "objects srv u = Some s" "u \<in> reading srv" "u \<in> registered srv" "\<not> dead srv"
    and "sess_wf (thp_proto u) s" "\<not> head_parse s" "chunk_ok c" "4 \<le> length (pending (thp_proto u) s @ c)"
    and "id_head (pending (thp_proto u) s @ c) = Some (mid, mlen)" "short_val mlen < -1"
  shows "u \<in> registered (server_read (thp_proto u) u False c srv) \<and>
     u \<notin> reading (server_read (thp_proto u) u False c srv) \<and> \<not> dead (server_read (thp_proto u) u False c srv)"
proof -
  let ?P = "thp_proto u" and ?b = "pending (thp_proto u) s @ c"
  have P: "head_len ?P = 4" "parse_head ?P = id_head" "catches ?P" "new_node ?P mlen mid = RecvNode mlen mid"
    by (simp_all add: thp_proto_def thp_RecvNode_def)
  have ph: "parse_head ?P (take (head_len ?P) ?b) = Some (mid, mlen)"
    using assms(9) id_head_take4 [of ?b] P by simp
  have "next_frame ?P ?b = NegativeLen"
    using ph assms(8,10) P by (simp add: next_frame_def del: take_append)
  then have "handle_read ?P False (length c) (deliver c s) = Some (Swallowed (deliver c s))"
    using thp.handle_read_negative [OF assms(5,7) _ ph] P RecvNode_neg [OF assms(10)] by simp
  then show ?thesis using assms(1-4) by (simp add: server_read_def Let_def)
qed

lemma thp_negative_dangles_witness:
  "''u'' \<in> registered (server_read (thp_proto ''u'') ''u'' False [0, 1, 255, 254]
       (thp_HandleAccept new_LogicSystem False ''v'' (new_server ''u'')))"
proof -
  obtain s where s: "start_session (thp_proto ''u'') new_LogicSystem = Ok s" "sess_wf (thp_proto ''u'') s"
    "pending (thp_proto ''u'') s = []"
    using thp.start_session_Ok by blast
  have hp: "\<not> head_parse s" using s(1) by (auto simp: start_session_def cxx_bind_eq_Ok rearm_def)
  let ?srv = "thp_HandleAccept new_LogicSystem False ''v'' (new_server ''u'')"
  have srv: "objects ?srv ''u'' = Some s" "''u'' \<in> reading ?srv" "''u'' \<in> registered ?srv" "\<not> dead ?srv"
    using s(1) by (simp_all add: thp_HandleAccept_def HandleAccept_def new_server_def StartAccept_def)
  have "id_head [0, 1, 255, 254] = Some (1, -2)" "short_val (-2) < -1" by code_simp+
  from thp_negative_dangles [OF srv s(2) hp _ _ _ this(2), of "[0, 1, 255, 254]" 1] this(1) s(3)
  show ?thesis by (simp add: chunk_ok_def MAX_LENGTH_def)
qed

section \<open>The servers that answer inline\<close>

text \<open>
  C18: ProtobufServer answers every message of a stream whose headers are accepted: for any cutting into reads
  and any interleaving with write completions, the bytes on the wire followed by those queued are the
  encoded replies, in order, and as many more completions as there are nodes queued bring all of them on the
  wire; when the serialised replies fit a node (at most 32765 bytes) and at most 1001 messages came.
\<close>

theorem pb_answers:
  assumes "\<And>b. length b \<le> MAX_LENGTH \<Longrightarrow> length (pb_reply api b) + 2 < 2 ^ 15"
    and "\<And>c. c \<in> set (chunks es) \<Longrightarrow> chunk_ok c"
    and "parse_stream (pb_proto api) (concat (chunks es)) = (ms, Pending p)" "length ms \<le> Suc MAX_SENDQUE"
  shows "\<exists>s0 s out s' wire. pb_Start api = Ok s0 \<and> feeds (session_step (pb_proto api)) (s0, []) es = Some (s, out) \<and>
     pending (pb_proto api) s = p \<and> answered (s, out) = concat (map (pb_enc api) ms) \<and>
     feeds (session_step (pb_proto api)) (s, out) (replicate (length (send_que (world s))) WriteDone) = Some (s', wire) \<and>
     send_que (world s') = [] \<and> wire = concat (map (pb_enc api) ms)"
proof -
  have "pb_fits api (mid, body)" if "next_frame (pb_proto api) bs = Frame mid body rest" for bs mid body rest
    using prefix_recode(2) [OF pb_sel(1,2) _ that, of swap16] assms(1) by (simp add: pb_fits_def small_msg_def)
  then have pb_echo: "echo_session (pb_proto api) que_full (pb_enc api) (pb_fits api)"
    by (intro echo_session.intro pb.frame_protocol_axioms pb_pump.write_pump_axioms echo_session_axioms.intro)
  have "\<not> que_full k" if "k < length ms" for k using that assms(4) by (simp add: que_full_def)
  from echo_session.connection_answers [OF pb_echo assms(2,3) this]
  show ?thesis unfolding pb_Start_def by blast
qed

definition short_pb :: "byte list pb_api" where
  "short_pb = \<lparr>pb_parse = (\<lambda>s. s), pb_id = (\<lambda>_. 1), pb_data = (\<lambda>s. s), pb_build = (\<lambda>_ d. d), pb_serialize = (\<lambda>s. s)\<rparr>"

text \<open>\<^const>\<open>short_pb\<close> stands for the protobuf library in the example: a message is its data.\<close>

lemma pb_example_stream: "parse_stream (pb_proto short_pb) [0, 1, 65] = ([(0, [65])], Pending [])"
  by code_simp

lemma pb_answers_witness:
  "\<exists>s0 s out s' wire. pb_Start short_pb = Ok s0 \<and>
     feeds (session_step (pb_proto short_pb)) (s0, []) [ReadChunk [0], ReadChunk [1, 65]] = Some (s, out) \<and>
     pending (pb_proto short_pb) s = [] \<and> answered (s, out) = concat (map (pb_enc short_pb) [(0, [65])]) \<and>
     feeds (session_step (pb_proto short_pb)) (s, out) (replicate (length (send_que (world s))) WriteDone) = Some (s', wire) \<and>
     send_que (world s') = [] \<and> wire = concat (map (pb_enc short_pb) [(0, [65])])"
  by (rule pb_answers)
    (auto simp: pb_reply_def short_pb_def Let_def chunk_ok_def MAX_LENGTH_def MAX_SENDQUE_def
      pb_example_stream [unfolded short_pb_def])

text \<open>
  C19: MsgJsonIDServer cannot answer: \<open>SendNode\<close> passes \<open>HEAD_DATA_LEN\<close> where the four header bytes need
  \<open>HEAD_TOTAL_LEN\<close>, so the copy of the body overruns the array for every reply.  A complete message at the
  front of the pending bytes that the callback answers, with a reply below 32766 bytes and room in the queue,
  makes \<open>HandleRead\<close> undefined.
\<close>

theorem js_reply_overflows:
  assumes "sess_wf (js_proto api) s" "chunk_ok c"
    and "parse_stream (js_proto api) (pending (js_proto api) s @ c) = ((mid, body) # ms, e)"
    and "HelloWorldCallBack api body = Ok (r, i)" "length r + 2 < 2 ^ 15" "\<not> que_full (length (send_que (world s)))"
  shows "js_HandleRead api False (length c) (deliver c s) = Some Undefined"
proof -
  have "length body < 2 ^ 15"
    using id_frame_small [OF js_sel(1,2) assms(3), of "(mid, body)"] by (simp add: MAX_LENGTH_def)
  then have "cxx_fold (deliver_msg (js_proto api)) (world s) ((mid, body) # ms) = UB"
    using assms(4) js_Send_string_UB [OF assms(5,6)] by (simp add: js_deliver cxx_simps)
  then show ?thesis
    using js.handle_read_fail [OF assms(1-3)] by (auto simp: js.failed_end_def js_HandleRead_def)
qed

lemma js_example_stream:
  "parse_stream (js_proto plain_api) [3, 233, 0, 1, 65] = ([(1001, [65])], Pending [])"
  by code_simp

lemma js_start_example:
  obtains s where "js_Start api = Ok s" "sess_wf (js_proto api) s" "pending (js_proto api) s = []" "world s = empty_send"
  using js.start_session_Ok unfolding js_Start_def by blast

lemma js_reply_overflows_witness:
  "\<exists>s. js_Start plain_api = Ok s \<and>
     js_HandleRead plain_api False (length [3, 233, 0, 1, 65 :: byte]) (deliver [3, 233, 0, 1, 65] s) = Some Undefined"
proof -
  obtain s where s: "js_Start plain_api = Ok s" "sess_wf (js_proto plain_api) s" "pending (js_proto plain_api) s = []"
    "world s = empty_send" by (rule js_start_example)
  have "js_HandleRead plain_api False (length [3, 233, 0, 1, 65 :: byte]) (deliver [3, 233, 0, 1, 65] s) = Some Undefined"
    by (rule js_reply_overflows [OF s(2), where mid = 1001 and body = "[65]" and ms = "[]" and r = "greeting @ [65]" and i = 1001])
      (use s in \<open>simp_all add: chunk_ok_def MAX_LENGTH_def js_example_stream plain_api_reply empty_send_def que_full_def\<close>)
  with s(1) show ?thesis by blast
qed

text \<open>
  a JSON error in MsgJsonIDServer is swallowed: \<open>HandleRead\<close> logs the exception and returns
  without arming a read, closing the socket or leaving the map of sessions.
\<close>

theorem js_json_error_swallowed:
  assumes "sess_wf (js_proto api) s" "chunk_ok c"
    and "parse_stream (js_proto api) (pending (js_proto api) s @ c) = ((mid, body) # ms, e)"
    and "HelloWorldCallBack api body = Throw x"
  shows "\<exists>s'. js_HandleRead api False (length c) (deliver c s) = Some (Swallowed s')"
proof -
  have "length body < 2 ^ 15"
    using id_frame_small [OF js_sel(1,2) assms(3), of "(mid, body)"] by (simp add: MAX_LENGTH_def)
  then have "cxx_fold (deliver_msg (js_proto api)) (world s) ((mid, body) # ms) = Throw x"
    using assms(4) by (simp add: js_deliver cxx_simps)
  then show ?thesis
    using js.handle_read_fail [OF assms(1-3)] by (auto simp: js.failed_end_def js_HandleRead_def)
qed

lemma js_example_stream_error:
  "parse_stream (js_proto (plain_api\<lparr>get_id := \<lambda>_. Throw JsonError\<rparr>)) [3, 233, 0, 1, 65] = ([(1001, [65])], Pending [])"
  by code_simp

lemma js_json_error_swallowed_witness:
  "\<exists>s s'. js_Start (plain_api\<lparr>get_id := \<lambda>_. Throw JsonError\<rparr>) = Ok s \<and>
     js_HandleRead (plain_api\<lparr>get_id := \<lambda>_. Throw JsonError\<rparr>) False (length [3, 233, 0, 1, 65 :: byte])
       (deliver [3, 233, 0, 1, 65] s) = Some (Swallowed s')"
proof -
  let ?api = "plain_api\<lparr>get_id := \<lambda>_. Throw JsonError\<rparr>"
  obtain s where s: "js_Start ?api = Ok s" "sess_wf (js_proto ?api) s" "pending (js_proto ?api) s = []"
    by (rule js_start_example)
  have "\<exists>s'. js_HandleRead ?api False (length [3, 233, 0, 1, 65 :: byte]) (deliver [3, 233, 0, 1, 65] s) = Some (Swallowed s')"
    by (rule js_json_error_swallowed [OF s(2), where mid = 1001 and body = "[65]" and ms = "[]" and x = JsonError])
      (use s in \<open>simp_all add: chunk_ok_def MAX_LENGTH_def js_example_stream_error HelloWorldCallBack_def cxx_simps Let_def\<close>)
  with s(1) show ?thesis by blast
qed

section \<open>The coroutine server\<close>

text \<open>
  C4: the coroutine of CoroutineServer reads the messages the callback servers read: any cutting of
  a stream whose headers are all accepted and whose bodies are not empty posts them, in order, and leaves the same bytes pending.
\<close>

theorem co_same_messages:
  assumes "parse_stream (lg1_proto uuid) (concat cs) = (ms, Pending p)" "\<And>m. m \<in> set ms \<Longrightarrow> snd m \<noteq> []"
  shows "\<exists>s0 s. co_Start new_LogicSystem = Ok s0 \<and> feeds (co_feed uuid) s0 cs = Some s \<and> co_pending s = p \<and>
     posted (co_world s) = map (co_posting uuid) ms"
proof -
  obtain s0 where s0: "co_Start new_LogicSystem = Ok s0" "co_wf uuid s0" "co_pending s0 = []"
    "co_world s0 = new_LogicSystem"
    using co_Start_Ok by blast
  have "logic_inv (node_string total_len) (HelloWorldCallBack plain_api) new_LogicSystem" "mutex_free new_LogicSystem"
    by (simp_all add: new_LogicSystem_def logic_inv_def mutex_free_def replies_def)
  from co_post_all [OF this assms(2), of ms uuid] obtain w where
    "cxx_fold (co_disp uuid) new_LogicSystem ms = Ok w" "posted w = map (co_posting uuid) ms"
    by (auto simp: new_LogicSystem_def)
  then show ?thesis using co.feeds_law [OF s0(2), of cs ms p w] s0 assms(1) by auto
qed

lemma co_example_stream:
  "parse_stream (lg1_proto ''c'') [3, 233, 0, 1, 65, 9] = ([(1001, [65])], Pending [9])"
  by code_simp

lemma co_same_messages_witness:
  "\<exists>s0 s. co_Start new_LogicSystem = Ok s0 \<and> feeds (co_feed ''c'') s0 [[3, 233], [0, 1, 65, 9]] = Some s \<and>
     co_pending s = [9] \<and> posted (co_world s) = map (co_posting ''c'') [(1001, [65])]"
  by (rule co_same_messages) (auto simp: co_example_stream)

text \<open>
  a message of length 0 closes a CoroutineServer session, as if the peer had gone, where
  LogicServer01 posts it: reading 0 bytes completes with \<open>n == 0\<close>.
\<close>

theorem co_zero_length_closes:
  assumes "co_wf uuid s" "co_node s = None" "co_buf s = []" "id_head hb = Some (mid, 0)" "length hb = 4"
  shows "(\<exists>s'. co_arrive uuid s hb = Some (CoClosed s') \<and> co_world s' = co_world s \<and> b_close s') \<and>
    parse_stream (lg1_proto uuid) hb = ([(mid, [])], Pending [])"
proof -
  have l: "length (node_data (co_head s)) = 5" using assms(1) by (simp add: co_wf_def co_ok_def)
  have h: "id_head (hb @ drop 4 (node_data (co_head s))) = Some (mid, 0)"
    using assms(4,5) id_head_take4 [of "hb @ drop 4 (node_data (co_head s))"] by simp
  have n: "RecvNode 0 mid = Ok (fresh_node mid 0)" using RecvNode_fresh [of 0 mid] by simp
  have "\<exists>s'. co_arrive uuid s hb = Some (CoClosed s') \<and> co_world s' = co_world s \<and> b_close s'"
    using assms(2,3,5) h n
    by (simp add: co_arrive_def Let_def co_iter_def co_got_head_def co_got_body_def co_close_def size_of_int_def
        numeral_eq_Suc)
  moreover have "next_frame (lg1_proto uuid) hb = Frame mid [] []"
    using assms(4,5) by (simp add: next_frame_def)
  then have "parse_stream (lg1_proto uuid) hb = ([(mid, [])], Pending [])"
    by (simp add: parse_stream_Frame) (simp add: parse_stream_Incomplete next_frame_def)
  ultimately show ?thesis by blast
qed

lemma co_zero_length_closes_witness:
  "\<exists>s s'. co_Start new_LogicSystem = Ok s \<and> co_arrive ''c'' s [3, 233, 0, 0] = Some (CoClosed s') \<and> b_close s'"
proof -
  obtain s where s: "co_Start new_LogicSystem = Ok s" "co_wf ''c'' s" "co_pending s = []"
    using co_Start_Ok by blast
  have st: "co_node s = None" "co_buf s = []"
    using s(1) by (auto simp: co_Start_def cxx_bind_eq_Ok)
  have "id_head [3, 233, 0, 0] = Some (1001, 0)" by code_simp
  from co_zero_length_closes [OF s(2) st this] s(1) show ?thesis by auto
qed

section \<open>Pools\<close>

text \<open>
  \<open>GetIOService\<close> hands out the contexts of the pool in turn, without ever leaving the vector,
  for every pool of at least one context.
\<close>

theorem pool_round_robin:
  assumes "0 < n"
  shows "\<exists>q. get_services k (new_pool n) = Ok (map (\<lambda>i. i mod n) [0..<k], q)"
  using get_services_mod [OF assms, of "new_pool n" _ 0 k] by (auto simp: new_pool_def)

lemma pool_round_robin_witness:
  "\<exists>q. get_services 5 (new_pool 2) = Ok (map (\<lambda>i. i mod 2) [0..<5], q)"
  by (rule pool_round_robin) simp

text \<open>
  \<open>Stop\<close> of IoContextPoolServer always returns, while \<open>Stop\<close> of CoroutineServer, which only
  drops the work guards, returns exactly when no context has an operation pending, so an open
  connection keeps it waiting.
\<close>

theorem pool_stop:
  "join_returns (iop_Stop p) \<and>
   join_returns (co_Stop p) = list_all (\<lambda>s. stopped s \<or> pending_ops s = 0) (services p)"
  by (auto simp: join_returns_def iop_Stop_def co_Stop_def run_returns_def list_all_iff)

text \<open>
  a session of IoContextPoolServer can stay in the map for ever: \<open>HandleAccept\<close> arms the first
  read before it inserts the session, so a read that fails at once on another thread clears
  a session that is not there yet; in one thread the same events leave the map empty.
\<close>

theorem iop_accept_race:
  "u \<in> registered (accept_insert nxt (server_read (iop_proto u) u True c
         (accept_start (iop_proto u) g (new_server u)))) \<and>
   u \<notin> reading (accept_insert nxt (server_read (iop_proto u) u True c
         (accept_start (iop_proto u) g (new_server u)))) \<and>
   u \<notin> registered (server_read (iop_proto u) u True c (iop_HandleAccept g False nxt (new_server u)))"
proof -
  obtain s where "start_session (iop_proto u) g = Ok s" using iop.start_session_Ok by blast
  from accept_race [OF this, of "new_server u" u] show ?thesis
    by (simp add: new_server_def StartAccept_def iop_HandleAccept_def)
qed

end
