(* ===== verification/EarlyServers.thy ===== *)
theory EarlyServers
  imports Prelude "HOL-Library.Sublist"
begin

text \<open>
  The first echo servers of \<open>example/boost/asio/socket\<close>, which send back whatever a read brings:
  \<open>AsyncServer01\<close> (handlers, a session that deletes itself), \<open>SyncServer\<close> (a thread per connection),
  \<open>CoroutineServer/CoroutineDemo\<close> (a coroutine per connection) and \<open>AsyncServer02\<close>, the first with a
  send queue.  The later servers, which know messages, are in \<open>EchoServers\<close> and after it.
\<close>

definition max_length :: nat where
  "max_length = 1024"

text \<open>\<open>LOG(INFO) << _data\<close> reads the buffer up to the first 0; without one it leaves the array.\<close>

definition log_text :: "byte list \<Rightarrow> byte list cxx" where
  "log_text d = (if 0 \<in> set d then Ok (takeWhile (\<lambda>b. b \<noteq> 0) d) else UB)"

text \<open>What a read puts into a buffer that was cleared before.\<close>

definition filled :: "byte list \<Rightarrow> byte list" where
  "filled c = c @ replicate (max_length - length c) 0"

definition text_chunk :: "byte list \<Rightarrow> bool" where
  "text_chunk c \<longleftrightarrow> c \<noteq> [] \<and> length c \<le> max_length \<and> (length c < max_length \<or> 0 \<in> set c)"

lemma log_text_filled: "length c \<le> max_length \<Longrightarrow> c \<noteq> [] \<Longrightarrow>
    (case log_text (filled c) of Ok _ \<Rightarrow> text_chunk c | Throw _ \<Rightarrow> False | UB \<Rightarrow> \<not> text_chunk c)"
  by (auto simp: log_text_def filled_def text_chunk_def)

lemma log_text_chunk: "text_chunk c \<Longrightarrow> \<exists>t. log_text (filled c) = Ok t"
  using log_text_filled [of c] by (auto simp: text_chunk_def split: cxx.splits)

lemma take_filled: "length c \<le> max_length \<Longrightarrow> take (length c) (filled c) = c"
  by (simp add: filled_def)

section \<open>AsyncServer01\<close>

text \<open>
  A session has at most one operation under way; the handler of the operation starts the next one or
  deletes the session.  \<open>sent01\<close> is what the peer has got.
\<close>

datatype op01 = NotStarted | Reading | Writing nat | Deleted

record session01 =
  data01 :: "byte list"
  op01 :: op01
  sent01 :: "byte list"

definition new_Session :: "byte list \<Rightarrow> session01" where
  "new_Session junk = \<lparr>data01 = junk, op01 = NotStarted, sent01 = []\<rparr>"

definition Start01 :: "session01 \<Rightarrow> session01" where
  "Start01 s = s\<lparr>data01 := replicate max_length 0, op01 := Reading\<rparr>"

definition handle_read01 :: "bool \<Rightarrow> nat \<Rightarrow> session01 \<Rightarrow> session01 cxx" where
  "handle_read01 error bytes_transfered s =
     (if \<not> error then cxx_bind (log_text (data01 s)) (\<lambda>_. Ok (s\<lparr>op01 := Writing bytes_transfered\<rparr>))
      else Ok (s\<lparr>op01 := Deleted\<rparr>))"

definition handle_write01 :: "bool \<Rightarrow> session01 \<Rightarrow> session01" where
  "handle_write01 error s =
     (if \<not> error then s\<lparr>data01 := replicate max_length 0, op01 := Reading\<rparr> else s\<lparr>op01 := Deleted\<rparr>)"

text \<open>
  What the \<open>io_context\<close> does with the operation under way: a read brings bytes or fails, a write takes
  the whole buffer or fails after some of it.
\<close>

datatype io_event = Received "byte list" | ReadFailed | Sent | WriteFailed nat

fun event01 :: "io_event \<Rightarrow> session01 \<Rightarrow> session01 cxx option" where
  "event01 (Received c) s =
     (if op01 s = Reading \<and> c \<noteq> [] \<and> length c \<le> max_length
      then Some (handle_read01 False (length c) (s\<lparr>data01 := c @ drop (length c) (data01 s)\<rparr>)) else None)"
| "event01 ReadFailed s = (if op01 s = Reading then Some (handle_read01 True 0 s) else None)"
| "event01 Sent s =
     (case op01 s of
        Writing n \<Rightarrow> Some (Ok (handle_write01 False (s\<lparr>sent01 := sent01 s @ take n (data01 s)\<rparr>)))
      | _ \<Rightarrow> None)"
| "event01 (WriteFailed k) s =
     (case op01 s of
        Writing n \<Rightarrow> if k < n then Some (Ok (handle_write01 True (s\<lparr>sent01 := sent01 s @ take k (data01 s)\<rparr>))) else None
      | _ \<Rightarrow> None)"

fun events01 :: "io_event list \<Rightarrow> session01 \<Rightarrow> session01 cxx option" where
  "events01 [] s = Some (Ok s)"
| "events01 (e # es) s =
     (case event01 e s of None \<Rightarrow> None | Some (Ok s') \<Rightarrow> events01 es s' | Some r \<Rightarrow> Some r)"

text \<open>The server: one session waits for a connection, the accepted ones live until they delete themselves.\<close>

record server01 =
  sessions01 :: "nat \<Rightarrow> session01 option"
  waiting01 :: nat

definition start_accept01 :: "byte list \<Rightarrow> server01 \<Rightarrow> server01" where
  "start_accept01 junk srv = (let n = Suc (waiting01 srv) in
     srv\<lparr>sessions01 := (sessions01 srv)(n \<mapsto> new_Session junk), waiting01 := n\<rparr>)"

definition handle_accept01 :: "byte list \<Rightarrow> bool \<Rightarrow> server01 \<Rightarrow> server01" where
  "handle_accept01 junk error srv =
     start_accept01 junk (srv\<lparr>sessions01 := (sessions01 srv)(waiting01 srv :=
        (if \<not> error then map_option Start01 (sessions01 srv (waiting01 srv)) else None))\<rparr>)"

definition new_Server :: "byte list \<Rightarrow> server01" where
  "new_Server junk = start_accept01 junk \<lparr>sessions01 = (\<lambda>_. None), waiting01 = 0\<rparr>"

section \<open>SyncServer and CoroutineDemo\<close>

datatype read_result = Got "byte list" | Eof | ReadErr

datatype session_end = StillReading | PeerClosed | ExceptionLogged

text \<open>
  One round of \<open>session\<close>: the result of \<open>read_some\<close>, whether \<open>remote_endpoint\<close> throws, and after how
  many bytes \<open>write\<close> fails, if it does.  The result is what was written and how the function ended;
  when the list ends it waits in \<open>read_some\<close>.
\<close>

definition prepended :: "byte list \<Rightarrow> byte list \<times> session_end \<Rightarrow> byte list \<times> session_end" where
  "prepended c r = (c @ fst r, snd r)"

fun sync_session :: "(read_result \<times> bool \<times> nat option) list \<Rightarrow> (byte list \<times> session_end) cxx" where
  "sync_session [] = Ok ([], StillReading)"
| "sync_session ((Eof, _) # _) = Ok ([], PeerClosed)"
| "sync_session ((ReadErr, _) # _) = Ok ([], ExceptionLogged)"
| "sync_session ((Got c, endpoint_throws, write_error) # rounds) =
     (if endpoint_throws then Ok ([], ExceptionLogged)
      else cxx_bind (log_text (filled c)) (\<lambda>_.
        case write_error of
          Some k \<Rightarrow> Ok (take k c, ExceptionLogged)
        | None \<Rightarrow> cxx_bind (sync_session rounds) (\<lambda>r. Ok (prepended c r))))"

text \<open>\<open>echo\<close>: the end of the stream is an exception as well, and nothing is logged.\<close>

fun co_echo :: "(read_result \<times> nat option) list \<Rightarrow> byte list \<times> session_end" where
  "co_echo [] = ([], StillReading)"
| "co_echo ((Got c, None) # rounds) = prepended c (co_echo rounds)"
| "co_echo ((Got c, Some k) # _) = (take k c, ExceptionLogged)"
| "co_echo (_ # _) = ([], ExceptionLogged)"

section \<open>AsyncServer02\<close>

text \<open>
  The constructor \<open>MsgNoe(msg, max_len)\<close> copies the bytes and leaves \<open>m_max_len\<close> as it is (\<open>None\<close>).
  A write reads \<open>m_data\<close> while it lasts: \<open>writing02 = Some (k, n)\<close> means that \<open>k\<close> of \<open>n\<close> bytes are gone.
\<close>

record node02 =
  node_bytes :: "byte list"
  node_max_len :: "nat option"

definition MsgNoe :: "byte list \<Rightarrow> nat \<Rightarrow> node02" where
  "MsgNoe msg n = \<lparr>node_bytes = take n msg, node_max_len = None\<rparr>"

record session02 =
  data02 :: "byte list"
  queue02 :: "node02 list"
  writing02 :: "(nat \<times> nat) option"
  reading02 :: bool
  listed02 :: bool
  sent02 :: "byte list"

definition Start02 :: session02 where
  "Start02 = \<lparr>data02 = replicate max_length 0, queue02 = [], writing02 = None, reading02 = True, listed02 = True,
     sent02 = []\<rparr>"

text \<open>\<open>eager\<close>: how many bytes \<open>async_write\<close> hands to the kernel before it returns.\<close>

definition Send02 :: "nat \<Rightarrow> nat \<Rightarrow> session02 \<Rightarrow> session02" where
  "Send02 eager n s =
     (let pending = queue02 s \<noteq> [];
          s1 = s\<lparr>queue02 := queue02 s @ [MsgNoe (data02 s) n]\<rparr>
      in if pending then s1
         else s1\<lparr>writing02 := Some (min eager n, n), sent02 := sent02 s @ take (min eager n) (data02 s)\<rparr>)"

definition HandleRead02 :: "nat \<Rightarrow> bool \<Rightarrow> nat \<Rightarrow> session02 \<Rightarrow> session02 cxx" where
  "HandleRead02 eager error n s =
     (if \<not> error then cxx_bind (log_text (data02 s)) (\<lambda>_.
        Ok ((Send02 eager n s)\<lparr>data02 := replicate max_length 0, reading02 := True\<rparr>))
      else Ok (s\<lparr>reading02 := False, listed02 := False\<rparr>))"

definition HandleWrite02 :: "bool \<Rightarrow> session02 \<Rightarrow> session02 cxx" where
  "HandleWrite02 error s =
     (if \<not> error then
        case tl (queue02 s) of
          [] \<Rightarrow> Ok (s\<lparr>queue02 := [], writing02 := None\<rparr>)
        | m # q \<Rightarrow> (case node_max_len m of None \<Rightarrow> UB | Some n \<Rightarrow> Ok (s\<lparr>queue02 := m # q, writing02 := Some (0, n)\<rparr>))
      else Ok (s\<lparr>writing02 := None, listed02 := False\<rparr>))"

datatype event02 = Read02 "byte list" nat | ReadFailed02 | Transmit nat | Sent02 | WriteFailed02

fun step02 :: "event02 \<Rightarrow> session02 \<Rightarrow> session02 cxx option" where
  "step02 (Read02 c eager) s =
     (if reading02 s \<and> c \<noteq> [] \<and> length c \<le> max_length
      then Some (HandleRead02 eager False (length c)
        (s\<lparr>data02 := c @ drop (length c) (data02 s), reading02 := False\<rparr>)) else None)"
| "step02 ReadFailed02 s = (if reading02 s then Some (HandleRead02 0 True 0 s) else None)"
| "step02 (Transmit j) s =
     (case writing02 s of
        Some (k, n) \<Rightarrow> if 0 < j \<and> k + j \<le> n
          then Some (Ok (s\<lparr>writing02 := Some (k + j, n), sent02 := sent02 s @ take j (drop k (data02 s))\<rparr>)) else None
      | None \<Rightarrow> None)"
| "step02 Sent02 s =
     (case writing02 s of Some (k, n) \<Rightarrow> if k = n then Some (HandleWrite02 False s) else None | None \<Rightarrow> None)"
| "step02 WriteFailed02 s = (if writing02 s \<noteq> None then Some (HandleWrite02 True s) else None)"

fun run02 :: "event02 list \<Rightarrow> session02 \<Rightarrow> session02 cxx option" where
  "run02 [] s = Some (Ok s)"
| "run02 (e # es) s = (case step02 e s of None \<Rightarrow> None | Some (Ok s') \<Rightarrow> run02 es s' | Some r \<Rightarrow> Some r)"

section \<open>A session that waits for its write before it reads again\<close>

fun received :: "io_event list \<Rightarrow> byte list" where
  "received [] = []"
| "received (Received c # es) = c @ received es"
| "received (_ # es) = received es"

definition echo_ok :: "byte list \<Rightarrow> session01 \<Rightarrow> bool" where
  "echo_ok inp s = (case op01 s of
       NotStarted \<Rightarrow> False
     | Reading \<Rightarrow> sent01 s = inp \<and> data01 s = replicate max_length 0
     | Writing n \<Rightarrow> sent01 s @ take n (data01 s) = inp
     | Deleted \<Rightarrow> take (length (sent01 s)) inp = sent01 s)"

lemma echo_ok_Start [simp]: "echo_ok [] (Start01 (new_Session junk))"
  by (simp add: echo_ok_def Start01_def new_Session_def)

lemma event01_Received:
  assumes "echo_ok inp s" "event01 (Received c) s = Some r"
  shows "case r of Ok s' \<Rightarrow> echo_ok (inp @ c) s' | Throw _ \<Rightarrow> False | UB \<Rightarrow> \<not> text_chunk c"
proof -
  have c: "op01 s = Reading" "c \<noteq> []" "length c \<le> max_length"
    and r: "r = handle_read01 False (length c) (s\<lparr>data01 := c @ drop (length c) (data01 s)\<rparr>)"
    using assms(2) by (auto split: if_splits)
  have d: "c @ drop (length c) (data01 s) = filled c" and "sent01 s = inp"
    using assms(1) c by (auto simp: echo_ok_def filled_def)
  then show ?thesis using log_text_filled [OF c(3,2)] c(3)
    by (cases "log_text (filled c)") (auto simp: r handle_read01_def cxx_simps echo_ok_def take_filled)
qed

lemma event01_other:
  assumes "echo_ok inp s" "event01 e s = Some r" "\<And>c. e \<noteq> Received c"
  shows "case r of Ok s' \<Rightarrow> echo_ok inp s' | _ \<Rightarrow> False"
  using assms by (cases e) (auto simp: handle_read01_def handle_write01_def echo_ok_def min_def
      split: op01.splits if_splits)

lemma events01_echo:
  "echo_ok inp s \<Longrightarrow> events01 es s = Some r \<Longrightarrow>
     (case r of Ok s' \<Rightarrow> echo_ok (inp @ received es) s' | Throw _ \<Rightarrow> False
      | UB \<Rightarrow> \<exists>c. Received c \<in> set es \<and> \<not> text_chunk c)"
proof (induction es arbitrary: s inp)
  case (Cons e es)
  obtain r' where r': "event01 e s = Some r'" using Cons.prems(2) by (auto split: option.splits)
  show ?case
  proof (cases "\<exists>c. e = Received c")
    case True
    then obtain c where e: "e = Received c" by blast
    show ?thesis
    proof (cases r')
      case (Ok s')
      with e have "echo_ok (inp @ c) s'" using event01_Received [OF Cons.prems(1)] r' by fastforce
      then show ?thesis using Cons.IH [of "inp @ c" s'] Cons.prems(2) e r' Ok by (auto split: cxx.splits)
    next
      case (Throw x)
      then show ?thesis using event01_Received [OF Cons.prems(1)] r' e by fastforce
    next
      case UB
      then have "\<not> text_chunk c" "r = UB" using event01_Received [OF Cons.prems(1)] r' e Cons.prems(2) by fastforce+
      then show ?thesis using e by auto
    qed
  next
    case False
    then obtain s' where s': "r' = Ok s'" "echo_ok inp s'" using event01_other [OF Cons.prems(1) r'] by (auto split: cxx.splits)
    have "received (e # es) = received es" using False by (cases e) auto
    then show ?thesis using Cons.IH [OF s'(2)] Cons.prems(2) r' s'(1) by (auto split: cxx.splits)
  qed
qed auto

section \<open>The same echo in three styles\<close>

text \<open>One script for the three: what the reads bring and which write fails.\<close>

fun events_of :: "(read_result \<times> nat option) list \<Rightarrow> io_event list" where
  "events_of [] = []"
| "events_of ((Got c, None) # rounds) = Received c # Sent # events_of rounds"
| "events_of ((Got c, Some k) # _) = [Received c, WriteFailed k]"
| "events_of (_ # _) = [ReadFailed]"

text \<open>What can happen: a read brings 1 to 1024 bytes, a failing write has taken less than it was given.\<close>

fun io_rounds :: "(read_result \<times> nat option) list \<Rightarrow> bool" where
  "io_rounds [] \<longleftrightarrow> True"
| "io_rounds ((Got c, w) # rounds) \<longleftrightarrow> c \<noteq> [] \<and> length c \<le> max_length \<and>
     (case w of None \<Rightarrow> True | Some k \<Rightarrow> k < length c) \<and> io_rounds rounds"
| "io_rounds (_ # rounds) \<longleftrightarrow> io_rounds rounds"

text \<open>Up to the first failure every read leaves a 0 in the buffer, so that the log is defined.\<close>

fun text_rounds :: "(read_result \<times> nat option) list \<Rightarrow> bool" where
  "text_rounds [] \<longleftrightarrow> True"
| "text_rounds ((Got c, None) # rounds) \<longleftrightarrow> text_chunk c \<and> text_rounds rounds"
| "text_rounds ((Got c, Some k) # _) \<longleftrightarrow> text_chunk c"
| "text_rounds (_ # _) \<longleftrightarrow> True"

text \<open>The rounds of \<open>SyncServer\<close> say for each read whether \<open>remote_endpoint\<close> throws.\<close>

definition without_endpoint :: "(read_result \<times> bool \<times> nat option) list \<Rightarrow> (read_result \<times> nat option) list" where
  "without_endpoint = map (\<lambda>(r, _, w). (r, w))"

fun endpoint_fails :: "(read_result \<times> bool \<times> nat option) list \<Rightarrow> bool" where
  "endpoint_fails ((Got c, throws, w) # rounds) \<longleftrightarrow> throws \<or> w = None \<and> endpoint_fails rounds"
| "endpoint_fails _ \<longleftrightarrow> False"

lemma log_text_UB: "c \<noteq> [] \<Longrightarrow> length c \<le> max_length \<Longrightarrow> \<not> text_chunk c \<Longrightarrow> log_text (filled c) = UB"
  using log_text_filled [of c] by (auto split: cxx.splits)

lemma events01_UB:
  assumes "c \<noteq> []" "length c \<le> max_length" "\<not> text_chunk c" "op01 s = Reading" "data01 s = replicate max_length 0"
  shows "events01 (Received c # es) s = Some UB"
  using assms log_text_UB [OF assms(1-3)] by (simp add: handle_read01_def cxx_simps flip: filled_def)

lemma events01_round:
  assumes "text_chunk c" "op01 s = Reading" "data01 s = replicate max_length 0"
  shows "events01 (Received c # Sent # es) s = events01 es (s\<lparr>sent01 := sent01 s @ c\<rparr>)"
    and "k < length c \<Longrightarrow> events01 [Received c, WriteFailed k] s =
      Some (Ok (s\<lparr>sent01 := sent01 s @ take k c, op01 := Deleted, data01 := filled c\<rparr>))"
proof -
  have c: "c \<noteq> []" "length c \<le> max_length" using assms(1) by (auto simp: text_chunk_def)
  obtain t where t: "log_text (filled c) = Ok t" using log_text_chunk [OF assms(1)] by blast
  have d: "c @ replicate (max_length - length c) 0 = filled c" by (simp add: filled_def)
  have e: "event01 (Received c) s = Some (Ok (s\<lparr>data01 := filled c, op01 := Writing (length c)\<rparr>))"
    using assms c t d by (simp add: handle_read01_def cxx_simps)
  have "s\<lparr>sent01 := sent01 s @ c, data01 := replicate max_length 0, op01 := Reading\<rparr> = s\<lparr>sent01 := sent01 s @ c\<rparr>"
    using assms by (cases s) simp
  then show "events01 (Received c # Sent # es) s = events01 es (s\<lparr>sent01 := sent01 s @ c\<rparr>)"
    using c e by (simp add: handle_write01_def take_filled del: event01.simps(1))
  show "events01 [Received c, WriteFailed k] s =
      Some (Ok (s\<lparr>sent01 := sent01 s @ take k c, op01 := Deleted, data01 := filled c\<rparr>))" if "k < length c"
    using c e that by (simp add: handle_write01_def filled_def del: event01.simps(1))
qed

lemma events01_script:
  "io_rounds rs \<Longrightarrow> op01 s = Reading \<Longrightarrow> data01 s = replicate max_length 0 \<Longrightarrow>
     (if text_rounds rs
      then \<exists>s'. events01 (events_of rs) s = Some (Ok s') \<and> sent01 s' = sent01 s @ fst (co_echo rs) \<and>
        op01 s' = (if snd (co_echo rs) = StillReading then Reading else Deleted)
      else events01 (events_of rs) s = Some UB)"
proof (induction rs arbitrary: s rule: events_of.induct)
  case (2 c rounds)
  show ?case
  proof (cases "text_chunk c")
    case True
    then show ?thesis using 2
      using events01_round(1) [of c s "events_of rounds"] "2.IH" [of "s\<lparr>sent01 := sent01 s @ c\<rparr>"]
      by (simp add: prepended_def del: events01.simps split: if_splits)
  next
    case False
    then show ?thesis using 2 events01_UB [of c s] by (simp del: events01.simps)
  qed
next
  case (3 c k rounds)
  then show ?case using events01_round(2) [of c s k] events01_UB [of c s] by (simp del: events01.simps)
qed (auto simp: handle_read01_def)

lemma sync_session_script:
  "io_rounds (without_endpoint rs) \<Longrightarrow> \<not> endpoint_fails rs \<Longrightarrow>
     (if text_rounds (without_endpoint rs)
      then \<exists>e. sync_session rs = Ok (fst (co_echo (without_endpoint rs)), e) \<and>
        (e = StillReading \<longleftrightarrow> snd (co_echo (without_endpoint rs)) = StillReading)
      else sync_session rs = UB)"
proof (induction rs rule: sync_session.induct)
  case (4 c endpoint_throws write_error rounds)
  then show ?case using log_text_chunk [of c] log_text_UB [of c]
    by (cases write_error; cases "text_chunk c") (auto simp: without_endpoint_def cxx_simps prepended_def split: if_splits)
qed (auto simp: without_endpoint_def)

lemma sync_session_throws:
  "io_rounds (without_endpoint rs) \<Longrightarrow> endpoint_fails rs \<Longrightarrow>
     (case sync_session rs of
        Ok (sent, e) \<Rightarrow> e = ExceptionLogged \<and> prefix sent (fst (co_echo (without_endpoint rs)))
      | Throw _ \<Rightarrow> False
      | UB \<Rightarrow> \<not> text_rounds (without_endpoint rs))"
proof (induction rs rule: sync_session.induct)
  case (4 c endpoint_throws write_error rounds)
  then show ?case using log_text_chunk [of c] log_text_UB [of c]
    by (cases write_error; cases "text_chunk c"; cases endpoint_throws)
      (auto simp: without_endpoint_def cxx_simps prepended_def split: cxx.splits)
qed (auto simp: without_endpoint_def)

text \<open>
  C32: The session of \<open>AsyncServer01\<close>, that of \<open>SyncServer\<close> and the coroutine of \<open>CoroutineDemo\<close> do the same
  with the same reads and writes when every read up to the first failure leaves a 0 in the buffer and
  \<open>remote_endpoint\<close> does not throw: they send back what came, in order and up to the write that fails, read on as
  long as nothing fails, and end at the first failure.  A read that leaves no 0 makes the log of \<open>AsyncServer01\<close> and
  of \<open>SyncServer\<close> undefined, while \<open>CoroutineDemo\<close> logs nothing; where \<open>remote_endpoint\<close> throws, the session of
  \<open>SyncServer\<close> ends with a beginning of the echo.
\<close>

theorem early_servers_agree:
  assumes "io_rounds (without_endpoint rs)"
  shows "(if text_rounds (without_endpoint rs)
       then \<exists>s. events01 (events_of (without_endpoint rs)) (Start01 (new_Session junk)) = Some (Ok s) \<and>
         sent01 s = fst (co_echo (without_endpoint rs)) \<and>
         op01 s = (if snd (co_echo (without_endpoint rs)) = StillReading then Reading else Deleted)
       else events01 (events_of (without_endpoint rs)) (Start01 (new_Session junk)) = Some UB) \<and>
     (if endpoint_fails rs
      then case sync_session rs of
          Ok (sent, e) \<Rightarrow> e = ExceptionLogged \<and> prefix sent (fst (co_echo (without_endpoint rs)))
        | Throw _ \<Rightarrow> False
        | UB \<Rightarrow> \<not> text_rounds (without_endpoint rs)
      else if text_rounds (without_endpoint rs)
      then \<exists>e. sync_session rs = Ok (fst (co_echo (without_endpoint rs)), e) \<and>
        (e = StillReading \<longleftrightarrow> snd (co_echo (without_endpoint rs)) = StillReading)
      else sync_session rs = UB)"
proof (intro conjI)
  have start: "op01 (Start01 (new_Session junk)) = Reading" "data01 (Start01 (new_Session junk)) = replicate max_length 0"
    "sent01 (Start01 (new_Session junk)) = []" by (simp_all add: Start01_def new_Session_def)
  show "if text_rounds (without_endpoint rs)
       then \<exists>s. events01 (events_of (without_endpoint rs)) (Start01 (new_Session junk)) = Some (Ok s) \<and>
         sent01 s = fst (co_echo (without_endpoint rs)) \<and>
         op01 s = (if snd (co_echo (without_endpoint rs)) = StillReading then Reading else Deleted)
       else events01 (events_of (without_endpoint rs)) (Start01 (new_Session junk)) = Some UB"
    using events01_script [OF assms start(1,2)] by (simp only: start(3) append_Nil)
  show "if endpoint_fails rs
      then case sync_session rs of
          Ok (sent, e) \<Rightarrow> e = ExceptionLogged \<and> prefix sent (fst (co_echo (without_endpoint rs)))
        | Throw _ \<Rightarrow> False
        | UB \<Rightarrow> \<not> text_rounds (without_endpoint rs)
      else if text_rounds (without_endpoint rs)
      then \<exists>e. sync_session rs = Ok (fst (co_echo (without_endpoint rs)), e) \<and>
        (e = StillReading \<longleftrightarrow> snd (co_echo (without_endpoint rs)) = StillReading)
      else sync_session rs = UB"
    using sync_session_throws [OF assms] sync_session_script [OF assms] by (cases "endpoint_fails rs") simp_all
qed

lemma early_servers_agree_witness:
  "\<exists>s. events01 [Received [104, 105], Sent, Received [33], WriteFailed 0] (Start01 (new_Session [])) = Some (Ok s) \<and>
      sent01 s = [104, 105]"
proof -
  have "io_rounds (without_endpoint [(Got [104, 105], False, None), (Got [33], False, Some 0)])"
    by (simp add: without_endpoint_def max_length_def)
  from early_servers_agree [OF this, of "[]"] show ?thesis
    by (auto simp: without_endpoint_def prepended_def text_chunk_def max_length_def simp del: events01.simps sync_session.simps)
qed

text \<open>
  Whatever a client of \<open>AsyncServer01\<close> sends and whenever a call fails: it gets back a prefix of it, all of
  it when the session reads again, and only a full buffer without a 0 makes the log read outside.
\<close>

theorem AsyncServer01_echo:
  assumes "events01 es (Start01 (new_Session junk)) = Some r"
  shows "case r of Ok s \<Rightarrow> echo_ok (received es) s | Throw _ \<Rightarrow> False
    | UB \<Rightarrow> \<exists>c. Received c \<in> set es \<and> \<not> text_chunk c"
  using events01_echo [OF echo_ok_Start assms] by (simp only: append_Nil)

text \<open>The server of \<open>AsyncServer01\<close>: exactly the session that waits has not been started.\<close>

lemma handle_accept01_waiting:
  assumes "\<exists>s. sessions01 srv (waiting01 srv) = Some s \<and> op01 s = NotStarted"
    and "\<And>n s. sessions01 srv n = Some s \<Longrightarrow> n \<noteq> waiting01 srv \<Longrightarrow> n < waiting01 srv \<and> op01 s \<noteq> NotStarted"
    and "srv' = handle_accept01 junk err srv"
  shows "(\<exists>s. sessions01 srv' (waiting01 srv') = Some s \<and> op01 s = NotStarted) \<and>
    (\<forall>n s. sessions01 srv' n = Some s \<longrightarrow> n \<noteq> waiting01 srv' \<longrightarrow> n < waiting01 srv' \<and> op01 s \<noteq> NotStarted)"
  using assms(1,3) less_SucI [OF assms(2) [THEN conjunct1]] assms(2)
  by (auto simp: handle_accept01_def start_accept01_def Let_def Start01_def new_Session_def split: if_splits)

section \<open>The queue of AsyncServer02\<close>

definition sizes_unset :: "session02 \<Rightarrow> bool" where
  "sizes_unset s \<longleftrightarrow> list_all (\<lambda>m. node_max_len m = None) (queue02 s)"

lemma step02_sizes: "sizes_unset s \<Longrightarrow> step02 e s = Some (Ok s') \<Longrightarrow> sizes_unset s'"
  by (cases e; cases "queue02 s") (auto simp: HandleRead02_def HandleWrite02_def Send02_def Let_def MsgNoe_def sizes_unset_def cxx_bind_eq_Ok
      split: if_splits option.splits list.splits)

lemma run02_sizes: "sizes_unset s \<Longrightarrow> run02 es s = Some (Ok s') \<Longrightarrow> sizes_unset s'"
proof (induction es arbitrary: s)
  case (Cons e es)
  then show ?case by (auto split: option.splits cxx.splits dest: step02_sizes)
qed simp

lemma run02_append: "run02 es s = Some (Ok s') \<Longrightarrow> run02 (es @ fs) s = run02 fs s'"
proof (induction es arbitrary: s)
  case (Cons e es)
  then show ?case by (auto split: option.splits cxx.splits)
qed simp

lemma Read02_Ok:
  assumes "text_chunk c" "reading02 s" "data02 s = replicate max_length 0"
  shows "step02 (Read02 c k) s = Some (Ok ((Send02 k (length c) (s\<lparr>data02 := filled c, reading02 := False\<rparr>))
      \<lparr>data02 := replicate max_length 0, reading02 := True\<rparr>))"
proof -
  obtain t where "log_text (filled c) = Ok t" using log_text_chunk [OF assms(1)] by blast
  moreover have "c \<noteq> []" "length c \<le> max_length" using assms(1) by (auto simp: text_chunk_def)
  moreover have "c @ replicate (max_length - length c) 0 = filled c" by (simp add: filled_def)
  ultimately show ?thesis using assms by (simp add: HandleRead02_def cxx_simps)
qed

lemma Start02_simps [simp]:
  "reading02 Start02" "data02 Start02 = replicate max_length 0" "queue02 Start02 = []" "sent02 Start02 = []"
  "writing02 Start02 = None" "listed02 Start02"
  by (simp_all add: Start02_def)

text \<open>In any run, the end of a write with a message behind it is undefined.\<close>

lemma AsyncServer02_second:
  assumes "run02 es Start02 = Some (Ok s)" "2 \<le> length (queue02 s)" "step02 Sent02 s = Some r"
  shows "r = UB"
proof -
  have "sizes_unset s" using run02_sizes [OF _ assms(1)] by (simp add: sizes_unset_def)
  then show ?thesis using assms(2,3)
    by (cases "queue02 s"; cases "tl (queue02 s)")
      (auto simp: HandleWrite02_def sizes_unset_def split: option.splits if_splits)
qed

text \<open>
  A read of \<open>c\<close> whose write is done before the next read: \<open>e\<close> bytes are handed over at once, the others later in
  pieces of the lengths \<open>js\<close>.  What comes later is zeros, since \<open>HandleRead\<close> has cleared the buffer.
\<close>

definition round02 :: "byte list \<times> nat \<times> nat list \<Rightarrow> event02 list" where
  "round02 = (\<lambda>(c, e, js). Read02 c e # map Transmit js @ [Sent02])"

definition round02_ok :: "byte list \<times> nat \<times> nat list \<Rightarrow> bool" where
  "round02_ok = (\<lambda>(c, e, js). text_chunk c \<and> list_all (\<lambda>j. 0 < j) js \<and> sum_list js = length c - e)"

definition answer02 :: "byte list \<times> nat \<times> nat list \<Rightarrow> byte list" where
  "answer02 = (\<lambda>(c, e, js). take e c @ replicate (length c - e) 0)"

lemma run02_transmits:
  "list_all (\<lambda>j. 0 < j) js \<Longrightarrow> writing02 s = Some (k, n) \<Longrightarrow> k + sum_list js = n \<Longrightarrow> n \<le> max_length \<Longrightarrow>
     data02 s = replicate max_length 0 \<Longrightarrow>
     run02 (map Transmit js) s = Some (Ok (s\<lparr>writing02 := Some (n, n), sent02 := sent02 s @ replicate (sum_list js) 0\<rparr>))"
proof (induction js arbitrary: s k)
  case Nil
  then show ?case by simp
next
  case (Cons j js)
  then show ?case using Cons.IH [of "s\<lparr>writing02 := Some (k + j, n), sent02 := sent02 s @ replicate j 0\<rparr>" "k + j"]
    by (simp add: replicate_add min_def)
qed

lemma run02_round:
  assumes "round02_ok x" "reading02 s" "data02 s = replicate max_length 0" "queue02 s = []"
  shows "run02 (round02 x) s = Some (Ok (s\<lparr>writing02 := None, sent02 := sent02 s @ answer02 x\<rparr>))"
proof -
  obtain c e js where x: "x = (c, e, js)" by (cases x)
  then have c: "text_chunk c" "length c \<le> max_length" "list_all (\<lambda>j. 0 < j) js" "sum_list js = length c - e"
    using assms(1) by (auto simp: round02_ok_def text_chunk_def)
  define s1 where "s1 = s\<lparr>queue02 := [MsgNoe (filled c) (length c)], writing02 := Some (min e (length c), length c),
    sent02 := sent02 s @ take e c\<rparr>"
  have "take (min e (length c)) (filled c) = take e c" by (simp add: filled_def min_def)
  then have "step02 (Read02 c e) s = Some (Ok s1)"
    using assms Read02_Ok [OF c(1) assms(2,3), of e] by (simp add: Send02_def s1_def Let_def del: step02.simps)
  moreover have "run02 (map Transmit js) s1 =
      Some (Ok (s1\<lparr>writing02 := Some (length c, length c), sent02 := sent02 s1 @ replicate (length c - e) 0\<rparr>))"
    using run02_transmits [OF c(3), of s1 "min e (length c)" "length c"] c assms(3) by (simp add: s1_def)
  ultimately show ?thesis using run02_append [of "map Transmit js" s1]
    by (simp add: x round02_def answer02_def s1_def HandleWrite02_def assms del: step02.simps(1,2,3,5))
qed

lemma run02_rounds:
  "list_all round02_ok xs \<Longrightarrow> reading02 s \<Longrightarrow> data02 s = replicate max_length 0 \<Longrightarrow> queue02 s = [] \<Longrightarrow>
     \<exists>s'. run02 (concat (map round02 xs)) s = Some (Ok s') \<and> sent02 s' = sent02 s @ concat (map answer02 xs)"
proof (induction xs arbitrary: s)
  case (Cons x xs)
  then show ?case using run02_append [OF run02_round [of x s]] Cons.IH [of "s\<lparr>writing02 := None, sent02 := sent02 s @ answer02 x\<rparr>"]
    by simp
qed simp

lemma answer02_echo: "answer02 (c, e, js) = c \<longleftrightarrow> set (drop e c) \<subseteq> {0}"
proof -
  have "answer02 (c, e, js) = c \<longleftrightarrow> take e c @ replicate (length c - e) 0 = take e c @ drop e c"
    by (simp add: answer02_def)
  also have "\<dots> \<longleftrightarrow> drop e c = replicate (length c - e) 0" by (simp only: same_append_eq eq_commute)
  also have "\<dots> \<longleftrightarrow> set (drop e c) \<subseteq> {0}"
    using replicate_eqI [of "drop e c" "length c - e" 0] by (auto simp: set_replicate_conv_if split: if_splits)
  finally show ?thesis .
qed

lemma answers02_echo: "concat (map answer02 xs) = concat (map fst xs) \<longleftrightarrow> list_all (\<lambda>(c, e, js). set (drop e c) \<subseteq> {0}) xs"
proof (induction xs)
  case (Cons x xs)
  obtain c e js where x: "x = (c, e, js)" by (cases x)
  have "length (answer02 x) = length c" by (simp add: x answer02_def)
  then show ?case using Cons answer02_echo [of c e js] by (simp add: x)
qed simp

text \<open>
  C33: \<open>AsyncServer02\<close> when each write is done before the next read: the client gets of each chunk what
  \<open>async_write\<close> handed over at once, and zeros for the rest, since \<open>HandleRead\<close> clears \<open>m_data\<close> under the write; so
  it gets an echo exactly when what was not handed over at once was zeros.  And in every run, the end of a write
  behind which another message waits is undefined: the next write has a length that was never set.
\<close>

theorem AsyncServer02_echo:
  assumes "list_all round02_ok xs"
    and "run02 es Start02 = Some (Ok s)" "2 \<le> length (queue02 s)" "step02 Sent02 s = Some r"
  shows "(\<exists>s. run02 (concat (map round02 xs)) Start02 = Some (Ok s) \<and> sent02 s = concat (map answer02 xs) \<and>
      (sent02 s = concat (map fst xs) \<longleftrightarrow> list_all (\<lambda>(c, e, js). set (drop e c) \<subseteq> {0}) xs)) \<and> r = UB"
  using run02_rounds [OF assms(1), of Start02] AsyncServer02_second [OF assms(2-4)] answers02_echo [of xs] by auto

lemma AsyncServer02_echo_witness:
  "\<exists>s. run02 [Read02 [65, 66, 67] 1, Transmit 2, Sent02, Read02 [68] 1, Sent02] Start02 = Some (Ok s) \<and>
     sent02 s = [65, 0, 0, 68]"
proof -
  have ok: "list_all round02_ok [([65, 66, 67], 1, [2]), ([68], 1, [])]"
    by (simp add: round02_ok_def text_chunk_def max_length_def)
  have "text_chunk [65]" "text_chunk [66]" by (simp_all add: text_chunk_def max_length_def)
  then have "\<exists>s. run02 [Read02 [65] 1, Read02 [66] 1] Start02 = Some (Ok s) \<and> length (queue02 s) = 2 \<and> writing02 s = Some (1, 1)"
    by (simp add: Read02_Ok Send02_def MsgNoe_def del: step02.simps(1))
  then obtain s where s: "run02 [Read02 [65] 1, Read02 [66] 1] Start02 = Some (Ok s)" "2 \<le> length (queue02 s)"
    "step02 Sent02 s = Some (HandleWrite02 False s)" by auto
  from AsyncServer02_echo [OF ok s] show ?thesis
    by (auto simp: round02_def answer02_def simp del: run02.simps)
qed

end
