(* ===== verification/Clients.thy ===== *)
theory Clients
  imports EchoTheorems ServerTheorems EarlyServers
begin

text \<open>
  The clients of \<open>example/boost/asio/socket\<close> that go with the servers: what they send, what they read of
  the answers, and what comes out when client and server meet.  \<open>SyncClient\<close> talks to the first servers,
  \<open>sync_client01\<close> (two copies) to \<open>AsyncServer03\<close>, \<open>Async_async_client04\<close> to \<open>AsyncServer04\<close>, the clients
  with a message id to \<open>MsgJsonIDServer\<close>, \<open>LogicServer\<close> and the pool servers.
\<close>

section \<open>What a client sends\<close>

definition client_max :: nat where
  "client_max = 1024 * 2"

text \<open>
  \<open>send_data\<close>: zeros, the header bytes copied to the front, the body behind them; \<open>asio::write\<close> sends the
  two together.  The copies are not checked against the size of the array.
\<close>

definition client_frame :: "byte list \<Rightarrow> byte list \<Rightarrow> byte list cxx" where
  "client_frame header body =
     cxx_bind (memcpy_at (replicate client_max 0) 0 header (length header)) (\<lambda>d.
     cxx_bind (memcpy_at d (int (length header)) body (length body)) (\<lambda>d'.
       Ok (take (length body + length header) d')))"

text \<open>\<open>std::cin.getline(request, n)\<close> and \<open>strlen\<close>.\<close>

definition typed_line :: "nat \<Rightarrow> byte list \<Rightarrow> byte list" where
  "typed_line n line = takeWhile (\<lambda>b. b \<noteq> 0) (take (n - 1) (takeWhile (\<lambda>b. b \<noteq> 10) line))"

definition sync_client01_request :: "byte list \<Rightarrow> byte list cxx" where
  "sync_client01_request line =
     (let request = typed_line client_max line in client_frame (le_bytes (word_of_nat (length request))) request)"

definition hello_world_request :: "byte list" where
  "hello_world_request = map of_char ''hello world!''"

definition flood01_request :: "byte list cxx" where
  "flood01_request = client_frame (le_bytes (word_of_nat (length hello_world_request))) hello_world_request"

definition hello_debbrin :: "byte list" where
  "hello_debbrin = map of_char ''Hello Debbrin, I am Wang Zhe !''"

definition client04_request :: "byte list cxx" where
  "client04_request = client_frame (le_bytes (swap16 (word_of_nat (length hello_debbrin)))) hello_debbrin"

text \<open>The protobuf client sends what \<open>SerializeToString\<close> gives, with the same header.\<close>

definition pb_client_request :: "byte list \<Rightarrow> byte list cxx" where
  "pb_client_request request = client_frame (le_bytes (swap16 (word_of_nat (length request)))) request"

text \<open>The clients with a message id send what \<open>toStyledString\<close> gives.\<close>

definition json_client_request :: "short \<Rightarrow> byte list \<Rightarrow> byte list cxx" where
  "json_client_request msgid request =
     client_frame (le_bytes (swap16 msgid) @ le_bytes (swap16 (word_of_nat (length request)))) request"

section \<open>What a client reads\<close>

text \<open>\<open>boost::asio::read\<close> waits for all the bytes; \<open>asio::buffer\<close> of an array is no longer than the array.\<close>

definition read_exact :: "nat \<Rightarrow> byte list \<Rightarrow> (byte list \<times> byte list) option" where
  "read_exact n bs = (if n \<le> length bs then Some (take n bs, drop n bs) else None)"

definition array_buffer :: "int \<Rightarrow> nat" where
  "array_buffer n = min client_max (size_of_int n)"

definition client_reply :: "(short \<Rightarrow> short) \<Rightarrow> byte list \<Rightarrow> (byte list \<times> byte list) option" where
  "client_reply order bs =
     (case read_exact 2 bs of
        None \<Rightarrow> None
      | Some (reply_head, bs') \<Rightarrow> read_exact (array_buffer (short_val (order (le_short reply_head)))) bs')"

definition json_client_reply :: "byte list \<Rightarrow> ((short \<times> byte list) \<times> byte list) option" where
  "json_client_reply bs =
     (case read_exact 4 bs of
        None \<Rightarrow> None
      | Some (reply_head, bs') \<Rightarrow>
          map_option (\<lambda>(msg, rest). ((swap16 (le_short reply_head), msg), rest))
            (read_exact (array_buffer (short_val (swap16 (le_short (drop 2 reply_head))))) bs'))"

text \<open>The receiving loop: the replies that it logs from the bytes that came.\<close>

lemma client_reply_shorter: "client_reply order bs = Some (m, rest) \<Longrightarrow> length rest < length bs"
  by (auto simp: client_reply_def read_exact_def split: option.splits if_splits)

lemma json_client_reply_shorter: "json_client_reply bs = Some (m, rest) \<Longrightarrow> length rest < length bs"
  by (auto simp: json_client_reply_def read_exact_def split: option.splits if_splits)

function client_replies :: "(short \<Rightarrow> short) \<Rightarrow> byte list \<Rightarrow> byte list list" where
  "client_replies order bs =
     (case client_reply order bs of None \<Rightarrow> [] | Some (m, rest) \<Rightarrow> m # client_replies order rest)"
  by pat_completeness auto
termination by (relation "measure (\<lambda>(order, bs). length bs)") (auto dest: client_reply_shorter)

function json_client_replies :: "byte list \<Rightarrow> (short \<times> byte list) list" where
  "json_client_replies bs =
     (case json_client_reply bs of None \<Rightarrow> [] | Some (m, rest) \<Rightarrow> m # json_client_replies rest)"
  by pat_completeness auto
termination by (relation "measure length") (auto dest: json_client_reply_shorter)

declare client_replies.simps [simp del] json_client_replies.simps [simp del]

text \<open>\<open>SyncClient\<close>: the line, without a header, and as many bytes back.\<close>

definition SyncClient_request :: "byte list \<Rightarrow> byte list" where
  "SyncClient_request line = typed_line max_length line"

section \<open>Requests are frames\<close>

lemma client_frame_Ok: "length header + length body \<le> client_max \<Longrightarrow> client_frame header body = Ok (header @ body)"
  by (simp add: client_frame_def memcpy_at_def cxx_simps)

lemma client_frame_UB: "client_max < length header + length body \<Longrightarrow> length header \<le> client_max \<Longrightarrow> client_frame header body = UB"
  by (simp add: client_frame_def memcpy_at_def cxx_simps)

lemma prefix_client_frame:
  "length body + 2 \<le> client_max \<Longrightarrow>
     client_frame (le_bytes (order (word_of_nat (length body)))) body = Ok (prefix_enc order (0, body))"
  by (simp add: client_frame_Ok prefix_enc_def)

lemma json_client_frame:
  "length body + 4 \<le> client_max \<Longrightarrow> json_client_request mid body = Ok (id_enc (mid, body))"
  by (simp add: json_client_request_def client_frame_Ok id_enc_def)

lemma client_reply_frame:
  assumes "\<And>w. order (order w) = w" "length body \<le> client_max"
  shows "client_reply order (prefix_enc order (0, body) @ rest) = Some (body, rest)"
  using assms
  by (simp add: client_reply_def read_exact_def prefix_enc_def array_buffer_def client_max_def size_simps)

lemma json_client_reply_frame:
  "length body \<le> client_max \<Longrightarrow> json_client_reply (id_enc (mid, body) @ rest) = Some ((mid, body), rest)"
  by (simp add: json_client_reply_def read_exact_def id_enc_def array_buffer_def client_max_def size_simps)

lemma client_replies_frames:
  assumes "\<And>w. order (order w) = w" "\<And>b. b \<in> set bodies \<Longrightarrow> length b \<le> client_max"
  shows "client_replies order (concat (map (\<lambda>b. prefix_enc order (0, b)) bodies) @ rest) =
     bodies @ client_replies order rest"
  using assms(2)
proof (induction bodies)
  case (Cons b bs)
  then show ?case
    by (subst client_replies.simps) (simp add: client_reply_frame [OF assms(1)])
qed simp

lemma json_client_replies_frames:
  "(\<And>m. m \<in> set ms \<Longrightarrow> length (snd m) \<le> client_max) \<Longrightarrow>
     json_client_replies (concat (map id_enc ms) @ rest) = ms @ json_client_replies rest"
proof (induction ms)
  case (Cons m ms)
  have "json_client_reply (id_enc m @ (concat (map id_enc ms) @ rest)) = Some (m, concat (map id_enc ms) @ rest)"
    using json_client_reply_frame [of "snd m" "fst m"] Cons.prems by simp
  then show ?case using Cons by (subst json_client_replies.simps) simp
qed simp

text \<open>From the beginning of a stream of replies the client gets the beginning of the list.\<close>

lemma client_reply_short:
  assumes "\<And>w. order (order w) = w" "length body \<le> client_max"
    and "prefix_enc order (0, body) = bs @ c" "c \<noteq> []"
  shows "client_reply order bs = None"
proof (cases "length bs < 2")
  case False
  have "le_short (take 2 bs) = le_short (take 2 (bs @ c))" using False by simp
  also have "\<dots> = order (word_of_nat (length body))"
    unfolding assms(3) [symmetric] by (simp add: prefix_enc_def)
  finally have "array_buffer (short_val (order (le_short (take 2 bs)))) = length body"
    using assms(1,2) by (simp add: array_buffer_def client_max_def size_simps)
  moreover have "length bs + length c = 2 + length body"
    using arg_cong [OF assms(3), of length] by (simp add: prefix_enc_def)
  moreover have "0 < length c" using assms(4) by simp
  ultimately have "array_buffer (short_val (order (le_short (take 2 bs)))) = length body" "\<not> length body \<le> length bs - 2"
    using False by arith+
  then show ?thesis using False by (simp add: client_reply_def read_exact_def)
qed (simp add: client_reply_def read_exact_def)

lemma client_replies_prefix:
  assumes "\<And>w. order (order w) = w"
  shows "(\<And>b. b \<in> set bodies \<Longrightarrow> length b \<le> client_max) \<Longrightarrow>
    concat (map (\<lambda>b. prefix_enc order (0, b)) bodies) = bs @ c \<Longrightarrow>
    \<exists>j \<le> length bodies. client_replies order bs = take j bodies"
proof (induction bodies arbitrary: bs)
  case Nil
  then show ?case by (simp add: client_replies.simps client_reply_def read_exact_def)
next
  case (Cons b bodies)
  let ?f = "prefix_enc order (0, b)" and ?r = "concat (map (\<lambda>b. prefix_enc order (0, b)) bodies)"
  from Cons.prems(2) have "?f @ ?r = bs @ c" by simp
  then consider us where "?f = bs @ us" "us \<noteq> []" | us where "bs = ?f @ us" "?r = us @ c"
    by (auto simp: append_eq_append_conv2) (metis append_Nil2 append_Nil)
  then show ?case
  proof cases
    case 1
    have "client_reply order bs = None" by (rule client_reply_short [OF assms _ 1]) (use Cons.prems(1) in auto)
    then show ?thesis by (intro exI [of _ 0]) (simp add: client_replies.simps)
  next
    case (2 us)
    obtain j where "j \<le> length bodies" "client_replies order us = take j bodies"
      using Cons.IH [OF _ 2(2)] Cons.prems(1) by auto
    moreover have "client_replies order bs = b # client_replies order us"
      using Cons.prems(1) by (subst client_replies.simps) (simp add: 2(1) client_reply_frame [OF assms])
    ultimately show ?thesis by (intro exI [of _ "Suc j"]) simp
  qed
qed

lemma json_client_reply_short:
  assumes "length (snd m) \<le> client_max" "id_enc m = bs @ c" "c \<noteq> []"
  shows "json_client_reply bs = None"
proof (cases "length bs < 4")
  case False
  have "le_short (drop 2 (take 4 bs)) = le_short (drop 2 (take 4 (bs @ c)))" using False by simp
  also have "\<dots> = swap16 (word_of_nat (length (snd m)))"
    unfolding assms(2) [symmetric] by (simp add: id_enc_def)
  finally have "array_buffer (short_val (swap16 (le_short (drop 2 (take 4 bs))))) = length (snd m)"
    using assms(1) by (simp add: array_buffer_def client_max_def size_simps)
  moreover have "length bs + length c = 4 + length (snd m)"
    using arg_cong [OF assms(2), of length] by (simp add: id_enc_def)
  moreover have "0 < length c" using assms(3) by simp
  ultimately have "array_buffer (short_val (swap16 (le_short (drop 2 (take 4 bs))))) = length (snd m)"
    "\<not> length (snd m) \<le> length bs - 4"
    using False by arith+
  then show ?thesis using False by (simp add: json_client_reply_def read_exact_def)
qed (simp add: json_client_reply_def read_exact_def)

lemma json_client_replies_prefix:
  "(\<And>m. m \<in> set ms \<Longrightarrow> length (snd m) \<le> client_max) \<Longrightarrow> concat (map id_enc ms) = bs @ c \<Longrightarrow>
    \<exists>j \<le> length ms. json_client_replies bs = take j ms"
proof (induction ms arbitrary: bs)
  case Nil
  then show ?case by (simp add: json_client_replies.simps json_client_reply_def read_exact_def)
next
  case (Cons m ms)
  from Cons.prems(2) have "id_enc m @ concat (map id_enc ms) = bs @ c" by simp
  then consider us where "id_enc m = bs @ us" "us \<noteq> []" | us where "bs = id_enc m @ us" "concat (map id_enc ms) = us @ c"
    by (auto simp: append_eq_append_conv2) (metis append_Nil2 append_Nil)
  then show ?case
  proof cases
    case 1
    have "json_client_reply bs = None" by (rule json_client_reply_short [OF _ 1]) (use Cons.prems(1) in auto)
    then show ?thesis by (intro exI [of _ 0]) (simp add: json_client_replies.simps)
  next
    case (2 us)
    obtain j where "j \<le> length ms" "json_client_replies us = take j ms"
      using Cons.IH [OF _ 2(2)] Cons.prems(1) by auto
    moreover have "json_client_reply bs = Some (m, us)"
      using json_client_reply_frame [of "snd m" "fst m" us] Cons.prems(1) 2(1) by simp
    then have "json_client_replies bs = m # json_client_replies us" by (subst json_client_replies.simps) simp
    ultimately show ?thesis by (intro exI [of _ "Suc j"]) simp
  qed
qed

lemma no_reply_left [simp]: "client_replies order [] = []" "json_client_replies [] = []"
  by (simp_all add: client_replies.simps [of _ "[]"] json_client_replies.simps [of "[]"] client_reply_def
      json_client_reply_def read_exact_def)

section \<open>Client and server together\<close>

lemma client04_request_Ok: "client04_request = Ok (prefix_enc swap16 (0, hello_debbrin))"
  unfolding client04_request_def
  by (rule prefix_client_frame) (simp add: hello_debbrin_def client_max_def)

text \<open>
  C10: \<open>Async_async_client04\<close> with \<open>AsyncServer04\<close>: the client sends its text up to 1001 times without waiting.
  However the stream is cut into reads and whenever writes complete, every reply that the client logs is its
  text, never more often than it sent it; and as many more completions of writes as there are nodes in the
  queue bring it one reply for every request.
\<close>

theorem client04_gets_its_text:
  assumes "\<And>c. c \<in> set (chunks es) \<Longrightarrow> chunk_ok c"
    and "client04_request = Ok req" "concat (chunks es) = concat (replicate k req)" "k \<le> Suc MAX_SENDQUE"
  shows "\<exists>s0 s wire j s' wire'. as04_Start = Ok s0 \<and> feeds (session_step as04_proto) (s0, []) es = Some (s, wire) \<and>
     client_replies swap16 wire = replicate j hello_debbrin \<and> j \<le> k \<and>
     feeds (session_step as04_proto) (s, wire) (replicate (length (send_que (world s))) WriteDone) = Some (s', wire') \<and>
     client_replies swap16 wire' = replicate k hello_debbrin"
proof -
  let ?m = "(0, hello_debbrin) :: short \<times> byte list"
  have req: "req = prefix_enc swap16 ?m" using assms(2) unfolding client04_request_Ok by simp
  have fl: "length hello_debbrin \<le> client_max" by (simp add: hello_debbrin_def client_max_def)
  have "next_frame as04_proto (prefix_enc swap16 m @ rest) = Frame (fst m) (snd m) rest"
    if "m \<in> set (replicate k ?m)" for m rest
    by (rule prefix_enc_frame) (use that in \<open>auto simp: small_msg_def hello_debbrin_def MAX_LENGTH_def split: if_splits\<close>)
  from parse_stream_encoded [of "replicate k ?m" as04_proto "prefix_enc swap16" "[]", OF this]
  have ps: "parse_stream as04_proto (concat (chunks es)) = (replicate k ?m, Pending [])"
    by (simp add: assms(3) req parse_stream_Incomplete next_frame_def map_replicate)
  let ?all = "concat (map (\<lambda>b. prefix_enc swap16 (0, b)) (replicate k hello_debbrin))"
  have room: "\<not> que_full i" if "i < length (replicate k ?m)" for i using that assms(4) by (simp add: que_full_def)
  have all: "concat (map (prefix_enc swap16) (replicate k ?m)) = ?all" by (simp add: map_replicate)
  obtain s0 s wire s' wire' where r: "as04_Start = Ok s0" "feeds (session_step as04_proto) (s0, []) es = Some (s, wire)"
    "answered (s, wire) = ?all"
    "feeds (session_step as04_proto) (s, wire) (replicate (length (send_que (world s))) WriteDone) = Some (s', wire')"
    "wire' = ?all"
    using as04.connection_answers [OF assms(1) ps room] unfolding as04_Start_def all by blast
  obtain j where j: "j \<le> k" "client_replies swap16 wire = take j (replicate k hello_debbrin)"
    using client_replies_prefix [of swap16 "replicate k hello_debbrin" wire "concat (map wire_bytes (send_que (world s)))"]
      r(3) fl by (auto simp: answered_def split: if_splits)
  then have "client_replies swap16 wire = replicate j hello_debbrin" by (simp add: min_def)
  moreover have "client_replies swap16 wire' = replicate k hello_debbrin"
    using client_replies_frames [of swap16 "replicate k hello_debbrin" "[]"] r(5) fl by (auto split: if_splits)
  ultimately show ?thesis using r(1,2,4) j(1) by blast
qed

lemma client04_gets_its_text_witness:
  "\<exists>s0 s wire j s' wire'. as04_Start = Ok s0 \<and>
     feeds (session_step as04_proto) (s0, []) [ReadChunk ([0, 30] @ hello_debbrin)] = Some (s, wire) \<and>
     client_replies swap16 wire = replicate j hello_debbrin \<and> j \<le> 1 \<and>
     feeds (session_step as04_proto) (s, wire) (replicate (length (send_que (world s))) WriteDone) = Some (s', wire') \<and>
     client_replies swap16 wire' = replicate 1 hello_debbrin"
proof (rule client04_gets_its_text)
  have h: "le_bytes (swap16 (word_of_nat (length hello_debbrin))) = [0, 30]" by code_simp
  show "client04_request = Ok ([0, 30] @ hello_debbrin)"
    unfolding client04_request_Ok by (simp add: prefix_enc_def h)
qed (simp_all add: chunk_ok_def hello_debbrin_def MAX_LENGTH_def MAX_SENDQUE_def)

text \<open>
  C11: A client with a message id and \<open>LogicServer01\<close>: the client sends up to 1001 requests of at most 2044 bytes
  with id 1001, which the callback answers with at most 2048 bytes.  However they are cut, and however posts,
  worker steps, sends and completions of writes follow each other, what the client has read are the first
  answers of the callback, in the order of the requests; the worker can go on to send all the answers; and
  as many more completions as there are nodes queued bring the client every answer that was sent.
\<close>

theorem json_client_gets_answers:
  assumes "\<And>c. c \<in> set cs \<Longrightarrow> chunk_ok c"
    and "\<And>r. r \<in> set requests \<Longrightarrow> length r + 4 \<le> client_max"
    and "concat cs = concat (map (\<lambda>r. case json_client_request 1001 r of Ok bs \<Rightarrow> bs | _ \<Rightarrow> []) requests)"
    and "\<And>r. r \<in> set requests \<Longrightarrow> HelloWorldCallBack api r = Ok (rep r) \<and> length (fst (rep r)) \<le> client_max"
    and "length requests \<le> Suc MAX_SENDQUE"
    and "answers = map (\<lambda>r. (snd (rep r), fst (rep r))) requests"
    and "logic_run (node_string cur_len) (HelloWorldCallBack api) ls new_LogicSystem = Some st"
    and "posts_of ls = map (\<lambda>r. posting uuid (1001, r)) requests" "StopFlag \<notin> set ls"
    and "posts_in es = map (\<lambda>(u, r, i). (i, r)) (outbox st)"
  shows "\<exists>s0 s j sst wire sst' wire'. lg1_Start uuid new_LogicSystem = Ok s0 \<and>
     feeds (feed (lg1_proto uuid)) s0 cs = Some s \<and> posted (world s) = posts_of ls \<and>
     (\<exists>ls' st'. set ls' \<subseteq> {Lock, Test, Notify} \<and>
        logic_run (node_string cur_len) (HelloWorldCallBack api) ls' st = Some st' \<and>
        outbox st' = map (\<lambda>(i, r). (uuid, r, i)) answers) \<and>
     cxx_fold (pump_step (\<lambda>st m. lg1_Send_string (snd m) (fst m) st)) (empty_send, []) es = Ok (sst, wire) \<and>
     json_client_replies wire = take j answers \<and>
     cxx_fold (pump_step (\<lambda>st m. lg1_Send_string (snd m) (fst m) st)) (sst, wire)
       (replicate (length (send_que sst)) Written) = Ok (sst', wire') \<and>
     json_client_replies wire' = take (length (outbox st)) answers"
proof -
  let ?ms = "map (Pair 1001) requests" and ?rep = "\<lambda>m. rep (snd m)"
  have enc: "concat cs = concat (map id_enc ?ms)"
    unfolding assms(3) by (rule arg_cong [where f = concat]) (auto simp: json_client_frame assms(2))
  have "next_frame (lg1_proto uuid) (id_enc m @ rest) = Frame (fst m) (snd m) rest" if mem: "m \<in> set ?ms" for m rest
  proof (rule id_enc_frame)
    obtain r where "m = (1001, r)" "r \<in> set requests" using mem by auto
    then show "id_msg m" using assms(2) [of r] by (simp add: id_msg_def MAX_LENGTH_def client_max_def)
  qed (simp_all add: lg1_proto_def)
  from parse_stream_encoded [of ?ms "lg1_proto uuid" id_enc "[]", OF this]
  have ps: "parse_stream (lg1_proto uuid) (concat cs) = (?ms, Pending [])"
    by (simp add: enc parse_stream_Incomplete next_frame_def lg1_proto_def)
  have len: "length (fst (rep r)) \<le> client_max" "HelloWorldCallBack api r = Ok (rep r)" if "r \<in> set requests" for r
    using assms(4) that by blast+
  have cb: "HelloWorldCallBack api (snd m) = Ok (?rep m)" if "m \<in> set ?ms" for m
    using that len(2) by auto
  have se: "sendable (snd (?rep m), fst (?rep m))" if "m \<in> set ?ms" for m
    using that len(1) by (force simp: sendable_def client_max_def)
  have fi: "answers = map (\<lambda>m. (snd (?rep m), fst (?rep m))) (filter (\<lambda>m. fst m = MSG_HELLO_WORD) ?ms)"
    by (simp add: assms(6) filter_map o_def MSG_HELLO_WORD_def)
  have la: "length answers \<le> Suc MAX_SENDQUE" using assms(5,6) by simp
  have po: "posts_of ls = map (posting uuid) ?ms" by (simp add: assms(8))
  from lg1_answers [OF assms(1) ps cb se fi la assms(7) po assms(9,10)]
  obtain s0 s k sst wire sst' wire' where r: "lg1_Start uuid new_LogicSystem = Ok s0"
    "feeds (feed (lg1_proto uuid)) s0 cs = Some s" "posted (world s) = posts_of ls"
    "outbox st = map (\<lambda>(i, r). (uuid, r, i)) (take k answers)"
    "\<exists>ls' st'. set ls' \<subseteq> {Lock, Test, Notify} \<and>
        logic_run (node_string cur_len) (HelloWorldCallBack api) ls' st = Some st' \<and>
        outbox st' = map (\<lambda>(i, r). (uuid, r, i)) answers"
    "cxx_fold (pump_step (\<lambda>st m. lg1_Send_string (snd m) (fst m) st)) (empty_send, []) es = Ok (sst, wire)"
    "wire @ concat (map wire_bytes (send_que sst)) = concat (map id_enc (take k answers))"
    "cxx_fold (pump_step (\<lambda>st m. lg1_Send_string (snd m) (fst m) st)) (sst, wire)
       (replicate (length (send_que sst)) Written) = Ok (sst', wire')"
    "wire' = concat (map id_enc (take k answers))"
    by blast
  have fits: "length (snd m) \<le> client_max" if "m \<in> set (take k answers)" for m
    using in_set_takeD [OF that] len(1) by (auto simp: assms(6))
  obtain j where j: "json_client_replies wire = take j (take k answers)"
    using json_client_replies_prefix [OF fits r(7) [symmetric]] by blast
  have k: "take (length (outbox st)) answers = take k answers" by (simp add: r(4) min_def)
  have "json_client_replies wire' = take (length (outbox st)) answers"
    using json_client_replies_frames [OF fits, of "take k answers" "[]"] by (simp add: r(9) k)
  moreover have "json_client_replies wire = take (min j k) answers" using j by (simp add: min_def)
  ultimately show ?thesis using r(1-3,5,6,8) by blast
qed

lemma json_client_gets_answers_witness:
  "\<exists>st. logic_run (node_string cur_len) (HelloWorldCallBack plain_api)
       [PostMsg (posting ''u'' (1001, [65])), Lock, Test] new_LogicSystem = Some st \<and>
     (\<exists>sst wire sst' wire'.
        cxx_fold (pump_step (\<lambda>st m. lg1_Send_string (snd m) (fst m) st)) (empty_send, [])
          [Post (1001, greeting @ [65])] = Ok (sst, wire) \<and>
        cxx_fold (pump_step (\<lambda>st m. lg1_Send_string (snd m) (fst m) st)) (sst, wire)
          (replicate (length (send_que sst)) Written) = Ok (sst', wire') \<and>
        json_client_replies wire' = [(1001, greeting @ [65])])"
proof -
  let ?ls = "[PostMsg (posting ''u'' (1001, [65])), Lock, Test]"
  have cb: "call_back (node_string cur_len) (HelloWorldCallBack plain_api) (posting ''u'' (1001, [65])) =
      Ok [(''u'', greeting @ [65], 1001)]"
    using call_back_posting [of "(1001, [65])" "HelloWorldCallBack plain_api" "greeting @ [65]" 1001 "''u''"]
    by (simp add: plain_api_reply MSG_HELLO_WORD_def)
  obtain st where st: "logic_run (node_string cur_len) (HelloWorldCallBack plain_api) ?ls new_LogicSystem = Some st"
    "outbox st = [(''u'', greeting @ [65], 1001)]"
    by (simp add: new_LogicSystem_def mutex_free_def PostMsgToQue_def deal_test_def deal_front_def cb cxx_simps Let_def)
  have "json_client_request 1001 [65] = Ok [3, 233, 0, 1, 65]" by code_simp
  then have c: "concat [[3, 233], [0, 1, 65]] =
      concat (map (\<lambda>r. case json_client_request 1001 r of Ok bs \<Rightarrow> bs | _ \<Rightarrow> []) [[65]])" by simp
  have ch: "chunk_ok c" if "c \<in> set [[3, 233], [0, 1, 65]]" for c
    using that by (auto simp: chunk_ok_def MAX_LENGTH_def)
  obtain sst wire sst' wire' where
    "cxx_fold (pump_step (\<lambda>st m. lg1_Send_string (snd m) (fst m) st)) (empty_send, []) [Post (1001, greeting @ [65])] = Ok (sst, wire)"
    "cxx_fold (pump_step (\<lambda>st m. lg1_Send_string (snd m) (fst m) st)) (sst, wire)
       (replicate (length (send_que sst)) Written) = Ok (sst', wire')"
    "json_client_replies wire' = take (length (outbox st)) [(1001, greeting @ [65])]"
    using json_client_gets_answers [OF ch _ c _ _ _ st(1), of "\<lambda>r. (greeting @ r, 1001)" "[(1001, greeting @ [65])]" "''u''" "[Post (1001, greeting @ [65])]"]
    by (simp add: client_max_def plain_api_reply MAX_SENDQUE_def st(2) del: feeds.simps cxx_fold.simps pump_step.simps) blast
  then show ?thesis using st by (intro exI [of _ st] conjI) auto
qed

text \<open>
  \<open>SyncClient\<close> with \<open>SyncServer\<close>: the line that was typed comes back whole, whatever way it is cut.
\<close>

theorem SyncClient_gets_its_line:
  assumes "concat cs = SyncClient_request line" "[] \<notin> set cs"
  shows "\<exists>out. sync_session (map (\<lambda>c. (Got c, False, None)) cs) = Ok (out, StillReading) \<and>
    read_exact (length (SyncClient_request line)) out = Some (SyncClient_request line, [])"
proof -
  have len: "length (concat cs) < max_length"
    using length_takeWhile_le [of "\<lambda>b. b \<noteq> 0" "take (max_length - 1) (takeWhile (\<lambda>b. b \<noteq> 10) line)"]
    unfolding assms(1) SyncClient_request_def typed_line_def by (simp add: max_length_def)
  have "sync_session (map (\<lambda>c. (Got c, False, None)) cs) = Ok (concat cs, StillReading)" using len assms(2)
  proof (induction cs)
    case (Cons c cs)
    then have "text_chunk c" by (auto simp: text_chunk_def)
    then show ?case using Cons log_text_chunk [of c] by (auto simp: cxx_simps prepended_def)
  qed simp
  then show ?thesis by (simp add: assms(1) read_exact_def)
qed

lemma SyncClient_gets_its_line_witness:
  "\<exists>out. sync_session (map (\<lambda>c. (Got c, False, None)) [[104], [105]]) = Ok (out, StillReading) \<and>
    read_exact 2 out = Some ([104, 105], [])"
proof -
  have l: "SyncClient_request [104, 105, 10, 33] = [104, 105]"
    by (simp add: SyncClient_request_def typed_line_def max_length_def)
  from SyncClient_gets_its_line [of "[[104], [105]]" "[104, 105, 10, 33]"] show ?thesis
    unfolding l by (simp add: numeral_2_eq_2 del: sync_session.simps)
qed

text \<open>
  \<open>sync_client01\<close> takes a line of up to 2047 characters into an array of 2048 with two bytes in front: it
  sends every line of up to 2046 characters as a frame, and copies a longer one out of bounds.
\<close>

theorem sync_client01_overflow:
  "sync_client01_request line =
     (if length (typed_line client_max line) \<le> 2046
      then Ok (prefix_enc (\<lambda>w. w) (0, typed_line client_max line)) else UB)"
  using prefix_client_frame [of "typed_line client_max line" "\<lambda>w. w"]
    client_frame_UB [of "le_bytes (word_of_nat (length (typed_line client_max line)))" "typed_line client_max line"]
  by (auto simp: sync_client01_request_def client_max_def Let_def)

end
