(* ===== verification/Locks.thy ===== *)
theory Locks
  imports Prelude
begin

text \<open>
  The locking examples of \<open>example/boost/concurrent/example02_mutexlock.cpp\<close>: \<open>dead_lock1\<close> and
  \<open>dead_lock2\<close>, their safe versions, and the swaps of two locked objects.  A thread is the list
  of the calls its function makes that other threads can see; threads interleave between calls.
\<close>

named_theorems lock_progs "the thread functions as lists of calls"

section \<open>Threads over mutexes\<close>

text \<open>
  \<open>Acquire [m]\<close> is \<open>m.lock()\<close> or a \<open>lock_guard\<close>; \<open>Acquire [m, n]\<close> is \<open>std::lock(m, n)\<close> or a
  \<open>scoped_lock\<close>, which take both or, when one is taken, hold none while they wait.  \<open>Assign\<close> and
  \<open>Swap\<close> work on the shared integers.
\<close>

datatype call =
    Acquire "nat list"
  | Release nat
  | Assign nat int
  | Swap nat nat

record thread_fun =
  calls :: "call list"
  forever :: bool

record lock_sys =
  pcs :: "nat list"
  owner :: "nat \<Rightarrow> nat option"
  mem :: "nat \<Rightarrow> int"

definition spawn :: "thread_fun list \<Rightarrow> (nat \<Rightarrow> int) \<Rightarrow> lock_sys" where
  "spawn ts mem0 = \<lparr>pcs = replicate (length ts) 0, owner = (\<lambda>_. None), mem = mem0\<rparr>"

fun call_exec :: "nat \<Rightarrow> call \<Rightarrow> lock_sys \<Rightarrow> lock_sys option" where
  "call_exec i (Acquire ms) st =
     (if list_all (\<lambda>m. owner st m = None) ms
      then Some (st\<lparr>owner := (\<lambda>m. if m \<in> set ms then Some i else owner st m)\<rparr>) else None)"
| "call_exec i (Release m) st =
     (if owner st m = Some i then Some (st\<lparr>owner := (owner st)(m := None)\<rparr>) else None)"
| "call_exec i (Assign x v) st = Some (st\<lparr>mem := (mem st)(x := v)\<rparr>)"
| "call_exec i (Swap x y) st = Some (st\<lparr>mem := (mem st)(x := mem st y, y := mem st x)\<rparr>)"

definition next_pc :: "thread_fun \<Rightarrow> nat \<Rightarrow> nat" where
  "next_pc t k = (if forever t \<and> Suc k = length (calls t) then 0 else Suc k)"

definition thread_exec :: "thread_fun list \<Rightarrow> nat \<Rightarrow> lock_sys \<Rightarrow> lock_sys option" where
  "thread_exec ts i st =
     (if i < length ts \<and> i < length (pcs st) \<and> pcs st ! i < length (calls (ts ! i)) then
        map_option (\<lambda>st'. st'\<lparr>pcs := (pcs st')[i := next_pc (ts ! i) (pcs st ! i)]\<rparr>)
          (call_exec i (calls (ts ! i) ! (pcs st ! i)) st)
      else None)"

inductive thread_step :: "thread_fun list \<Rightarrow> lock_sys \<Rightarrow> lock_sys \<Rightarrow> bool" for ts where
  thread_stepI: "thread_exec ts i st = Some st' \<Longrightarrow> thread_step ts st st'"

inductive_cases thread_stepE: "thread_step ts st st'"

fun thread_run :: "thread_fun list \<Rightarrow> nat list \<Rightarrow> lock_sys \<Rightarrow> lock_sys option" where
  "thread_run ts [] st = Some st"
| "thread_run ts (i # is) st =
     (case thread_exec ts i st of None \<Rightarrow> None | Some st' \<Rightarrow> thread_run ts is st')"

lemma thread_run_reachable:
  "thread_run ts is st = Some st' \<Longrightarrow> reachable init (thread_step ts) st \<Longrightarrow>
     reachable init (thread_step ts) st'"
  by (induction "is" arbitrary: st) (simp, metis option.case_eq_if option.collapse option.distinct(1)
    reach_step thread_run.simps(2) thread_stepI)

definition finished :: "thread_fun list \<Rightarrow> lock_sys \<Rightarrow> bool" where
  "finished ts st \<longleftrightarrow> list_all (\<lambda>i. pcs st ! i = length (calls (ts ! i))) [0..<length ts]"

text \<open>A deadlock: some thread has calls left and no thread can make one.\<close>

definition deadlocked :: "thread_fun list \<Rightarrow> lock_sys \<Rightarrow> bool" where
  "deadlocked ts st \<longleftrightarrow> \<not> finished ts st \<and> list_all (\<lambda>i. thread_exec ts i st = None) [0..<length ts]"

section \<open>The functions of the example\<close>

text \<open>The mutexes \<open>t_lock1\<close>, \<open>t_lock2\<close> and the variables \<open>m_1\<close>, \<open>m_2\<close> have the numbers 1 and 2.\<close>

definition lock_mem :: "nat \<Rightarrow> int" where
  "lock_mem x = (if x = 2 then 1 else 0)"

definition dead_lock1 :: thread_fun where [lock_progs]:
  "dead_lock1 = \<lparr>calls = [Acquire [1], Assign 1 1024, Acquire [2], Assign 2 2048, Release 2, Release 1],
     forever = True\<rparr>"

definition dead_lock2 :: thread_fun where [lock_progs]:
  "dead_lock2 = \<lparr>calls = [Acquire [2], Assign 2 2048, Acquire [1], Assign 1 1024, Release 1, Release 2],
     forever = True\<rparr>"

definition atomic_lock1 :: "call list" where [lock_progs]:
  "atomic_lock1 = [Acquire [1], Assign 1 1024, Release 1]"

definition atomic_lock2 :: "call list" where [lock_progs]:
  "atomic_lock2 = [Acquire [2], Assign 2 2048, Release 2]"

definition safe_lock1 :: thread_fun where [lock_progs]:
  "safe_lock1 = \<lparr>calls = atomic_lock1 @ atomic_lock2, forever = True\<rparr>"

definition safe_lock2 :: thread_fun where [lock_progs]:
  "safe_lock2 = \<lparr>calls = atomic_lock2 @ atomic_lock1, forever = True\<rparr>"

definition test_dead_lock :: "thread_fun list" where [lock_progs]:
  "test_dead_lock = [dead_lock1, dead_lock2]"

definition test_safe_lock :: "thread_fun list" where [lock_progs]:
  "test_safe_lock = [safe_lock1, safe_lock2]"

text \<open>
  An object manager is its mutex and its \<open>_obj\<close>, under one number.  The guards are released in
  the reverse of the order they were made.
\<close>

definition danger_swap :: "nat \<Rightarrow> nat \<Rightarrow> thread_fun" where [lock_progs]:
  "danger_swap a b = \<lparr>calls = (if a = b then [] else
     [Acquire [a], Acquire [b], Swap a b, Release b, Release a]), forever = False\<rparr>"

definition safe_swap :: "nat \<Rightarrow> nat \<Rightarrow> thread_fun" where [lock_progs]:
  "safe_swap a b = \<lparr>calls = (if a = b then [] else
     [Acquire [a, b], Swap a b, Release b, Release a]), forever = False\<rparr>"

definition safe_swap_scope :: "nat \<Rightarrow> nat \<Rightarrow> thread_fun" where [lock_progs]:
  "safe_swap_scope a b = \<lparr>calls = (if a = b then [] else
     [Acquire [a, b], Swap a b, Release b, Release a]), forever = False\<rparr>"

definition swap_mem :: "nat \<Rightarrow> int" where
  "swap_mem x = (if x = 1 then 5 else if x = 2 then 100 else 0)"

definition test_danger_swap :: "thread_fun list" where [lock_progs]:
  "test_danger_swap = [danger_swap 1 2, danger_swap 2 1]"

definition test_safe_swap :: "thread_fun list" where [lock_progs]:
  "test_safe_swap = [safe_swap 1 2, safe_swap 2 1]"

section \<open>Functions that never wait with a mutex held\<close>

text \<open>The mutexes held after a list of calls.\<close>

definition held_after :: "nat set \<Rightarrow> call \<Rightarrow> nat set" where
  "held_after H c = (case c of Acquire ms \<Rightarrow> H \<union> set ms | Release m \<Rightarrow> H - {m} | _ \<Rightarrow> H)"

definition held :: "call list \<Rightarrow> nat set" where
  "held cs = foldl held_after {} cs"

definition call_ok :: "nat set \<Rightarrow> call \<Rightarrow> bool" where
  "call_ok H c = (case c of Acquire ms \<Rightarrow> H = {} | Release m \<Rightarrow> m \<in> H | _ \<Rightarrow> True)"

definition disciplined :: "thread_fun \<Rightarrow> bool" where
  "disciplined t \<longleftrightarrow> list_all (\<lambda>k. call_ok (held (take k (calls t))) (calls t ! k)) [0..<length (calls t)] \<and>
     held (calls t) = {}"

lemma held_Suc: "k < length cs \<Longrightarrow> held (take (Suc k) cs) = held_after (held (take k cs)) (cs ! k)"
  by (simp add: held_def take_Suc_conv_app_nth)

lemma disciplined_call: "disciplined t \<Longrightarrow> k < length (calls t) \<Longrightarrow> call_ok (held (take k (calls t))) (calls t ! k)"
  by (simp add: disciplined_def list_all_iff)

lemma held_next_pc:
  assumes "disciplined t" "k < length (calls t)"
  shows "held (take (next_pc t k) (calls t)) = held_after (held (take k (calls t))) (calls t ! k)"
proof (cases "Suc k = length (calls t)")
  case True
  then have "held_after (held (take k (calls t))) (calls t ! k) = {}"
    using assms held_Suc [OF assms(2)] by (simp add: disciplined_def)
  then show ?thesis
    using True held_Suc [OF assms(2)] by (auto simp: next_pc_def held_def)
qed (use held_Suc [OF assms(2)] in \<open>simp add: next_pc_def\<close>)

text \<open>A mutex is owned by the thread whose calls so far have left it locked, and by no other.\<close>

definition owner_inv :: "thread_fun list \<Rightarrow> lock_sys \<Rightarrow> bool" where
  "owner_inv ts st \<longleftrightarrow> length (pcs st) = length ts \<and> (\<forall>m i. owner st m = Some i \<longleftrightarrow>
     i < length ts \<and> m \<in> held (take (pcs st ! i) (calls (ts ! i))))"

lemma owner_inv_spawn: "owner_inv ts (spawn ts mem0)"
  by (auto simp: owner_inv_def spawn_def held_def)

lemma call_exec_owner:
  assumes c: "call_exec i c st = Some st1" and ok: "call_ok H c" and mine: "\<And>m. m \<in> H \<longleftrightarrow> owner st m = Some i"
  shows "owner st1 m = Some j \<longleftrightarrow> (if j = i then m \<in> held_after H c else owner st m = Some j)"
proof (cases c)
  case (Acquire ms)
  then show ?thesis using c mine [of m]
    by (cases "m \<in> set ms") (auto simp: held_after_def list_all_iff split: if_splits)
next
  case (Release n)
  then show ?thesis using c mine [of m] by (cases "m = n") (auto simp: held_after_def split: if_splits)
qed (use c mine [of m] in \<open>auto simp: held_after_def\<close>)

lemma owner_inv_exec:
  assumes dis: "list_all disciplined ts" and inv: "owner_inv ts st" and ex: "thread_exec ts i st = Some st'"
  shows "owner_inv ts st'"
proof -
  let ?t = "ts ! i" let ?k = "pcs st ! i"
  let ?H = "held (take ?k (calls ?t))" let ?c = "calls ?t ! ?k"
  from ex obtain st1 where i: "i < length ts" "i < length (pcs st)" "?k < length (calls ?t)"
    and c: "call_exec i ?c st = Some st1" and st': "st' = st1\<lparr>pcs := (pcs st1)[i := next_pc ?t ?k]\<rparr>"
    by (auto simp: thread_exec_def split: if_splits)
  have d: "disciplined ?t" using dis i(1) by (simp add: list_all_length)
  have pcs1: "pcs st1 = pcs st" using c by (cases ?c) (auto split: if_splits)
  have mine: "m \<in> ?H \<longleftrightarrow> owner st m = Some i" for m using inv i by (auto simp: owner_inv_def)
  have own: "owner st1 m = Some j \<longleftrightarrow> (if j = i then m \<in> held_after ?H ?c else owner st m = Some j)" for m j
    using call_exec_owner [OF c disciplined_call [OF d i(3)] mine] .
  have len: "length (pcs st) = length ts" using inv by (simp add: owner_inv_def)
  have "owner st1 m = Some j \<longleftrightarrow> j < length ts \<and> m \<in> held (take (pcs st' ! j) (calls (ts ! j)))" for m j
  proof (cases "j = i")
    case True
    then show ?thesis using own [of m j] i len pcs1 held_next_pc [OF d i(3)] by (simp add: st')
  next
    case False
    then have "pcs st' ! j = pcs st ! j" by (simp add: st' pcs1)
    then show ?thesis using own [of m j] False inv by (simp add: owner_inv_def)
  qed
  then show ?thesis using len pcs1 by (simp add: owner_inv_def st')
qed

interpretation disciplined_threads: step_invariant
  "\<lambda>st. list_all disciplined ts \<and> st = spawn ts mem0" "thread_step ts"
  "\<lambda>st. list_all disciplined ts \<and> owner_inv ts st" for ts mem0
  by unfold_locales (auto intro: owner_inv_spawn owner_inv_exec elim: thread_stepE)

lemma not_deadlocked:
  assumes dis: "list_all disciplined ts" and inv: "owner_inv ts st"
    and pc: "\<And>i. i < length ts \<Longrightarrow> pcs st ! i \<le> length (calls (ts ! i))"
  shows "\<not> deadlocked ts st"
proof
  assume dead: "deadlocked ts st"
  have len: "length (pcs st) = length ts" using inv by (simp add: owner_inv_def)
  have waits: "\<exists>ms m j. calls (ts ! i) ! (pcs st ! i) = Acquire ms \<and> owner st m = Some j \<and>
      held (take (pcs st ! i) (calls (ts ! i))) = {}"
    if i: "i < length ts" "pcs st ! i < length (calls (ts ! i))" for i
  proof -
    have none: "call_exec i (calls (ts ! i) ! (pcs st ! i)) st = None"
    proof -
      have "thread_exec ts i st = None" using dead i(1) by (simp add: deadlocked_def list_all_iff)
      then show ?thesis using i len by (simp add: thread_exec_def)
    qed
    have ok: "call_ok (held (take (pcs st ! i) (calls (ts ! i)))) (calls (ts ! i) ! (pcs st ! i))"
      using dis i by (auto intro: disciplined_call simp: list_all_length)
    have own: "m \<in> held (take (pcs st ! i) (calls (ts ! i))) \<longleftrightarrow> owner st m = Some i" for m
      using inv i by (auto simp: owner_inv_def)
    show ?thesis using none ok own
      by (cases "calls (ts ! i) ! (pcs st ! i)") (auto simp: call_ok_def list_all_iff split: if_splits)
  qed
  from dead obtain i where "i < length ts" "pcs st ! i \<noteq> length (calls (ts ! i))"
    by (auto simp: deadlocked_def finished_def list_all_iff)
  with pc [of i] waits [of i] obtain m j where "owner st m = Some j" by fastforce
  then have j: "j < length ts" "m \<in> held (take (pcs st ! j) (calls (ts ! j)))"
    using inv by (auto simp: owner_inv_def)
  then have "pcs st ! j \<noteq> length (calls (ts ! j))"
    using dis by (auto simp: disciplined_def list_all_length)
  with pc [OF j(1)] waits [OF j(1)] j(2) show False by fastforce
qed

definition pc_inv :: "thread_fun list \<Rightarrow> lock_sys \<Rightarrow> bool" where
  "pc_inv ts st \<longleftrightarrow> (\<forall>i<length ts. pcs st ! i \<le> length (calls (ts ! i)))"

interpretation thread_pcs: step_invariant "\<lambda>st. st = spawn ts mem0" "thread_step ts" "pc_inv ts" for ts mem0
proof
  show "st = spawn ts mem0 \<Longrightarrow> pc_inv ts st" for st by (simp add: pc_inv_def spawn_def)
  show "pc_inv ts st \<Longrightarrow> thread_step ts st st' \<Longrightarrow> pc_inv ts st'" for st st'
  proof -
    have "pcs st1 = pcs st" if "call_exec i c st = Some st1" for i c st1
      using that by (cases c) (auto split: if_splits)
    then show "pc_inv ts st \<Longrightarrow> thread_step ts st st' \<Longrightarrow> pc_inv ts st'"
      by (auto elim!: thread_stepE simp: pc_inv_def thread_exec_def next_pc_def nth_list_update
          split: if_splits)
  qed
qed

lemma disciplined_no_deadlock:
  assumes "list_all disciplined ts" "reachable (\<lambda>st. st = spawn ts mem0) (thread_step ts) st"
  shows "\<not> deadlocked ts st"
proof -
  have "reachable (\<lambda>st. list_all disciplined ts \<and> st = spawn ts mem0) (thread_step ts) st"
    using assms by simp
  then have "owner_inv ts st" using disciplined_threads.reachable_inv by blast
  then show ?thesis using assms(1) thread_pcs.reachable_inv [OF assms(2)]
    by (intro not_deadlocked) (auto simp: pc_inv_def)
qed

section \<open>The tests\<close>

lemma disciplined_safe [simp]:
  "disciplined safe_lock1" "disciplined safe_lock2" "disciplined (safe_swap a b)"
  "disciplined (safe_swap_scope a b)"
  by (auto simp: disciplined_def lock_progs held_def held_after_def call_ok_def upt_rec less_Suc_eq)

text \<open>
  \<open>test_dead_lock\<close> and \<open>test_danger_swap\<close> can each reach a state from which no thread ever moves
  again, every thread holding the mutex the other one waits for.
\<close>

theorem lock_tests_deadlock:
  "(\<exists>st. reachable (\<lambda>st. st = spawn test_dead_lock lock_mem) (thread_step test_dead_lock) st \<and>
      deadlocked test_dead_lock st \<and> owner st 1 = Some 0 \<and> owner st 2 = Some 1) \<and>
   (\<exists>st. reachable (\<lambda>st. st = spawn test_danger_swap swap_mem) (thread_step test_danger_swap) st \<and>
      deadlocked test_danger_swap st \<and> owner st 1 = Some 0 \<and> owner st 2 = Some 1)"
proof (intro conjI)
  obtain st where "thread_run test_dead_lock [0, 0, 1, 1] (spawn test_dead_lock lock_mem) = Some st"
    "deadlocked test_dead_lock st \<and> owner st 1 = Some 0 \<and> owner st 2 = Some 1"
    by (simp add: lock_progs spawn_def thread_exec_def next_pc_def deadlocked_def finished_def upt_rec)
  then show "\<exists>st. reachable (\<lambda>st. st = spawn test_dead_lock lock_mem) (thread_step test_dead_lock) st \<and>
      deadlocked test_dead_lock st \<and> owner st 1 = Some 0 \<and> owner st 2 = Some 1"
    using thread_run_reachable reach_init by (metis (mono_tags, lifting))
  obtain st where "thread_run test_danger_swap [0, 1] (spawn test_danger_swap swap_mem) = Some st"
    "deadlocked test_danger_swap st \<and> owner st 1 = Some 0 \<and> owner st 2 = Some 1"
    by (simp add: lock_progs spawn_def thread_exec_def next_pc_def deadlocked_def finished_def upt_rec)
  then show "\<exists>st. reachable (\<lambda>st. st = spawn test_danger_swap swap_mem) (thread_step test_danger_swap) st \<and>
      deadlocked test_danger_swap st \<and> owner st 1 = Some 0 \<and> owner st 2 = Some 1"
    using thread_run_reachable reach_init by (metis (mono_tags, lifting))
qed

text \<open>The objects after the swaps of \<open>test_safe_swap\<close> done so far.\<close>

definition swap_inv :: "lock_sys \<Rightarrow> bool" where
  "swap_inv st \<longleftrightarrow> length (pcs st) = 2 \<and>
     mem st = (if (2 \<le> pcs st ! 0) = (2 \<le> pcs st ! 1) then swap_mem else swap_mem(1 := 100, 2 := 5))"

lemma less_four: "k < (4::nat) \<Longrightarrow> k = 0 \<or> k = 1 \<or> k = 2 \<or> k = 3"
  by auto

lemma safe_swap_exec:
  assumes "thread_exec test_safe_swap i st = Some st'" "length (pcs st) = 2"
  shows "(i = 0 \<or> i = 1) \<and> pcs st' = (pcs st)[i := Suc (pcs st ! i)] \<and>
     mem st' = (if pcs st ! i = 1 then (mem st)(1 := mem st 2, 2 := mem st 1) else mem st)"
proof -
  have "i < 2" using assms by (simp add: thread_exec_def split: if_splits)
  then have i: "i = 0 \<or> i = 1" by auto
  have *: "pcs st1 = pcs st \<and> mem st1 = (if k = 1 then (mem st)(1 := mem st 2, 2 := mem st 1) else mem st)"
    if "k < 4" "call_exec i (calls (test_safe_swap ! i) ! k) st = Some st1" for k st1
  proof -
    have twist: "(mem st)(2 := mem st 1, 1 := mem st 2) = (mem st)(1 := mem st 2, 2 := mem st 1)" by auto
    have "calls (test_safe_swap ! i) ! k \<in> (if k = 0 then {Acquire [1, 2], Acquire [2, 1]}
        else if k = 1 then {Swap 1 2, Swap 2 1} else {Release 1, Release 2})"
      using i less_four [OF that(1)] by (elim disjE) (simp_all add: lock_progs)
    then show ?thesis using that(2) twist by (auto split: if_splits)
  qed
  have len: "length (calls (test_safe_swap ! i)) = 4" "\<not> forever (test_safe_swap ! i)"
    using i by (auto simp: lock_progs)
  obtain st1 where k: "pcs st ! i < 4" and c: "call_exec i (calls (test_safe_swap ! i) ! (pcs st ! i)) st = Some st1"
    and st': "st' = st1\<lparr>pcs := (pcs st1)[i := Suc (pcs st ! i)]\<rparr>"
    using assms(1) len by (auto simp: thread_exec_def next_pc_def split: if_splits)
  show ?thesis using * [OF k c] i by (simp add: st')
qed

lemma swap_inv_exec:
  assumes inv: "swap_inv st" and ex: "thread_exec test_safe_swap i st = Some st'"
  shows "swap_inv st'"
proof -
  have len: "length (pcs st) = 2" using inv by (simp add: swap_inv_def)
  have mem: "(swap_mem(1 := 100, 2 := 5))(1 := 5, 2 := 100) = swap_mem"
    by (auto simp: swap_mem_def fun_upd_def)
  have vals: "swap_mem 1 = 5" "swap_mem 2 = 100" by (auto simp: swap_mem_def)
  have "i = 0 \<or> i = 1" using safe_swap_exec [OF ex len] by blast
  then show ?thesis
  proof
    assume "i = 0"
    then show ?thesis using inv safe_swap_exec [OF ex len] mem vals unfolding swap_inv_def
      by (cases "pcs st ! 0 = 1") (auto simp: not_less_eq_eq split: if_splits)
  next
    assume "i = 1"
    then show ?thesis using inv safe_swap_exec [OF ex len] mem vals unfolding swap_inv_def
      by (cases "pcs st ! 1 = 1") (auto simp: not_less_eq_eq split: if_splits)
  qed
qed

interpretation safe_swaps: step_invariant
  "\<lambda>st. st = spawn test_safe_swap swap_mem" "thread_step test_safe_swap" swap_inv
proof
  show "st = spawn test_safe_swap swap_mem \<Longrightarrow> swap_inv st" for st
    by (simp add: swap_inv_def spawn_def test_safe_swap_def)
  show "swap_inv s \<Longrightarrow> thread_step test_safe_swap s t \<Longrightarrow> swap_inv t" for s t
    by (blast intro: swap_inv_exec elim: thread_stepE)
qed

text \<open>
  When both threads of \<open>test_safe_swap\<close> have ended, each object holds its first value again,
  whatever the order of the threads; and they can always go on until then.
\<close>

theorem safe_swap_restores:
  assumes "reachable (\<lambda>st. st = spawn test_safe_swap swap_mem) (thread_step test_safe_swap) st"
  shows "(finished test_safe_swap st \<longrightarrow> mem st = swap_mem) \<and> \<not> deadlocked test_safe_swap st"
proof -
  have "swap_inv st" using assms safe_swaps.reachable_inv by blast
  moreover have "list_all disciplined test_safe_swap" by (simp add: test_safe_swap_def)
  ultimately show ?thesis using disciplined_no_deadlock [OF _ assms]
    by (auto simp: swap_inv_def finished_def lock_progs upt_rec)
qed

lemma safe_swap_restores_witness:
  "\<exists>st. reachable (\<lambda>st. st = spawn test_safe_swap swap_mem) (thread_step test_safe_swap) st \<and>
     finished test_safe_swap st \<and> mem st = swap_mem"
proof -
  obtain st where run: "thread_run test_safe_swap [1, 1, 1, 1, 0, 0, 0, 0] (spawn test_safe_swap swap_mem) = Some st"
    and fin: "finished test_safe_swap st"
    by (simp add: lock_progs spawn_def thread_exec_def next_pc_def finished_def upt_rec)
  have "reachable (\<lambda>st. st = spawn test_safe_swap swap_mem) (thread_step test_safe_swap) st"
    by (rule thread_run_reachable [OF run]) (simp add: reach_init)
  then show ?thesis using fin safe_swap_restores [of st] by blast
qed

text \<open>
  Any number of threads that run \<open>safe_lock1\<close>, \<open>safe_lock2\<close>, \<open>safe_swap\<close> or
  \<open>safe_swap_scope\<close>, on any objects, never deadlock, and a thread about to swap two objects owns both
  mutexes.
\<close>

theorem safe_threads_never_deadlock:
  assumes "\<And>t. t \<in> set ts \<Longrightarrow> t = safe_lock1 \<or> t = safe_lock2 \<or> (\<exists>a b. t = safe_swap a b \<or> t = safe_swap_scope a b)"
    and "reachable (\<lambda>st. st = spawn ts mem0) (thread_step ts) st"
  shows "\<not> deadlocked ts st \<and> (\<forall>i a b. i < length ts \<and> pcs st ! i < length (calls (ts ! i)) \<and>
     calls (ts ! i) ! (pcs st ! i) = Swap a b \<longrightarrow> owner st a = Some i \<and> owner st b = Some i)"
proof -
  have dis: "list_all disciplined ts" using assms(1) disciplined_safe by (metis list_all_iff)
  have "reachable (\<lambda>st. list_all disciplined ts \<and> st = spawn ts mem0) (thread_step ts) st"
    using assms(2) dis by simp
  then have inv: "owner_inv ts st" using disciplined_threads.reachable_inv by blast
  have "{a, b} \<subseteq> held (take k (calls t))"
    if "t \<in> set ts" "k < length (calls t)" "calls t ! k = Swap a b" for t k a b
  proof -
    have "k < 6" using assms(1) [OF that(1)] that(2) by (auto simp: lock_progs split: if_splits)
    then have "k \<in> {0, 1, 2, 3, 4, 5}" by auto
    then show ?thesis using assms(1) [OF that(1)] that(2,3)
      by (auto simp: lock_progs held_def held_after_def split: if_splits)
  qed
  then show ?thesis using disciplined_no_deadlock [OF dis assms(2)] inv
    by (auto simp: owner_inv_def)
qed

lemma safe_threads_never_deadlock_witness:
  "\<not> deadlocked test_safe_lock (spawn test_safe_lock lock_mem)"
  using safe_threads_never_deadlock [of test_safe_lock lock_mem "spawn test_safe_lock lock_mem"]
  by (auto simp: test_safe_lock_def intro: reach_init)

end
