(* ===== verification/HierarchicalMutex.thy ===== *)
theory HierarchicalMutex
  imports Prelude
begin

text \<open>
  \<open>hierarchical_mutex\<close> of \<open>example/boost/concurrent/example02_mutexlock.cpp\<close>: a mutex that throws
  when a thread does not lock in descending order of the hierarchy values.  Any number of
  threads call any number of mutexes in any order; a call of \<open>lock\<close> is two steps, the check and
  the acquisition, between which the thread waits.
\<close>

section \<open>State and calls\<close>

type_synonym ulong = "64 word"

abbreviation ULONG_MAX :: ulong where
  "ULONG_MAX \<equiv> - 1"

text \<open>
  \<open>internal_mutex\<close> gives the owner of a mutex, \<open>previous_value\<close> its \<open>_previous_hierarchy_value\<close>,
  \<open>this_thread_value\<close> the \<open>thread_local\<close> of a thread.  \<open>waits\<close> is the mutex a thread is blocked on
  inside \<open>lock\<close>, and \<open>chain\<close> a history variable: the mutexes a thread holds, the last one first.
\<close>

record hier_sys =
  internal_mutex :: "nat \<Rightarrow> nat option"
  previous_value :: "nat \<Rightarrow> ulong"
  this_thread_value :: "nat \<Rightarrow> ulong"
  waits :: "nat \<Rightarrow> nat option"
  chain :: "nat \<Rightarrow> nat list"

definition new_hier :: hier_sys where
  "new_hier = \<lparr>internal_mutex = (\<lambda>_. None), previous_value = (\<lambda>_. 0),
     this_thread_value = (\<lambda>_. ULONG_MAX), waits = (\<lambda>_. None), chain = (\<lambda>_. [])\<rparr>"

definition check_for_hierarchy_violation :: "(nat \<Rightarrow> ulong) \<Rightarrow> nat \<Rightarrow> nat \<Rightarrow> hier_sys \<Rightarrow> unit cxx" where
  "check_for_hierarchy_violation level t m st =
     (if this_thread_value st t \<le> level m then Throw HierarchyViolated else Ok ())"

definition update_hierarchy_value :: "(nat \<Rightarrow> ulong) \<Rightarrow> nat \<Rightarrow> nat \<Rightarrow> hier_sys \<Rightarrow> hier_sys" where
  "update_hierarchy_value level t m st =
     st\<lparr>previous_value := (previous_value st)(m := this_thread_value st t),
        this_thread_value := (this_thread_value st)(t := level m)\<rparr>"

text \<open>\<open>_internal_mutex\<close> taken by a thread, and given back; giving back a mutex of another is undefined.\<close>

definition take_mutex :: "nat \<Rightarrow> nat \<Rightarrow> hier_sys \<Rightarrow> hier_sys" where
  "take_mutex t m st =
     st\<lparr>internal_mutex := (internal_mutex st)(m := Some t), waits := (waits st)(t := None),
        chain := (chain st)(t := m # chain st t)\<rparr>"

definition give_mutex :: "nat \<Rightarrow> nat \<Rightarrow> hier_sys \<Rightarrow> hier_sys cxx" where
  "give_mutex t m st =
     (if internal_mutex st m = Some t
      then Ok (st\<lparr>internal_mutex := (internal_mutex st)(m := None),
                  chain := (chain st)(t := remove1 m (chain st t))\<rparr>)
      else UB)"

definition hier_lock_call :: "(nat \<Rightarrow> ulong) \<Rightarrow> nat \<Rightarrow> nat \<Rightarrow> hier_sys \<Rightarrow> hier_sys cxx" where
  "hier_lock_call level t m st =
     cxx_bind (check_for_hierarchy_violation level t m st) (\<lambda>_. Ok (st\<lparr>waits := (waits st)(t := Some m)\<rparr>))"

definition hier_lock_take :: "(nat \<Rightarrow> ulong) \<Rightarrow> nat \<Rightarrow> nat \<Rightarrow> hier_sys \<Rightarrow> hier_sys" where
  "hier_lock_take level t m st = update_hierarchy_value level t m (take_mutex t m st)"

definition hier_unlock :: "(nat \<Rightarrow> ulong) \<Rightarrow> nat \<Rightarrow> nat \<Rightarrow> hier_sys \<Rightarrow> hier_sys cxx" where
  "hier_unlock level t m st =
     (if this_thread_value st t \<noteq> level m then Throw HierarchyViolated
      else give_mutex t m
        (st\<lparr>this_thread_value := (this_thread_value st)(t := previous_value st m)\<rparr>))"

text \<open>\<open>std::mutex::try_lock\<close> may fail on a free mutex: the flag \<open>lucky\<close>.\<close>

definition hier_try_lock :: "(nat \<Rightarrow> ulong) \<Rightarrow> bool \<Rightarrow> nat \<Rightarrow> nat \<Rightarrow> hier_sys \<Rightarrow> (bool \<times> hier_sys) cxx" where
  "hier_try_lock level lucky t m st =
     cxx_bind (check_for_hierarchy_violation level t m st) (\<lambda>_.
       if internal_mutex st m \<noteq> None \<or> \<not> lucky then Ok (False, st)
       else Ok (True, update_hierarchy_value level t m (take_mutex t m st)))"

section \<open>Steps\<close>

datatype hier_label = LockCall nat nat | LockTake nat nat | Unlock nat nat | TryLock bool nat nat

text \<open>\<open>None\<close>: the call is not possible, since the thread or the mutex is blocked.\<close>

fun hier_exec :: "(nat \<Rightarrow> ulong) \<Rightarrow> hier_label \<Rightarrow> hier_sys \<Rightarrow> hier_sys cxx option" where
  "hier_exec level (LockCall t m) st = (if waits st t = None then Some (hier_lock_call level t m st) else None)"
| "hier_exec level (LockTake t m) st =
     (if waits st t = Some m \<and> internal_mutex st m = None then Some (Ok (hier_lock_take level t m st)) else None)"
| "hier_exec level (Unlock t m) st = (if waits st t = None then Some (hier_unlock level t m st) else None)"
| "hier_exec level (TryLock lucky t m) st =
     (if waits st t = None
      then Some (cxx_bind (hier_try_lock level lucky t m st) (\<lambda>(_, st'). Ok st')) else None)"

inductive hier_step :: "(nat \<Rightarrow> ulong) \<Rightarrow> hier_sys \<Rightarrow> hier_sys \<Rightarrow> bool" for level where
  hier_stepI: "hier_exec level l st = Some (Ok st') \<Longrightarrow> hier_step level st st'"

inductive_cases hier_stepE: "hier_step level st st'"

section \<open>The chain of a thread\<close>

fun top_value :: "(nat \<Rightarrow> ulong) \<Rightarrow> nat list \<Rightarrow> ulong" where
  "top_value level [] = ULONG_MAX"
| "top_value level (m # ms) = level m"

fun linked :: "(nat \<Rightarrow> ulong) \<Rightarrow> (nat \<Rightarrow> ulong) \<Rightarrow> nat list \<Rightarrow> bool" where
  "linked level prev [] \<longleftrightarrow> True"
| "linked level prev (m # ms) \<longleftrightarrow>
     prev m = top_value level ms \<and> level m < top_value level ms \<and> linked level prev ms"

lemma linked_upd [simp]: "m \<notin> set ms \<Longrightarrow> linked level (prev(m := v)) ms \<longleftrightarrow> linked level prev ms"
  by (induction ms) auto

lemma linked_top: "linked level prev ms \<Longrightarrow> m \<in> set ms \<Longrightarrow> top_value level ms \<le> level m"
proof (induction ms)
  case (Cons a ms)
  then show ?case by (cases ms) (auto intro: order.trans less_imp_le)
qed simp

lemma linked_below:
  "linked level prev ms \<Longrightarrow> v < top_value level ms \<longleftrightarrow> v < ULONG_MAX \<and> (\<forall>m\<in>set ms. v < level m)"
proof (induction ms)
  case (Cons a ms)
  then show ?case by (auto dest: order.strict_trans)
qed simp

lemma linked_top_iff:
  assumes "linked level prev ms"
  shows "m \<in> set ms \<and> top_value level ms = level m \<longleftrightarrow> ms \<noteq> [] \<and> hd ms = m"
proof (cases ms)
  case (Cons a as)
  then show ?thesis using assms linked_top [of level prev as m] by (auto dest: order.strict_trans2)
qed simp

lemma linked_distinct: "linked level prev ms \<Longrightarrow> distinct ms"
proof (induction ms)
  case (Cons a ms)
  then show ?case using linked_top [of level prev ms a] by auto
qed simp

definition hier_inv :: "(nat \<Rightarrow> ulong) \<Rightarrow> hier_sys \<Rightarrow> bool" where
  "hier_inv level st \<longleftrightarrow>
     (\<forall>t. linked level (previous_value st) (chain st t) \<and>
          this_thread_value st t = top_value level (chain st t)) \<and>
     (\<forall>m t. internal_mutex st m = Some t \<longleftrightarrow> m \<in> set (chain st t)) \<and>
     (\<forall>t m. waits st t = Some m \<longrightarrow> level m < this_thread_value st t)"

lemma hier_invD:
  assumes "hier_inv level st"
  shows "linked level (previous_value st) (chain st t)"
    and "this_thread_value st t = top_value level (chain st t)"
    and "internal_mutex st m = Some t \<longleftrightarrow> m \<in> set (chain st t)"
    and "waits st t = Some m \<Longrightarrow> level m < this_thread_value st t"
  using assms by (auto simp: hier_inv_def)

lemma hier_inv_acquire:
  assumes inv: "hier_inv level st" and free: "internal_mutex st m = None" and ok: "level m < this_thread_value st t"
  shows "hier_inv level (update_hierarchy_value level t m (take_mutex t m st))"
proof -
  have "m \<notin> set (chain st u)" for u using hier_invD(3) [OF inv, of m u] free by simp
  then show ?thesis using inv ok free
    unfolding hier_inv_def update_hierarchy_value_def take_mutex_def by auto
qed

lemma hier_unlock_Ok:
  assumes inv: "hier_inv level st" and ok: "hier_unlock level t m st = Ok st'"
  shows "\<exists>ms. chain st t = m # ms \<and> st' = st\<lparr>internal_mutex := (internal_mutex st)(m := None),
     chain := (chain st)(t := ms), this_thread_value := (this_thread_value st)(t := top_value level ms)\<rparr>"
proof -
  have val: "this_thread_value st t = level m" and mem: "m \<in> set (chain st t)"
    using ok hier_invD(3) [OF inv, of m t] by (auto simp: hier_unlock_def give_mutex_def split: if_splits)
  have top: "top_value level (chain st t) = level m" using val hier_invD(2) [OF inv, of t] by simp
  obtain a ms where ch: "chain st t = a # ms" using mem by (cases "chain st t") auto
  have "a = m"
  proof (rule ccontr)
    assume "a \<noteq> m"
    then have "m \<in> set ms" using mem ch by simp
    then have "level a < level m" using hier_invD(1) [OF inv, of t] ch linked_top [of level _ ms m]
      by (auto intro: order.strict_trans2)
    then show False using top ch by simp
  qed
  moreover have "previous_value st a = top_value level ms" using hier_invD(1) [OF inv, of t] ch by simp
  ultimately show ?thesis using ok ch mem hier_invD(3) [OF inv, of m t] val
    by (auto simp: hier_unlock_def give_mutex_def split: if_splits)
qed

lemma hier_inv_release:
  assumes inv: "hier_inv level st" and ch: "chain st t = m # ms" and w: "waits st t = None"
  shows "hier_inv level (st\<lparr>internal_mutex := (internal_mutex st)(m := None),
     chain := (chain st)(t := ms), this_thread_value := (this_thread_value st)(t := top_value level ms)\<rparr>)"
proof -
  have "m \<notin> set ms" using hier_invD(1) [OF inv, of t] ch linked_distinct by fastforce
  moreover have "m \<in> set (chain st u) \<longleftrightarrow> u = t" for u
    using hier_invD(3) [OF inv, of m] ch by (metis list.set_intros(1) option.inject)
  moreover have "linked level (previous_value st) ms" using hier_invD(1) [OF inv, of t] ch by simp
  ultimately show ?thesis using inv ch w unfolding hier_inv_def by (auto split: if_splits)
qed

lemma hier_try_lock_Ok:
  "hier_try_lock level lucky t m st = Ok (b, st') \<Longrightarrow> level m < this_thread_value st t \<and>
     (if b then internal_mutex st m = None \<and> st' = update_hierarchy_value level t m (take_mutex t m st) else st' = st)"
  by (auto simp: hier_try_lock_def check_for_hierarchy_violation_def cxx_simps split: if_splits)

lemma hier_inv_step: "hier_inv level st \<Longrightarrow> hier_exec level l st = Some (Ok st') \<Longrightarrow> hier_inv level st'"
proof (cases l)
  case (LockCall t m)
  then show "hier_inv level st \<Longrightarrow> hier_exec level l st = Some (Ok st') \<Longrightarrow> ?thesis"
    by (auto simp: hier_lock_call_def check_for_hierarchy_violation_def hier_inv_def cxx_simps split: if_splits)
next
  case (LockTake t m)
  then show "hier_inv level st \<Longrightarrow> hier_exec level l st = Some (Ok st') \<Longrightarrow> ?thesis"
    by (auto simp: hier_lock_take_def intro: hier_inv_acquire dest: hier_invD(4) split: if_splits)
next
  case (Unlock t m)
  then show "hier_inv level st \<Longrightarrow> hier_exec level l st = Some (Ok st') \<Longrightarrow> ?thesis"
    using hier_unlock_Ok hier_inv_release by (fastforce split: if_splits)
next
  case (TryLock lucky t m)
  then show "hier_inv level st \<Longrightarrow> hier_exec level l st = Some (Ok st') \<Longrightarrow> ?thesis"
    by (auto simp: cxx_bind_eq_Ok dest!: hier_try_lock_Ok intro: hier_inv_acquire split: if_splits)
qed

interpretation hier: step_invariant "\<lambda>st. st = new_hier" "hier_step level" "hier_inv level" for level
proof
  show "st = new_hier \<Longrightarrow> hier_inv level st" for st by (simp add: hier_inv_def new_hier_def)
  show "hier_inv level s \<Longrightarrow> hier_step level s t \<Longrightarrow> hier_inv level t" for s t
    by (blast intro: hier_inv_step elim: hier_stepE)
qed

section \<open>Properties\<close>

text \<open>
  C20: Threads that use only \<open>hierarchical_mutex\<close> never deadlock: in every reachable state, in every
  non-empty set of threads some thread is not waiting for a mutex that a thread of the set holds.
\<close>

theorem hier_no_deadlock:
  assumes "reachable (\<lambda>st. st = new_hier) (hier_step level) st" and "T \<noteq> {}"
  shows "\<exists>t\<in>T. \<forall>m u. waits st t = Some m \<and> internal_mutex st m = Some u \<longrightarrow> u \<notin> T"
proof (rule ccontr)
  assume "\<not> ?thesis"
  then have cyc: "\<exists>m u. waits st t = Some m \<and> internal_mutex st m = Some u \<and> u \<in> T" if "t \<in> T" for t
    using that by blast
  have inv: "hier_inv level st" using hier.reachable_inv assms(1) .
  let ?f = "\<lambda>t. unat (this_thread_value st t)"
  obtain t where t: "t \<in> T" "\<And>u. u \<in> T \<Longrightarrow> ?f t \<le> ?f u"
    using assms(2) arg_min_natI [of "\<lambda>t. t \<in> T" _ ?f] arg_min_nat_le [of "\<lambda>t. t \<in> T" _ ?f] by blast
  obtain m u where "waits st t = Some m" "internal_mutex st m = Some u" "u \<in> T" using cyc [OF t(1)] by blast
  moreover have "this_thread_value st u \<le> level m"
    using linked_top [OF hier_invD(1) [OF inv]] hier_invD(2,3) [OF inv] calculation(2) by metis
  ultimately have "this_thread_value st u < this_thread_value st t"
    using hier_invD(4) [OF inv] by (blast intro: order.strict_trans1)
  then show False using t(2) [OF \<open>u \<in> T\<close>] by (simp add: word_less_nat_alt)
qed

lemma hier_reach:
  "reachable (\<lambda>st. st = new_hier) (hier_step level) st \<Longrightarrow> hier_exec level l st = Some (Ok st') \<Longrightarrow>
     reachable (\<lambda>st. st = new_hier) (hier_step level) st'"
  by (blast intro: reach_step hier_stepI)

text \<open>The first thread of \<open>test_hierarchy_lock\<close> inside both locks, the second one in its first.\<close>

definition hier_test_level :: "nat \<Rightarrow> ulong" where
  "hier_test_level m = (if m = 1 then 1000 else 500)"

fun hier_run :: "(nat \<Rightarrow> ulong) \<Rightarrow> hier_label list \<Rightarrow> hier_sys \<Rightarrow> hier_sys cxx option" where
  "hier_run level [] st = Some (Ok st)"
| "hier_run level (l # ls) st =
     (case hier_exec level l st of Some (Ok st') \<Rightarrow> hier_run level ls st' | r \<Rightarrow> r)"

lemma hier_run_reach:
  "hier_run level ls st = Some (Ok st') \<Longrightarrow> reachable (\<lambda>st. st = new_hier) (hier_step level) st \<Longrightarrow>
     reachable (\<lambda>st. st = new_hier) (hier_step level) st'"
proof (induction ls arbitrary: st)
  case (Cons l ls)
  then obtain st1 where "hier_exec level l st = Some (Ok st1)" "hier_run level ls st1 = Some (Ok st')"
    by (auto split: option.splits cxx.splits)
  then show ?case using Cons by (blast intro: hier_reach)
qed simp

lemma hier_run_case:
  "(case r of Some (Ok st) \<Rightarrow> P st | _ \<Rightarrow> False) \<Longrightarrow> \<exists>st. r = Some (Ok st) \<and> P st"
  by (auto split: option.splits cxx.splits)

fun hier_exec_throws :: "hier_sys cxx option \<Rightarrow> bool" where
  "hier_exec_throws (Some (Throw e)) \<longleftrightarrow> e = HierarchyViolated"
| "hier_exec_throws r \<longleftrightarrow> False"

lemma hier_exec_throwsD: "hier_exec_throws r \<Longrightarrow> r = Some (Throw HierarchyViolated)"
  by (cases r rule: hier_exec_throws.cases) auto

lemmas hier_defs = hier_lock_call_def hier_lock_take_def hier_unlock_def hier_try_lock_def
  check_for_hierarchy_violation_def update_hierarchy_value_def take_mutex_def give_mutex_def
  new_hier_def cxx_simps

lemma hier_no_deadlock_witness:
  "\<exists>st :: hier_sys. waits st 1 = Some 2 \<and> internal_mutex st 2 = Some 0 \<and>
     (\<exists>t\<in>{0, 1}. \<forall>m u. waits st t = Some m \<and> internal_mutex st m = Some u \<longrightarrow> u \<notin> {0, 1})"
proof -
  have "case hier_run hier_test_level [LockCall 0 1, LockTake 0 1, LockCall 1 2, LockCall 0 2, LockTake 0 2]
      new_hier of Some (Ok st) \<Rightarrow> waits st 1 = Some 2 \<and> internal_mutex st 2 = Some 0 | _ \<Rightarrow> False"
    by code_simp
  then obtain st where run: "hier_run hier_test_level
      [LockCall 0 1, LockTake 0 1, LockCall 1 2, LockCall 0 2, LockTake 0 2] new_hier = Some (Ok st)"
    and st: "waits st 1 = Some 2" "internal_mutex st 2 = Some 0"
    by (blast dest: hier_run_case)
  have "reachable (\<lambda>st. st = new_hier) (hier_step hier_test_level) st"
    using hier_run_reach [OF run] by (simp add: reach_init)
  note free = hier_no_deadlock [OF this insert_not_empty, of 0 "{1}"]
  show ?thesis by (rule exI [of _ st], rule conjI [OF st(1) conjI [OF st(2) free]])
qed

text \<open>
  The order is enforced: a thread may start to lock exactly the mutexes below all those it
  holds, and may unlock exactly the one it locked last; every other call throws, and no call is
  undefined on a mutex whose hierarchy value is below \<open>ULONG_MAX\<close> and no other mutex's.
\<close>

theorem hier_discipline:
  assumes "reachable (\<lambda>st. st = new_hier) (hier_step level) st" and "waits st t = None"
  shows "((\<exists>st'. hier_exec level (LockCall t m) st = Some (Ok st')) \<longleftrightarrow>
        level m < ULONG_MAX \<and> (\<forall>m'. internal_mutex st m' = Some t \<longrightarrow> level m < level m')) \<and>
     ((\<exists>st'. hier_exec level (Unlock t m) st = Some (Ok st')) \<longleftrightarrow> chain st t \<noteq> [] \<and> hd (chain st t) = m) \<and>
     hier_exec level (LockCall t m) st \<noteq> Some UB \<and>
     (level m < ULONG_MAX \<and> (\<forall>m'. level m' = level m \<longrightarrow> m' = m) \<longrightarrow> hier_exec level (Unlock t m) st \<noteq> Some UB)"
proof -
  have inv: "hier_inv level st" using hier.reachable_inv assms(1) .
  note d = hier_invD(1) [OF inv, of t] hier_invD(2) [OF inv, of t] hier_invD(3) [OF inv]
  have lock: "(\<exists>st'. hier_exec level (LockCall t m) st = Some (Ok st')) \<longleftrightarrow> level m < top_value level (chain st t)"
    using assms(2) d(2) by (auto simp: hier_defs not_le)
  have unl: "hier_exec level (Unlock t m) st = Some (if top_value level (chain st t) \<noteq> level m then Throw HierarchyViolated
      else give_mutex t m (st\<lparr>this_thread_value := (this_thread_value st)(t := previous_value st m)\<rparr>))"
    using assms(2) d(2) by (simp add: hier_unlock_def)
  have give: "give_mutex t m (st\<lparr>this_thread_value := v\<rparr>) = UB \<longleftrightarrow> m \<notin> set (chain st t)" for v
    using d(3) [of m t] by (simp add: give_mutex_def)
  show ?thesis
  proof (intro conjI impI)
    show "(\<exists>st'. hier_exec level (LockCall t m) st = Some (Ok st')) \<longleftrightarrow>
        level m < ULONG_MAX \<and> (\<forall>m'. internal_mutex st m' = Some t \<longrightarrow> level m < level m')"
      using lock linked_below [OF d(1)] d(3) by auto
    show "(\<exists>st'. hier_exec level (Unlock t m) st = Some (Ok st')) \<longleftrightarrow> chain st t \<noteq> [] \<and> hd (chain st t) = m"
      using unl linked_top_iff [OF d(1), of m] d(3) [of m t] by (auto simp: give_mutex_def)
    show "hier_exec level (LockCall t m) st \<noteq> Some UB" by (auto simp: hier_defs)
    show "hier_exec level (Unlock t m) st \<noteq> Some UB"
      if "level m < ULONG_MAX \<and> (\<forall>m'. level m' = level m \<longrightarrow> m' = m)"
    proof (cases "chain st t")
      case Nil
      then have "hier_exec level (Unlock t m) st = Some (Throw HierarchyViolated)" using unl that by auto
      then show ?thesis by simp
    next
      case (Cons a ms)
      then show ?thesis using unl give that by auto
    qed
  qed
qed

lemma hier_discipline_witness:
  "\<exists>st. internal_mutex st 2 = Some 1 \<and> hier_exec hier_test_level (LockCall 1 1) st = Some (Throw HierarchyViolated) \<and>
     \<not> (\<exists>st'. hier_exec hier_test_level (LockCall 1 1) st = Some (Ok st')) \<and>
     (\<exists>st'. hier_exec hier_test_level (Unlock 1 2) st = Some (Ok st'))"
proof -
  have "case hier_run hier_test_level [LockCall 1 2, LockTake 1 2] new_hier of
      Some (Ok st) \<Rightarrow> internal_mutex st 2 = Some 1 \<and> waits st 1 = None \<and> chain st 1 = [2] \<and>
        hier_exec_throws (hier_exec hier_test_level (LockCall 1 1) st) | _ \<Rightarrow> False"
    by code_simp
  then obtain st where run: "hier_run hier_test_level [LockCall 1 2, LockTake 1 2] new_hier = Some (Ok st)"
    and st: "internal_mutex st 2 = Some 1" "waits st 1 = None" "chain st 1 = [2]"
    and thr: "hier_exec_throws (hier_exec hier_test_level (LockCall 1 1) st)"
    by (blast dest: hier_run_case)
  have "reachable (\<lambda>st. st = new_hier) (hier_step hier_test_level) st"
    using hier_run_reach [OF run] by (simp add: reach_init)
  note hier_discipline [OF this st(2), of 1] hier_discipline [OF this st(2), of 2]
  then show ?thesis using st hier_exec_throwsD [OF thr] by (intro exI [of _ st]) auto
qed

end
