(* ===== verification/Containers.thy ===== *)
theory Containers
  imports Prelude
begin

text \<open>
  The containers of \<open>example/boost/concurrent\<close>: \<open>threadsafe_stack1\<close> and \<open>threadsafe_stack\<close>
  (\<open>example02_mutexlock.cpp\<close>) and \<open>threadsafe_queue\<close> (\<open>example05_condition_variable.cpp\<close>).  Every
  member function holds the mutex of the object from its first line to its last, so a call is
  one step; only \<open>wait_and_pop\<close> gives the mutex up, inside \<open>wait\<close>.
\<close>

section \<open>The stacks\<close>

text \<open>\<open>std::stack\<close> as a list, the top first; \<open>top\<close> and \<open>pop\<close> of an empty one are undefined.\<close>

fun std_top :: "'a list \<Rightarrow> 'a cxx" where
  "std_top [] = UB"
| "std_top (x # xs) = Ok x"

fun std_pop :: "'a list \<Rightarrow> 'a list cxx" where
  "std_pop [] = UB"
| "std_pop (x # xs) = Ok xs"

definition stack1_copy :: "'a list \<Rightarrow> 'a list" where
  "stack1_copy other = other"

definition stack1_push :: "'a \<Rightarrow> 'a list \<Rightarrow> 'a list" where
  "stack1_push new_value data = new_value # data"

definition stack1_pop :: "'a list \<Rightarrow> ('a \<times> 'a list) cxx" where
  "stack1_pop data = cxx_bind (std_top data) (\<lambda>elemet. cxx_bind (std_pop data) (\<lambda>data'. Ok (elemet, data')))"

definition stack1_empty :: "'a list \<Rightarrow> bool" where
  "stack1_empty data \<longleftrightarrow> data = []"

text \<open>
  \<open>threadsafe_stack\<close>: the \<open>pop\<close> that returns a pointer calls \<open>top\<close> a second time where the other
  one calls \<open>pop\<close>.  Its copy constructor assigns \<open>other.m\<close> to \<open>data\<close> and cannot be instantiated.
\<close>

definition stack_push :: "'a \<Rightarrow> 'a list \<Rightarrow> 'a list" where
  "stack_push new_value data = new_value # data"

definition stack_pop_shared :: "'a list \<Rightarrow> ('a \<times> 'a list) cxx" where
  "stack_pop_shared data =
     (if data = [] then Throw EmptyStack
      else cxx_bind (std_top data) (\<lambda>res. cxx_bind (std_top data) (\<lambda>_. Ok (res, data))))"

definition stack_pop_ref :: "'a list \<Rightarrow> ('a \<times> 'a list) cxx" where
  "stack_pop_ref data =
     (if data = [] then Throw EmptyStack
      else cxx_bind (std_top data) (\<lambda>value. cxx_bind (std_pop data) (\<lambda>data'. Ok (value, data'))))"

definition stack_empty :: "'a list \<Rightarrow> bool" where
  "stack_empty data \<longleftrightarrow> data = []"

text \<open>A number of calls of a \<open>pop\<close>.\<close>

fun pop_n :: "('s \<Rightarrow> ('a \<times> 's) cxx) \<Rightarrow> nat \<Rightarrow> 's \<Rightarrow> ('a list \<times> 's) cxx" where
  "pop_n pop 0 s = Ok ([], s)"
| "pop_n pop (Suc n) s =
     cxx_bind (pop s) (\<lambda>(x, s'). cxx_bind (pop_n pop n s') (\<lambda>(xs, s''). Ok (x # xs, s'')))"

text \<open>
  What a user of a stack relies on, and a first consequence: pushing a list and popping as often
  gives its elements back in reverse and leaves the stack as it was.
\<close>

locale stack_contract =
  fixes push :: "'a \<Rightarrow> 's \<Rightarrow> 's" and pop :: "'s \<Rightarrow> ('a \<times> 's) cxx" and is_empty :: "'s \<Rightarrow> bool"
  assumes pop_push: "pop (push x s) = Ok (x, s)"
    and pushed_not_empty: "\<not> is_empty (push x s)"
begin

lemma pop_n_push: "pop_n pop (length xs) (foldr push xs s) = Ok (xs, s)"
  by (induction xs) (auto simp: pop_push cxx_simps)

lemma push_pop_reverse: "pop_n pop (length xs) (fold push xs s) = Ok (rev xs, s)"
  using pop_n_push [of "rev xs" s] by (simp add: foldr_conv_fold)

end

interpretation stack1: stack_contract stack1_push stack1_pop stack1_empty
  by unfold_locales (auto simp: stack1_push_def stack1_pop_def stack1_empty_def cxx_simps)

interpretation stack_ref: stack_contract stack_push stack_pop_ref stack_empty
  by unfold_locales (auto simp: stack_push_def stack_pop_ref_def stack_empty_def cxx_simps)

text \<open>
  \<open>test_threadsafe_stack1\<close>: each thread asks \<open>empty\<close> and then pops, in two calls.
\<close>

datatype popper = Asks | Pops | Ended

fun test_stack1_exec :: "nat \<Rightarrow> int list \<times> popper list \<Rightarrow> (int list \<times> popper list) cxx option" where
  "test_stack1_exec i (data, ps) =
     (if i < length ps then
        case ps ! i of
          Asks \<Rightarrow> Some (Ok (data, ps[i := if \<not> stack1_empty data then Pops else Ended]))
        | Pops \<Rightarrow> Some (cxx_bind (stack1_pop data) (\<lambda>(_, data'). Ok (data', ps[i := Ended])))
        | Ended \<Rightarrow> None
      else None)"

fun test_stack1_run :: "nat list \<Rightarrow> int list \<times> popper list \<Rightarrow> (int list \<times> popper list) cxx option" where
  "test_stack1_run [] st = Some (Ok st)"
| "test_stack1_run (i # is) st =
     (case test_stack1_exec i st of Some (Ok st') \<Rightarrow> test_stack1_run is st' | r \<Rightarrow> r)"

definition test_stack1_start :: "int list \<times> popper list" where
  "test_stack1_start = (stack1_push 1 [], [Asks, Asks])"

text \<open>
  The stacks: \<open>threadsafe_stack1\<close> and the \<open>pop(T&)\<close> of \<open>threadsafe_stack\<close> give back a pushed list
  in reverse; the \<open>pop\<close> of \<open>threadsafe_stack\<close> that returns a pointer never removes anything, so it
  returns the same element for ever; and asking \<open>empty\<close> before \<open>pop\<close> does not protect
  \<open>threadsafe_stack1\<close>: two threads that both see one element pop an empty stack.
\<close>

theorem stack_behaviour:
  "pop_n stack1_pop (length xs) (fold stack1_push xs s) = Ok (rev xs, s) \<and>
   pop_n stack_pop_ref (length xs) (fold stack_push xs s) = Ok (rev xs, s) \<and>
   stack_pop_ref ([] :: 'a list) = Throw EmptyStack \<and> stack_pop_shared ([] :: 'a list) = Throw EmptyStack \<and>
   stack_pop_shared (stack_push (y :: 'a) s) = Ok (y, stack_push y s) \<and>
   test_stack1_run [0, 1, 0, 1] test_stack1_start = Some UB \<and>
   test_stack1_run [0, 0, 1] test_stack1_start = Some (Ok ([], [Ended, Ended]))"
  by (intro conjI stack1.push_pop_reverse stack_ref.push_pop_reverse)
    (simp_all add: stack_pop_ref_def stack_pop_shared_def stack_push_def cxx_simps test_stack1_start_def
      stack1_push_def stack1_pop_def stack1_empty_def)

section \<open>The queue\<close>

text \<open>
  \<open>waiting\<close> lists the threads blocked in \<open>data_cond.wait\<close>, \<open>woken\<close> those that a notification (or a
  spurious wake-up) has released and that have to take \<open>mut\<close> again.  \<open>pushed\<close> and \<open>popped\<close> are
  histories, \<open>popped\<close> with the thread that got the element.
\<close>

record 'a ts_queue =
  data_queue :: "'a list"
  waiting :: "nat list"
  woken :: "nat list"
  pushed :: "'a list"
  popped :: "(nat \<times> 'a) list"

definition new_ts_queue :: "'a ts_queue" where
  "new_ts_queue = \<lparr>data_queue = [], waiting = [], woken = [], pushed = [], popped = []\<rparr>"

text \<open>\<open>notify_one\<close> wakes one waiting thread, any of them, or does nothing when there is none.\<close>

definition data_cond_notify :: "nat \<Rightarrow> 'a ts_queue \<Rightarrow> 'a ts_queue option" where
  "data_cond_notify w q =
     (if waiting q = [] then Some q
      else if w \<in> set (waiting q) then Some (q\<lparr>waiting := remove1 w (waiting q), woken := w # woken q\<rparr>)
      else None)"

definition queue_push :: "'a \<Rightarrow> 'a ts_queue \<Rightarrow> 'a ts_queue" where
  "queue_push new_value q = q\<lparr>data_queue := data_queue q @ [new_value], pushed := pushed q @ [new_value]\<rparr>"

definition take_front :: "nat \<Rightarrow> 'a ts_queue \<Rightarrow> 'a ts_queue" where
  "take_front t q =
     (case data_queue q of [] \<Rightarrow> q | x # xs \<Rightarrow> q\<lparr>data_queue := xs, popped := popped q @ [(t, x)]\<rparr>)"

text \<open>The loop of \<open>wait\<close> under the mutex: take the front, or wait when the queue is empty.\<close>

definition wait_and_pop :: "nat \<Rightarrow> 'a ts_queue \<Rightarrow> 'a ts_queue" where
  "wait_and_pop t q = (if data_queue q = [] then q\<lparr>waiting := t # waiting q\<rparr> else take_front t q)"

definition try_pop :: "nat \<Rightarrow> 'a ts_queue \<Rightarrow> bool \<times> 'a ts_queue" where
  "try_pop t q = (if data_queue q = [] then (False, q) else (True, take_front t q))"

definition queue_empty :: "'a ts_queue \<Rightarrow> bool" where
  "queue_empty q \<longleftrightarrow> data_queue q = []"

datatype 'a queue_label = Push 'a nat | WaitPop nat | Wakes nat | SpuriousWake nat | TryPop nat

fun queue_exec :: "'a queue_label \<Rightarrow> 'a ts_queue \<Rightarrow> 'a ts_queue option" where
  "queue_exec (Push x w) q = data_cond_notify w (queue_push x q)"
| "queue_exec (WaitPop t) q =
     (if t \<in> set (waiting q) \<union> set (woken q) then None else Some (wait_and_pop t q))"
| "queue_exec (Wakes t) q =
     (if t \<in> set (woken q) then Some (wait_and_pop t (q\<lparr>woken := remove1 t (woken q)\<rparr>)) else None)"
| "queue_exec (SpuriousWake t) q =
     (if t \<in> set (waiting q)
      then Some (q\<lparr>waiting := remove1 t (waiting q), woken := t # woken q\<rparr>) else None)"
| "queue_exec (TryPop t) q =
     (if t \<in> set (waiting q) \<union> set (woken q) then None else Some (snd (try_pop t q)))"

inductive queue_step :: "'a ts_queue \<Rightarrow> 'a ts_queue \<Rightarrow> bool" where
  queue_stepI: "queue_exec l q = Some q' \<Longrightarrow> queue_step q q'"

inductive_cases queue_stepE: "queue_step q q'"

definition queue_inv :: "'a ts_queue \<Rightarrow> bool" where
  "queue_inv q \<longleftrightarrow> pushed q = map snd (popped q) @ data_queue q \<and>
     (waiting q \<noteq> [] \<longrightarrow> length (data_queue q) \<le> length (woken q))"

lemma queue_inv_take: "queue_inv q \<Longrightarrow> queue_inv (take_front t q)"
  by (auto simp: queue_inv_def take_front_def split: list.splits)

lemma queue_inv_exec:
  assumes inv: "queue_inv q" and ex: "queue_exec l q = Some q'"
  shows "queue_inv q'"
proof (cases l)
  case (Push x w)
  with inv ex show ?thesis
    by (auto simp: queue_inv_def queue_push_def data_cond_notify_def split: if_splits)
next
  case (Wakes t)
  then have q': "q' = wait_and_pop t (q\<lparr>woken := remove1 t (woken q)\<rparr>)" and t: "t \<in> set (woken q)"
    using ex by (auto split: if_splits)
  have "length (woken q) = Suc (length (remove1 t (woken q)))"
    using t by (simp add: length_remove1) (metis Suc_pred length_pos_if_in_set)
  then show ?thesis using inv
    by (auto simp: q' queue_inv_def wait_and_pop_def take_front_def split: list.splits)
qed (use inv ex queue_inv_take [of q] in \<open>auto simp: queue_inv_def wait_and_pop_def try_pop_def
    take_front_def split: if_splits list.splits\<close>)

interpretation ts_queue: step_invariant "\<lambda>q. q = new_ts_queue" queue_step queue_inv
proof
  show "q = new_ts_queue \<Longrightarrow> queue_inv q" for q :: "'a ts_queue" by (simp add: queue_inv_def new_ts_queue_def)
  show "queue_inv q \<Longrightarrow> queue_step q q' \<Longrightarrow> queue_inv q'" for q q' :: "'a ts_queue"
    by (blast intro: queue_inv_exec elim: queue_stepE)
qed

text \<open>
  \<open>threadsafe_queue\<close> is a FIFO for any number of producers and consumers: every pushed element is
  popped at most once and in the order of the pushes; and no wake-up is lost: when an element is
  there while consumers are blocked in \<open>wait_and_pop\<close>, a woken one is on its way and takes it.
\<close>

theorem ts_queue_fifo:
  assumes "reachable (\<lambda>q. q = new_ts_queue) queue_step q"
  shows "pushed q = map snd (popped q) @ data_queue q \<and>
     (\<forall>x xs. waiting q \<noteq> [] \<and> data_queue q = x # xs \<longrightarrow>
        (\<exists>t\<in>set (woken q). \<exists>q'. queue_exec (Wakes t) q = Some q' \<and> popped q' = popped q @ [(t, x)] \<and> data_queue q' = xs))"
proof -
  have inv: "queue_inv q" using ts_queue.reachable_inv assms .
  moreover have "\<exists>t\<in>set (woken q). \<exists>q'. queue_exec (Wakes t) q = Some q' \<and> popped q' = popped q @ [(t, x)] \<and>
      data_queue q' = xs" if "waiting q \<noteq> []" "data_queue q = x # xs" for x xs
  proof -
    have "woken q \<noteq> []" using inv that by (auto simp: queue_inv_def)
    then have "hd (woken q) \<in> set (woken q)" by simp
    then show ?thesis using that(2) by (intro bexI [of _ "hd (woken q)"]) (auto simp: wait_and_pop_def take_front_def)
  qed
  ultimately show ?thesis unfolding queue_inv_def by blast
qed

fun queue_run :: "'a queue_label list \<Rightarrow> 'a ts_queue \<Rightarrow> 'a ts_queue option" where
  "queue_run [] q = Some q"
| "queue_run (l # ls) q = (case queue_exec l q of None \<Rightarrow> None | Some q' \<Rightarrow> queue_run ls q')"

lemma queue_run_reach:
  "queue_run ls q = Some q' \<Longrightarrow> reachable (\<lambda>q. q = new_ts_queue) queue_step q \<Longrightarrow>
     reachable (\<lambda>q. q = new_ts_queue) queue_step q'"
proof (induction ls arbitrary: q)
  case (Cons l ls)
  then obtain q1 where "queue_exec l q = Some q1" "queue_run ls q1 = Some q'" by (auto split: option.splits)
  then show ?case using Cons by (blast intro: reach_step queue_stepI)
qed simp

lemma ts_queue_fifo_witness:
  "\<exists>q :: int ts_queue. waiting q = [2] \<and> data_queue q = [8] \<and> woken q = [1] \<and> pushed q = [7, 8] \<and> popped q = [(3, 7)] \<and>
     (\<exists>t\<in>set (woken q). \<exists>q'. queue_exec (Wakes t) q = Some q' \<and> popped q' = popped q @ [(t, 8)] \<and> data_queue q' = [])"
proof -
  let ?q = "\<lparr>data_queue = [8], waiting = [2], woken = [1], pushed = [7, 8], popped = [(3, 7)]\<rparr> :: int ts_queue"
  have run: "queue_run [WaitPop 2, WaitPop 1, Push 7 1, TryPop 3, Wakes 1, Push 8 1] new_ts_queue = Some ?q" by code_simp
  have "reachable (\<lambda>q. q = new_ts_queue) queue_step ?q"
    using queue_run_reach [OF run] by (simp add: reach_init)
  from ts_queue_fifo [OF this] show ?thesis by (intro exI [of _ ?q]) auto
qed

end
