(* ===== verification/TaskPool.thy ===== *)
theory TaskPool
  imports Prelude "HOL-Library.Multiset"
begin

text \<open>
  \<open>ThreadPool\<close> of \<open>example/boost/concurrent/threadpool.h\<close>: \<open>commit\<close>, the loop of the worker threads
  that \<open>start\<close> makes, and \<open>stop\<close>.  The steps are cut where the mutex \<open>cv_mtx_\<close> is taken or given up
  and where an atomic variable is read or written, since \<open>stop\<close> works without the mutex.  \<open>commit\<close> names the type
  \<open>std::packaged_task<RetType>\<close>, which does not compile once \<open>commit\<close> is instantiated; it is modelled with the
  type that is meant, \<open>std::packaged_task<RetType()>\<close>.
\<close>

section \<open>State\<close>

text \<open>
  A worker reads \<open>stop_\<close> (\<open>AtTest\<close>), takes the mutex and evaluates the predicate of \<open>wait\<close>
  (\<open>AtLock\<close>), has found it false and still holds the mutex (\<open>Falling\<close>), sleeps in \<open>wait\<close>
  (\<open>Asleep\<close>), has taken a task (\<open>Took\<close>), runs it (\<open>Runs\<close>), or has returned.
\<close>

datatype worker = AtTest | AtLock | Falling | Asleep | Took nat | Runs nat | Returned

datatype stopper = NotStopping | NotifiesAll | Joins nat | Stopped

text \<open>
  Tasks are numbers.  \<open>passing\<close> holds the tasks of calls of \<open>commit\<close> that have read \<open>stop_\<close> and not
  yet taken the mutex; \<open>notifies\<close> counts calls between the mutex and \<open>notify_one\<close>; \<open>refused\<close> are
  the tasks for which \<open>commit\<close> returned an empty future.  \<open>accepted\<close>, \<open>started\<close> and \<open>done\<close> are
  histories.
\<close>

record pool_sys =
  tasks :: "nat list"
  stop_flag :: bool
  thread_num :: int
  workers :: "worker list"
  stopping :: stopper
  passing :: "nat list"
  notifies :: nat
  refused :: "nat list"
  accepted :: "nat list"
  started :: "nat list"
  finished_tasks :: "nat list"

text \<open>The constructor and \<open>start\<close>; the threads are made before anybody can commit.\<close>

definition new_ThreadPool :: "nat \<Rightarrow> pool_sys" where
  "new_ThreadPool num =
     (let n = (if num < 1 then 1 else num) in
      \<lparr>tasks = [], stop_flag = False, thread_num = int n, workers = replicate n AtTest, stopping = NotStopping,
       passing = [], notifies = 0, refused = [], accepted = [], started = [], finished_tasks = []\<rparr>)"

definition cv_mtx_free :: "pool_sys \<Rightarrow> bool" where
  "cv_mtx_free st \<longleftrightarrow> Falling \<notin> set (workers st)"

definition set_worker :: "nat \<Rightarrow> worker \<Rightarrow> pool_sys \<Rightarrow> pool_sys" where
  "set_worker i w st = st\<lparr>workers := (workers st)[i := w]\<rparr>"

section \<open>Steps\<close>

text \<open>\<open>commit\<close>: the test of \<open>stop_\<close>, the \<open>emplace\<close> under the mutex, and \<open>notify_one\<close>.\<close>

definition commit_test :: "nat \<Rightarrow> pool_sys \<Rightarrow> pool_sys" where
  "commit_test task st =
     (if stop_flag st then st\<lparr>refused := refused st @ [task]\<rparr> else st\<lparr>passing := passing st @ [task]\<rparr>)"

definition commit_emplace :: "nat \<Rightarrow> pool_sys \<Rightarrow> pool_sys" where
  "commit_emplace task st =
     st\<lparr>passing := remove1 task (passing st), tasks := tasks st @ [task],
        accepted := accepted st @ [task], notifies := Suc (notifies st)\<rparr>"

definition pool_notify_one :: "nat \<Rightarrow> pool_sys \<Rightarrow> pool_sys option" where
  "pool_notify_one i st =
     (if Asleep \<notin> set (workers st) then Some st
      else if i < length (workers st) \<and> workers st ! i = Asleep then Some (set_worker i AtLock st) else None)"

text \<open>The predicate of \<open>wait\<close> and, when it holds, the rest of the critical section.\<close>

definition worker_lock :: "nat \<Rightarrow> pool_sys \<Rightarrow> pool_sys" where
  "worker_lock i st =
     (if \<not> (stop_flag st \<or> tasks st \<noteq> []) then set_worker i Falling st
      else case tasks st of
             [] \<Rightarrow> set_worker i Returned st
           | task # rest \<Rightarrow> (set_worker i (Took task) st)\<lparr>tasks := rest, started := started st @ [task]\<rparr>)"

text \<open>The other steps of the loop: none of them needs the mutex.\<close>

definition worker_free :: "nat \<Rightarrow> pool_sys \<Rightarrow> pool_sys option" where
  "worker_free i st =
     (case workers st ! i of
        AtTest \<Rightarrow> Some (set_worker i (if stop_flag st then Returned else AtLock) st)
      | Falling \<Rightarrow> Some (set_worker i Asleep st)
      | Took task \<Rightarrow> Some ((set_worker i (Runs task) st)\<lparr>thread_num := thread_num st - 1\<rparr>)
      | Runs task \<Rightarrow> Some ((set_worker i AtTest st)\<lparr>thread_num := thread_num st + 1,
                          finished_tasks := finished_tasks st @ [task]\<rparr>)
      | _ \<Rightarrow> None)"

text \<open>\<open>stop\<close>: the flag, \<open>notify_all\<close>, and the joins in the order of the vector.\<close>

definition stop_exec :: "pool_sys \<Rightarrow> pool_sys option" where
  "stop_exec st =
     (case stopping st of
        NotStopping \<Rightarrow> Some (st\<lparr>stop_flag := True, stopping := NotifiesAll\<rparr>)
      | NotifiesAll \<Rightarrow> Some (st\<lparr>workers := map (\<lambda>w. if w = Asleep then AtLock else w) (workers st), stopping := Joins 0\<rparr>)
      | Joins k \<Rightarrow> (if k = length (workers st) then Some (st\<lparr>stopping := Stopped\<rparr>)
                    else if workers st ! k = Returned then Some (st\<lparr>stopping := Joins (Suc k)\<rparr>) else None)
      | Stopped \<Rightarrow> None)"

datatype pool_label =
    Commit nat | Emplace nat | NotifyOne nat | LockStep nat | FreeStep nat | WakeUp nat | StopStep

fun pool_exec :: "pool_label \<Rightarrow> pool_sys \<Rightarrow> pool_sys option" where
  "pool_exec (Commit task) st = Some (commit_test task st)"
| "pool_exec (Emplace task) st =
     (if task \<in> set (passing st) \<and> cv_mtx_free st then Some (commit_emplace task st) else None)"
| "pool_exec (NotifyOne i) st =
     (if notifies st > 0 then pool_notify_one i (st\<lparr>notifies := notifies st - 1\<rparr>) else None)"
| "pool_exec (LockStep i) st =
     (if i < length (workers st) \<and> workers st ! i = AtLock \<and> cv_mtx_free st then Some (worker_lock i st) else None)"
| "pool_exec (FreeStep i) st = (if i < length (workers st) then worker_free i st else None)"
| "pool_exec (WakeUp i) st =
     (if i < length (workers st) \<and> workers st ! i = Asleep then Some (set_worker i AtLock st) else None)"
| "pool_exec StopStep st = stop_exec st"

inductive pool_step :: "pool_sys \<Rightarrow> pool_sys \<Rightarrow> bool" where
  pool_stepI: "pool_exec l st = Some st' \<Longrightarrow> pool_step st st'"

inductive_cases pool_stepE: "pool_step st st'"

definition pool_init :: "pool_sys \<Rightarrow> bool" where
  "pool_init st \<longleftrightarrow> (\<exists>num. st = new_ThreadPool num)"

section \<open>Invariants\<close>

fun busy :: "worker \<Rightarrow> bool" where
  "busy (Runs t) \<longleftrightarrow> True"
| "busy w \<longleftrightarrow> False"

fun holding :: "worker \<Rightarrow> nat list" where
  "holding (Took t) = [t]"
| "holding (Runs t) = [t]"
| "holding w = []"

text \<open>
  Tasks leave the queue in the order of their acceptance; a started task is finished or in the
  hands of exactly one worker; \<open>thread_num_\<close> counts the workers that run no task; and an accepted
  task has enough notifications and workers on their way to the mutex while some worker sleeps.
\<close>

definition pool_inv :: "pool_sys \<Rightarrow> bool" where
  "pool_inv st \<longleftrightarrow> accepted st = started st @ tasks st \<and>
     mset (started st) = mset (finished_tasks st) + mset (concat (map holding (workers st))) \<and>
     thread_num st + int (how_many busy (workers st)) = int (length (workers st)) \<and>
     (Falling \<in> set (workers st) \<longrightarrow> tasks st = []) \<and>
     (Asleep \<in> set (workers st) \<longrightarrow> length (tasks st) \<le> notifies st + how_many (\<lambda>w. w = AtLock) (workers st))"

lemma holding_update:
  "i < length ws \<Longrightarrow> mset (concat (map holding (ws[i := w]))) + mset (holding (ws ! i)) =
     mset (concat (map holding ws)) + mset (holding w)"
proof (induction ws arbitrary: i)
  case (Cons v vs)
  show ?case
  proof (cases i)
    case (Suc j)
    then show ?thesis using Cons.IH [of j] Cons.prems by (simp add: add.assoc)
  qed (simp add: ac_simps)
qed simp

lemma pool_inv_worker:
  assumes inv: "pool_inv st" and i: "i < length (workers st)"
    and same: "holding w = holding (workers st ! i)" "busy w = busy (workers st ! i)"
    and fall: "w = Falling \<Longrightarrow> tasks st = []" "w = Asleep \<Longrightarrow> tasks st = []"
    and ready: "workers st ! i = AtLock \<Longrightarrow> tasks st = []"
  shows "pool_inv (set_worker i w st)"
proof -
  have mem: "x \<in> set ((workers st)[i := w]) \<Longrightarrow> x = w \<or> x \<in> set (workers st)" for x
    using set_update_subset_insert by fastforce
  show ?thesis
    using inv i same fall ready mem [of Falling] mem [of Asleep] holding_update [OF i, of w]
      how_many_update [OF i, of busy w] how_many_update [OF i, of "\<lambda>w. w = AtLock" w]
    unfolding pool_inv_def set_worker_def by (auto split: if_splits)
qed

lemma pool_inv_lock:
  assumes inv: "pool_inv st" and i: "i < length (workers st)" "workers st ! i = AtLock"
    and free: "cv_mtx_free st"
  shows "pool_inv (worker_lock i st)"
proof (cases "tasks st")
  case Nil
  then show ?thesis using i by (auto simp: worker_lock_def intro!: pool_inv_worker [OF inv])
next
  case (Cons task rest)
  have mem: "x \<in> set ((workers st)[i := Took task]) \<Longrightarrow> x = Took task \<or> x \<in> set (workers st)" for x
    using set_update_subset_insert by fastforce
  show ?thesis
    using inv i free Cons mem [of Falling] mem [of Asleep] holding_update [OF i(1), of "Took task"]
      how_many_update [OF i(1), of busy "Took task"]
      how_many_update [OF i(1), of "\<lambda>w. w = AtLock" "Took task"]
    unfolding pool_inv_def worker_lock_def set_worker_def cv_mtx_free_def by auto
qed

lemma pool_inv_free:
  assumes inv: "pool_inv st" and i: "i < length (workers st)" and ex: "worker_free i st = Some st'"
  shows "pool_inv st'"
proof -
  have w: "workers st ! i \<in> set (workers st)" using i by simp
  have mem: "x \<in> set ((workers st)[i := v]) \<Longrightarrow> x = v \<or> x \<in> set (workers st)" for x v
    using set_update_subset_insert by fastforce
  show ?thesis
  proof (cases "workers st ! i")
    case AtTest
    then show ?thesis using ex
      by (auto simp: worker_free_def intro!: pool_inv_worker [OF inv i] split: if_splits)
  next
    case Falling
    then have "tasks st = []" using inv w by (simp add: pool_inv_def)
    then show ?thesis using ex Falling by (auto simp: worker_free_def intro!: pool_inv_worker [OF inv i])
  next
    case (Took task)
    then show ?thesis
      using ex inv mem [of Falling "Runs task"] mem [of Asleep "Runs task"] holding_update [OF i, of "Runs task"]
        how_many_update [OF i, of busy "Runs task"] how_many_update [OF i, of "\<lambda>w. w = AtLock" "Runs task"]
      unfolding pool_inv_def worker_free_def set_worker_def by auto
  next
    case (Runs task)
    then show ?thesis
      using ex inv mem [of Falling AtTest] mem [of Asleep AtTest] holding_update [OF i, of AtTest]
        how_many_update [OF i, of busy AtTest] how_many_update [OF i, of "\<lambda>w. w = AtLock" AtTest]
      unfolding pool_inv_def worker_free_def set_worker_def by auto
  qed (use ex in \<open>auto simp: worker_free_def\<close>)
qed

lemma wake_all_holding: "map holding (map (\<lambda>w. if w = Asleep then AtLock else w) ws) = map holding ws"
  by (induction ws) auto

lemma wake_all_busy: "how_many busy (map (\<lambda>w. if w = Asleep then AtLock else w) ws) = how_many busy ws"
  by (induction ws) (auto simp: how_many_def)

lemma pool_inv_stop:
  assumes inv: "pool_inv st" and ex: "stop_exec st = Some st'"
  shows "pool_inv st'"
proof (cases "stopping st")
  case NotifiesAll
  let ?ws = "map (\<lambda>w. if w = Asleep then AtLock else w) (workers st)"
  have "Asleep \<notin> set ?ws" "Falling \<in> set ?ws \<longleftrightarrow> Falling \<in> set (workers st)" by (auto split: if_splits)
  moreover have "st' = st\<lparr>workers := ?ws, stopping := Joins 0\<rparr>" using ex NotifiesAll by (simp add: stop_exec_def)
  ultimately show ?thesis using inv
    by (simp add: pool_inv_def wake_all_busy wake_all_holding del: map_map)
qed (use inv ex in \<open>auto simp: stop_exec_def pool_inv_def split: if_splits\<close>)

lemma pool_inv_exec:
  assumes inv: "pool_inv st" and ex: "pool_exec l st = Some st'"
  shows "pool_inv st'"
proof (cases l)
  case (NotifyOne i)
  then have n: "notifies st > 0" and st': "pool_notify_one i (st\<lparr>notifies := notifies st - 1\<rparr>) = Some st'"
    using ex by (auto split: if_splits)
  show ?thesis
  proof (cases "Asleep \<in> set (workers st)")
    case True
    then have i: "i < length (workers st)" "workers st ! i = Asleep" "st' = set_worker i AtLock (st\<lparr>notifies := notifies st - 1\<rparr>)"
      using st' by (auto simp: pool_notify_one_def split: if_splits)
    have mem: "x \<in> set ((workers st)[i := AtLock]) \<Longrightarrow> x = AtLock \<or> x \<in> set (workers st)" for x
      using set_update_subset_insert by fastforce
    show ?thesis
      using inv i(2,3) True n mem [of Falling] holding_update [OF i(1), of AtLock]
        how_many_update [OF i(1), of busy AtLock] how_many_update [OF i(1), of "\<lambda>w. w = AtLock" AtLock]
      unfolding pool_inv_def set_worker_def by auto
  next
    case False
    then show ?thesis using inv st' by (auto simp: pool_notify_one_def pool_inv_def)
  qed
next
  case (LockStep i)
  then show ?thesis using inv ex pool_inv_lock by (auto split: if_splits)
next
  case (FreeStep i)
  then show ?thesis using inv ex pool_inv_free by (auto split: if_splits)
next
  case (WakeUp i)
  then show ?thesis using ex by (auto split: if_splits intro!: pool_inv_worker [OF inv])
next
  case StopStep
  then show ?thesis using inv ex pool_inv_stop by simp
qed (use inv ex in \<open>auto simp: commit_test_def commit_emplace_def pool_inv_def cv_mtx_free_def split: if_splits\<close>)

interpretation task_pool: step_invariant pool_init pool_step pool_inv
proof
  show "pool_init st \<Longrightarrow> pool_inv st" for st
    by (auto simp: pool_init_def pool_inv_def new_ThreadPool_def Let_def)
  show "pool_inv s \<Longrightarrow> pool_step s t \<Longrightarrow> pool_inv t" for s t
    by (blast intro: pool_inv_exec elim: pool_stepE)
qed

text \<open>The joins: a joined worker has returned, and returned workers stay so.\<close>

definition join_inv :: "pool_sys \<Rightarrow> bool" where
  "join_inv st \<longleftrightarrow> (case stopping st of
     Joins k \<Rightarrow> k \<le> length (workers st) \<and> (\<forall>j<k. workers st ! j = Returned)
   | Stopped \<Rightarrow> (\<forall>j<length (workers st). workers st ! j = Returned)
   | _ \<Rightarrow> True)"

lemma join_inv_worker:
  "join_inv st \<Longrightarrow> workers st ! i \<noteq> Returned \<Longrightarrow> join_inv (set_worker i w st)"
  by (cases "stopping st") (auto simp: join_inv_def set_worker_def, (metis nth_list_update_neq)+)

lemma join_inv_frame:
  "join_inv st \<Longrightarrow> stopping st' = stopping st \<Longrightarrow> workers st' = workers st \<Longrightarrow> join_inv st'"
  by (cases "stopping st") (auto simp: join_inv_def)

lemma join_inv_fields [simp]:
  "join_inv (st\<lparr>tasks := ts, started := ss\<rparr>) = join_inv st"
  "join_inv (st\<lparr>thread_num := n\<rparr>) = join_inv st"
  "join_inv (st\<lparr>thread_num := n, finished_tasks := fs\<rparr>) = join_inv st"
  by (cases "stopping st"; simp add: join_inv_def)+

lemma join_inv_exec:
  assumes inv: "join_inv st" and ex: "pool_exec l st = Some st'"
  shows "join_inv st'"
proof (cases l)
  case (NotifyOne i)
  then have "pool_notify_one i (st\<lparr>notifies := notifies st - 1\<rparr>) = Some st'" using ex by (auto split: if_splits)
  moreover have "join_inv (st\<lparr>notifies := notifies st - 1\<rparr>)" using inv by (auto intro: join_inv_frame)
  ultimately show ?thesis by (auto simp: pool_notify_one_def intro: join_inv_worker split: if_splits)
next
  case (LockStep i)
  then show ?thesis using inv ex join_inv_worker [OF inv, of i]
    by (auto simp: worker_lock_def split: if_splits list.splits intro: join_inv_frame)
next
  case (FreeStep i)
  then show ?thesis using inv ex join_inv_worker [OF inv, of i]
    by (auto simp: worker_free_def split: if_splits worker.splits intro: join_inv_frame)
next
  case StopStep
  then show ?thesis using inv ex
    by (auto simp: stop_exec_def join_inv_def less_Suc_eq split: stopper.splits if_splits)
qed (use inv ex join_inv_worker [OF inv] in \<open>auto simp: commit_test_def commit_emplace_def
    intro: join_inv_frame split: if_splits\<close>)

interpretation pool_joins: step_invariant pool_init pool_step join_inv
proof
  show "pool_init st \<Longrightarrow> join_inv st" for st
    by (auto simp: pool_init_def join_inv_def new_ThreadPool_def Let_def)
  show "join_inv s \<Longrightarrow> pool_step s t \<Longrightarrow> join_inv t" for s t
    by (blast intro: join_inv_exec elim: pool_stepE)
qed

fun pool_run :: "pool_label list \<Rightarrow> pool_sys \<Rightarrow> pool_sys option" where
  "pool_run [] st = Some st"
| "pool_run (l # ls) st = (case pool_exec l st of None \<Rightarrow> None | Some st' \<Rightarrow> pool_run ls st')"

lemma pool_run_reach:
  "pool_run ls st = Some st' \<Longrightarrow> reachable pool_init pool_step st \<Longrightarrow> reachable pool_init pool_step st'"
proof (induction ls arbitrary: st)
  case (Cons l ls)
  then obtain st1 where "pool_exec l st = Some st1" "pool_run ls st1 = Some st'" by (auto split: option.splits)
  then show ?case using Cons by (blast intro: reach_step pool_stepI)
qed simp

lemma pool_start: "reachable pool_init pool_step (new_ThreadPool num)"
  by (rule reach_init) (auto simp: pool_init_def)

section \<open>Properties\<close>

text \<open>
  C21: In every reachable state of the thread pool, under any interleaving of commits (with the task type that is
  meant), workers and \<open>stop\<close>: tasks are started in the order of their acceptance, each once, and a started task is
  finished or with one worker; \<open>thread_num_\<close> is the number of workers not running a task; when a worker sleeps
  while tasks wait, the \<open>notify_one\<close> of a commit is still to come or a worker is at the mutex; and if \<open>stop\<close>
  has returned, every worker has returned and every accepted task is finished or still in the queue.
  (\<open>stop\<close> need not return: \<open>threadpool_stop\<close>.)
\<close>

theorem threadpool_invariant:
  assumes "reachable pool_init pool_step st"
  shows "accepted st = started st @ tasks st \<and>
     mset (started st) = mset (finished_tasks st) + mset (concat (map holding (workers st))) \<and>
     thread_num st = int (how_many (\<lambda>w. \<not> busy w) (workers st)) \<and>
     (Asleep \<in> set (workers st) \<and> tasks st \<noteq> [] \<longrightarrow> notifies st > 0 \<or> AtLock \<in> set (workers st)) \<and>
     (stopping st = Stopped \<longrightarrow> set (workers st) \<subseteq> {Returned} \<and>
        mset (accepted st) = mset (finished_tasks st) + mset (tasks st))"
proof -
  have inv: "pool_inv st" "join_inv st"
    using task_pool.reachable_inv pool_joins.reachable_inv assms by blast+
  have "how_many (\<lambda>w. \<not> busy w) ws + how_many busy ws = length ws" for ws
    by (induction ws) (auto simp: how_many_def)
  from this [of "workers st"] have num: "thread_num st = int (how_many (\<lambda>w. \<not> busy w) (workers st))"
    using inv(1) by (auto simp: pool_inv_def)
  have wake: "notifies st > 0 \<or> AtLock \<in> set (workers st)" if "Asleep \<in> set (workers st)" "tasks st \<noteq> []"
  proof -
    have "0 < length (tasks st)" "length (tasks st) \<le> notifies st + how_many (\<lambda>w. w = AtLock) (workers st)"
      using inv(1) that by (auto simp: pool_inv_def)
    then have "0 < notifies st + how_many (\<lambda>w. w = AtLock) (workers st)" by linarith
    then show ?thesis using how_many_0 [of "\<lambda>w. w = AtLock" "workers st"] by auto
  qed
  have stop: "set (workers st) \<subseteq> {Returned} \<and> mset (accepted st) = mset (finished_tasks st) + mset (tasks st)"
    if "stopping st = Stopped"
  proof -
    have ret: "set (workers st) \<subseteq> {Returned}" using inv(2) that by (auto simp: join_inv_def in_set_conv_nth)
    then have "concat (map holding (workers st)) = []" by auto
    then show ?thesis using ret inv(1) by (auto simp: pool_inv_def)
  qed
  show ?thesis using inv(1) num wake stop by (auto simp: pool_inv_def)
qed

lemma threadpool_invariant_witness:
  "\<exists>st :: pool_sys. stopping st = Stopped \<and> finished_tasks st = [7] \<and> tasks st = [8] \<and> refused st = [9] \<and>
     set (workers st) \<subseteq> {Returned} \<and> mset (accepted st) = mset (finished_tasks st) + mset (tasks st)"
proof -
  let ?ls = "[FreeStep 0, LockStep 0, FreeStep 0, Commit 7, Emplace 7, NotifyOne 0, LockStep 0, FreeStep 0,
     Commit 8, Emplace 8, StopStep, Commit 9, FreeStep 0, StopStep, FreeStep 0, StopStep, StopStep]"
  have "case pool_run ?ls (new_ThreadPool 1) of None \<Rightarrow> False | Some st \<Rightarrow> stopping st = Stopped \<and>
      finished_tasks st = [7] \<and> tasks st = [8] \<and> refused st = [9]" by code_simp
  then obtain st where run: "pool_run ?ls (new_ThreadPool 1) = Some st"
    and st: "stopping st = Stopped" "finished_tasks st = [7]" "tasks st = [8]" "refused st = [9]"
    by (auto split: option.splits)
  show ?thesis using threadpool_invariant [OF pool_run_reach [OF run pool_start]] st by blast
qed

text \<open>A pool whose only worker sleeps while \<open>stop\<close> joins it.\<close>

definition pool_hung :: "pool_sys \<Rightarrow> bool" where
  "pool_hung st \<longleftrightarrow> stop_flag st \<and> stopping st = Joins 0 \<and> workers st = [Asleep] \<and> notifies st = 0 \<and> passing st = []"

lemma pool_hung_stays: "pool_hung st \<Longrightarrow> pool_exec l st = Some st' \<Longrightarrow> (\<forall>i. l \<noteq> WakeUp i) \<Longrightarrow> pool_hung st'"
  by (cases l) (auto simp: pool_hung_def commit_test_def worker_free_def stop_exec_def split: if_splits)

text \<open>
  \<open>stop\<close> sets the flag without the mutex, so it can fall between a worker's test and its sleep:
  then, spurious wake-ups apart, \<open>stop\<close> never returns.  And tasks that are queued when \<open>stop\<close> comes can
  be left for ever: \<open>stop\<close> can return with an accepted task that no worker ever starts.
\<close>

theorem threadpool_stop:
  "(\<exists>st. reachable pool_init pool_step st \<and> pool_hung st \<and>
      \<not> (\<exists>ls st'. pool_run ls st = Some st' \<and> (\<forall>i. WakeUp i \<notin> set ls) \<and> stopping st' = Stopped)) \<and>
   (\<exists>st. reachable pool_init pool_step st \<and> stopping st = Stopped \<and> accepted st = [7] \<and> started st = [])"
proof (intro conjI)
  have hung: "pool_hung st \<Longrightarrow> pool_run ls st = Some st' \<Longrightarrow> \<forall>i. WakeUp i \<notin> set ls \<Longrightarrow> pool_hung st'" for ls st st'
  proof (induction ls arbitrary: st)
    case (Cons l ls)
    then obtain st1 where "pool_exec l st = Some st1" "pool_run ls st1 = Some st'" by (auto split: option.splits)
    then show ?case using Cons pool_hung_stays by (metis list.set_intros)
  qed simp
  let ?hang = "[FreeStep 0, LockStep 0, StopStep, StopStep, FreeStep 0]"
  have "case pool_run ?hang (new_ThreadPool 1) of None \<Rightarrow> False | Some st \<Rightarrow> pool_hung st" by code_simp
  then obtain st where run: "pool_run ?hang (new_ThreadPool 1) = Some st" and st: "pool_hung st"
    by (auto split: option.splits)
  have "stopping st' \<noteq> Stopped" if "pool_run ls st = Some st'" "\<forall>i. WakeUp i \<notin> set ls" for ls st'
    using hung [OF st that] by (simp add: pool_hung_def)
  then show "\<exists>st. reachable pool_init pool_step st \<and> pool_hung st \<and>
      \<not> (\<exists>ls st'. pool_run ls st = Some st' \<and> (\<forall>i. WakeUp i \<notin> set ls) \<and> stopping st' = Stopped)"
    using pool_run_reach [OF run pool_start] st by blast
  let ?drop = "[Commit 7, Emplace 7, StopStep, StopStep, FreeStep 0, StopStep, StopStep]"
  have "case pool_run ?drop (new_ThreadPool 1) of None \<Rightarrow> False
      | Some st \<Rightarrow> stopping st = Stopped \<and> accepted st = [7] \<and> started st = []" by code_simp
  then obtain st2 where run2: "pool_run ?drop (new_ThreadPool 1) = Some st2"
    and "stopping st2 = Stopped \<and> accepted st2 = [7] \<and> started st2 = []" by (auto split: option.splits)
  then show "\<exists>st. reachable pool_init pool_step st \<and> stopping st = Stopped \<and> accepted st = [7] \<and> started st = []"
    using pool_run_reach [OF run2 pool_start] by blast
qed

end
