(* ===== verification/ParallelAccumulate.thy ===== *)
theory ParallelAccumulate
  imports Prelude "HOL-Library.Multiset"
begin

text \<open>
  \<open>parallel_accumulate\<close> of \<open>example/boost/concurrent/example01_thread.cpp\<close>: the range is cut into
  blocks, a thread sums each block into its own element of \<open>results\<close>, and the caller sums the last
  block and then the results.  The element type is any monoid, so its addition need not commute.
\<close>

section \<open>The code\<close>

definition accumulate :: "'a::monoid_add list \<Rightarrow> 'a \<Rightarrow> 'a" where
  "accumulate xs init = foldl (+) init xs"

definition accumulate_block :: "'a::monoid_add list \<Rightarrow> nat \<times> nat \<Rightarrow> 'a \<Rightarrow> 'a" where
  "accumulate_block xs b result = accumulate (take (snd b - fst b) (drop (fst b) xs)) result"

definition min_per_thread :: nat where
  "min_per_thread = 25"

text \<open>\<open>unsigned long\<close> arithmetic wraps at \<open>2 ^ 64\<close>; \<open>hardware_concurrency\<close> may return 0.\<close>

definition num_threads :: "nat \<Rightarrow> nat \<Rightarrow> nat" where
  "num_threads hardware len =
     (let max_threads = ((len + min_per_thread - 1) mod 2 ^ 64) div min_per_thread in
      min (if hardware \<noteq> 0 then hardware else 2) max_threads)"

text \<open>The loop that makes the threads; moving an iterator past the end is undefined.\<close>

fun spawn_blocks :: "nat \<Rightarrow> nat \<Rightarrow> nat \<Rightarrow> nat \<Rightarrow> ((nat \<times> nat) list \<times> nat) cxx" where
  "spawn_blocks len block_size 0 block_start = Ok ([], block_start)"
| "spawn_blocks len block_size (Suc k) block_start =
     (let block_end = block_start + block_size in
      if block_end > len then UB
      else cxx_bind (spawn_blocks len block_size k block_end)
             (\<lambda>(bs, s). Ok ((block_start, block_end) # bs, s)))"

text \<open>The threads run in any order; \<open>order\<close> lists them as they end.\<close>

definition thread_runs :: "'a::monoid_add list \<Rightarrow> (nat \<times> nat) list \<Rightarrow> nat list \<Rightarrow> 'a list \<Rightarrow> 'a list" where
  "thread_runs xs blocks order results =
     foldl (\<lambda>rs i. rs[i := accumulate_block xs (blocks ! i) (rs ! i)]) results order"

definition parallel_accumulate :: "nat \<Rightarrow> nat list \<Rightarrow> 'a::monoid_add list \<Rightarrow> 'a \<Rightarrow> 'a cxx" where
  "parallel_accumulate hardware order xs init =
     (let len = length xs in
      if len = 0 then Ok init
      else let n = num_threads hardware len in
      if n = 0 then UB
      else let block_size = len div n in
      cxx_bind (spawn_blocks len block_size (n - 1) 0) (\<lambda>(blocks, block_start).
        let results = thread_runs xs blocks order (replicate n 0) in
        let results' = results[n - 1 := accumulate_block xs (block_start, len) (results ! (n - 1))] in
        Ok (accumulate results' init)))"

text \<open>The vector of \<open>use_parallel_acc\<close>: it is made with \<open>k\<close> zeros and then grows by \<open>k\<close> elements.\<close>

definition use_parallel_vec :: "nat \<Rightarrow> int list" where
  "use_parallel_vec k = replicate k 0 @ map int [0..<k]"

section \<open>The blocks and the results\<close>

lemma num_threads_pos: "0 < len \<Longrightarrow> len < 2 ^ 63 \<Longrightarrow> 0 < num_threads hardware len"
  by (auto simp: num_threads_def min_per_thread_def div_greater_zero_iff)

lemma num_threads_le: "len < 2 ^ 63 \<Longrightarrow> num_threads hardware len \<le> len"
  by (auto simp: num_threads_def min_per_thread_def Let_def min.coboundedI2)

lemma spawn_blocks_eq:
  "s + k * b \<le> len \<Longrightarrow> spawn_blocks len b k s = Ok (map (\<lambda>i. (s + i * b, s + Suc i * b)) [0..<k], s + k * b)"
proof (induction k arbitrary: s)
  case (Suc k)
  have "spawn_blocks len b k (s + b) = Ok (map (\<lambda>i. (s + b + i * b, s + b + Suc i * b)) [0..<k], s + b + k * b)"
    using Suc by (simp add: algebra_simps)
  then show ?case using Suc.prems
    by (simp add: cxx_simps Let_def map_upt_Suc algebra_simps del: upt_Suc)
qed simp

lemma accumulate_sum: "accumulate xs init = init + sum_list xs"
  unfolding accumulate_def by (induction xs arbitrary: init) (auto simp: add.assoc)

text \<open>Every thread writes its own result once, so the order does not matter.\<close>

lemma thread_runs_nth:
  assumes "distinct order" "set order \<subseteq> {..<length results}" "j < length results"
  shows "thread_runs xs bs order results ! j =
      (if j \<in> set order then accumulate_block xs (bs ! j) (results ! j) else results ! j) \<and>
    length (thread_runs xs bs order results) = length results"
  using assms
proof (induction order arbitrary: results)
  case Nil
  then show ?case by (simp add: thread_runs_def)
next
  case (Cons i order)
  let ?rs = "results[i := accumulate_block xs (bs ! i) (results ! i)]"
  have "thread_runs xs bs (i # order) results = thread_runs xs bs order ?rs" by (simp add: thread_runs_def)
  then show ?case using Cons.IH [of ?rs] Cons.prems by (auto simp: nth_list_update)
qed

lemma sum_blocks:
  "k * b \<le> length xs \<Longrightarrow>
     sum_list (map (\<lambda>i. sum_list (take b (drop (i * b) xs))) [0..<k]) = sum_list (take (k * b) (xs :: 'a::monoid_add list))"
proof (induction k)
  case (Suc k)
  have "take (Suc k * b) xs = take (k * b) xs @ take b (drop (k * b) xs)"
    using take_add [of "k * b" b xs] by (simp add: add.commute)
  then show ?case using Suc by simp
qed simp

text \<open>
  C22: \<open>parallel_accumulate\<close> returns the sequential sum, for every number of cores (0 included), every
  length and every order in which the threads run; no iterator passes the end of the range and no
  division is by 0.
\<close>

theorem parallel_accumulate_correct:
  fixes xs :: "'a::monoid_add list"
  assumes len: "length xs < 2 ^ 63"
    and order: "mset order = mset [0..<num_threads hardware (length xs) - 1]"
  shows "parallel_accumulate hardware order xs init = Ok (accumulate xs init)"
proof (cases "xs = []")
  case False
  define n where "n = num_threads hardware (length xs)"
  define b where "b = length xs div n"
  define bs where "bs = map (\<lambda>i. (i * b, Suc i * b)) [0..<n - 1]"
  have n: "0 < n" "n \<le> length xs" using num_threads_pos num_threads_le len False by (auto simp: n_def)
  have le: "(n - 1) * b \<le> length xs"
  proof -
    have "(n - 1) * b \<le> n * b" by simp
    also have "\<dots> \<le> length xs" by (simp add: b_def)
    finally show ?thesis .
  qed
  have spawn: "spawn_blocks (length xs) b (n - 1) 0 = Ok (bs, (n - 1) * b)"
    using spawn_blocks_eq [of 0 "n - 1" b "length xs"] le by (simp add: bs_def)
  have ord: "distinct order" "set order = {..<n - 1}"
  proof -
    show "distinct order" using mset_eq_imp_distinct_iff [OF order] by simp
    show "set order = {..<n - 1}" using mset_eq_setD [OF order]
      by (simp only: n_def set_upt atLeast0LessThan)
  qed
  define rs where "rs = thread_runs xs bs order (replicate n 0)"
  have rs: "length rs = n" "j < n \<Longrightarrow> rs ! j = (if j < n - 1 then accumulate_block xs (bs ! j) 0 else 0)" for j
  proof -
    have sub: "set order \<subseteq> {..<length (replicate n (0 :: 'a))}" using ord(2) by auto
    note t = thread_runs_nth [OF ord(1) sub, where xs = xs and bs = bs, folded rs_def]
    show "length rs = n" using t [of 0] n(1) by simp
    show "rs ! j = (if j < n - 1 then accumulate_block xs (bs ! j) 0 else 0)" if "j < n"
      using t [of j] that ord(2) by (simp add: lessThan_iff)
  qed
  have blk: "j < n - 1 \<Longrightarrow> rs ! j = sum_list (take b (drop (j * b) xs))" for j
    using rs(2) [of j] by (simp add: bs_def accumulate_block_def accumulate_sum)
  let ?last = "accumulate_block xs ((n - 1) * b, length xs) (rs ! (n - 1))"
  have last: "?last = sum_list (drop ((n - 1) * b) xs)"
    using rs(2) [of "n - 1"] n by (simp add: accumulate_block_def accumulate_sum)
  have "rs[n - 1 := ?last] = map (\<lambda>i. sum_list (take b (drop (i * b) xs))) [0..<n - 1] @ [?last]"
    using rs(1) n by (intro nth_equalityI) (auto simp: blk nth_append nth_list_update)
  then have "sum_list (rs[n - 1 := ?last]) = sum_list (take ((n - 1) * b) xs) + sum_list (drop ((n - 1) * b) xs)"
    using sum_blocks [OF le] last by simp
  also have "\<dots> = sum_list xs" using sum_list_append [of "take ((n - 1) * b) xs" "drop ((n - 1) * b) xs"] by simp
  finally show ?thesis using False n spawn
    unfolding parallel_accumulate_def Let_def n_def [symmetric] b_def [symmetric]
    by (simp add: cxx_simps accumulate_sum flip: rs_def)
next
  case True
  then show ?thesis by (simp add: parallel_accumulate_def accumulate_def)
qed

lemma parallel_accumulate_correct_witness:
  "parallel_accumulate 8 [2, 0, 1] (use_parallel_vec 50) 0 = Ok (accumulate (use_parallel_vec 50) 0) \<and>
   num_threads 8 100 = 4 \<and> accumulate (use_parallel_vec 50) 0 = 1225"
proof (intro conjI)
  have n: "num_threads 8 100 = 4" by (simp add: num_threads_def min_per_thread_def)
  then show "num_threads 8 100 = 4" .
  have len: "length (use_parallel_vec 50) = 100" by (simp add: use_parallel_vec_def)
  have "mset [2, 0, 1] = mset [0..<num_threads 8 (length (use_parallel_vec 50)) - 1]"
    by (simp add: len n upt_rec)
  then show "parallel_accumulate 8 [2, 0, 1] (use_parallel_vec 50) 0 = Ok (accumulate (use_parallel_vec 50) 0)"
    by (intro parallel_accumulate_correct) (simp_all add: len)
  show "accumulate (use_parallel_vec 50) 0 = 1225" by code_simp
qed

end
