(* ===== verification/PingPong.thy ===== *)
theory PingPong
  imports Prelude
begin

text \<open>
  Two threads that print 1 and 2 in turn, from \<open>example/boost/concurrent/example05_condition_variable.cpp\<close>:
  \<open>PoorImplemention\<close> polls \<open>num\<close> under a mutex, \<open>ResonableImplemention\<close> waits on two condition
  variables for \<open>num2\<close>.  \<open>A\<close> prints 1 and \<open>B\<close> prints 2; the record keeps what was printed.
\<close>

datatype player = A | B

fun other :: "player \<Rightarrow> player" where
  "other A = B"
| "other B = A"

text \<open>The value of \<open>num\<close> for which it is a player's turn, which is also what the player prints.\<close>

fun turn_of :: "player \<Rightarrow> int" where
  "turn_of A = 1"
| "turn_of B = 2"

lemma turn_of_eq [simp]: "turn_of p = turn_of q \<longleftrightarrow> p = q"
  by (cases p; cases q) auto

lemma other_other [simp]: "other (other p) = p" "other p \<noteq> p" "p \<noteq> other p"
  by (cases p; simp)+

text \<open>\<open>num++\<close> by \<open>A\<close>, \<open>num--\<close> by \<open>B\<close>.\<close>

fun pass_turn :: "player \<Rightarrow> int \<Rightarrow> int" where
  "pass_turn A n = n + 1"
| "pass_turn B n = n - 1"

lemma pass_turn_turn [simp]: "pass_turn p (turn_of p) = turn_of (other p)"
  by (cases p) auto

section \<open>Polling\<close>

text \<open>One pass of a thread's loop up to its sleep.\<close>

fun poor_step :: "player \<Rightarrow> int \<times> int list \<Rightarrow> int \<times> int list" where
  "poor_step p (n, out) = (if n = turn_of p then (pass_turn p n, out @ [turn_of p]) else (n, out))"

definition PoorImplemention :: "player list \<Rightarrow> int \<times> int list" where
  "PoorImplemention ps = foldl (\<lambda>st p. poor_step p st) (1, []) ps"

section \<open>Condition variables\<close>

text \<open>
  A thread is about to lock \<open>mtx_num2\<close>, is blocked in \<open>wait\<close>, or sleeps at the end of its loop with
  the mutex still held, since the lock lives until the end of the body.
\<close>

datatype turn_pc = Locking | Blocked | Napping

record turn_sys =
  num2 :: int
  turn_pcs :: "player \<Rightarrow> turn_pc"
  printed :: "int list"

definition new_turns :: turn_sys where
  "new_turns = \<lparr>num2 = 1, turn_pcs = (\<lambda>_. Locking), printed = []\<rparr>"

definition set_pc :: "player \<Rightarrow> turn_pc \<Rightarrow> turn_sys \<Rightarrow> turn_sys" where
  "set_pc p c st = st\<lparr>turn_pcs := (turn_pcs st)(p := c)\<rparr>"

definition cv_notify :: "player \<Rightarrow> turn_sys \<Rightarrow> turn_sys" where
  "cv_notify p st = (if turn_pcs st p = Blocked then set_pc p Locking st else st)"

text \<open>The mutex taken: test, and wait, or change \<open>num2\<close>, print and notify the other thread.\<close>

definition take_turn :: "player \<Rightarrow> turn_sys \<Rightarrow> turn_sys" where
  "take_turn p st =
     (if num2 st \<noteq> turn_of p then set_pc p Blocked st
      else cv_notify (other p) (set_pc p Napping
        (st\<lparr>num2 := pass_turn p (num2 st), printed := printed st @ [turn_of p]\<rparr>)))"

datatype turn_label = TakesLock player | NapOver player | WakesUp player

fun turn_exec :: "turn_label \<Rightarrow> turn_sys \<Rightarrow> turn_sys option" where
  "turn_exec (TakesLock p) st =
     (if turn_pcs st p = Locking \<and> turn_pcs st (other p) \<noteq> Napping then Some (take_turn p st) else None)"
| "turn_exec (NapOver p) st = (if turn_pcs st p = Napping then Some (set_pc p Locking st) else None)"
| "turn_exec (WakesUp p) st = (if turn_pcs st p = Blocked then Some (set_pc p Locking st) else None)"

inductive turn_step :: "turn_sys \<Rightarrow> turn_sys \<Rightarrow> bool" where
  turn_stepI: "turn_exec l st = Some st' \<Longrightarrow> turn_step st st'"

inductive_cases turn_stepE: "turn_step st st'"

section \<open>Alternation\<close>

text \<open>The player whose turn it is after \<open>n\<close> prints, and the first \<open>n\<close> prints.\<close>

definition mover :: "nat \<Rightarrow> player" where
  "mover n = (if even n then A else B)"

definition alternating :: "nat \<Rightarrow> int list" where
  "alternating n = map (\<lambda>i. if even i then 1 else 2) [0..<n]"

lemma mover_Suc [simp]: "mover (Suc n) = other (mover n)" "mover 0 = A"
  by (auto simp: mover_def)

lemma alternating_Suc [simp]: "alternating (Suc n) = alternating n @ [turn_of (mover n)]" "alternating 0 = []"
  by (auto simp: alternating_def mover_def)

lemma length_alternating [simp]: "length (alternating n) = n"
  by (simp add: alternating_def)

definition turn_inv :: "turn_sys \<Rightarrow> bool" where
  "turn_inv st \<longleftrightarrow> (\<exists>n. printed st = alternating n \<and> num2 st = turn_of (mover n) \<and>
     (\<forall>p. turn_pcs st p = Blocked \<longrightarrow> mover n = other p))"

lemma other_neq: "p \<noteq> q \<Longrightarrow> p = other q"
  by (cases p; cases q) auto

lemma turn_inv_take:
  assumes "turn_inv st"
  shows "turn_inv (take_turn p st)"
proof -
  obtain n where n: "printed st = alternating n" "num2 st = turn_of (mover n)"
    and b: "\<And>q. turn_pcs st q = Blocked \<Longrightarrow> mover n = other q" using assms by (auto simp: turn_inv_def)
  show ?thesis
  proof (cases "mover n = p")
    case True
    have "turn_pcs (take_turn p st) q \<noteq> Blocked" for q
      using True n(2) other_neq [of q p]
      by (cases "q = p") (auto simp: take_turn_def cv_notify_def set_pc_def)
    moreover have "printed (take_turn p st) = alternating (Suc n)" "num2 (take_turn p st) = turn_of (mover (Suc n))"
      using True n by (auto simp: take_turn_def cv_notify_def set_pc_def)
    ultimately show ?thesis unfolding turn_inv_def by blast
  next
    case False
    then show ?thesis using n b other_neq [OF False] unfolding turn_inv_def
      by (intro exI [of _ n]) (auto simp: take_turn_def set_pc_def)
  qed
qed

interpretation turns: step_invariant "\<lambda>st. st = new_turns" turn_step turn_inv
proof
  show "st = new_turns \<Longrightarrow> turn_inv st" for st by (auto simp: turn_inv_def new_turns_def intro: exI [of _ 0])
  have pc: "turn_inv s \<Longrightarrow> c \<noteq> Blocked \<Longrightarrow> turn_inv (set_pc p c s)" for s p c
    by (auto simp: turn_inv_def set_pc_def)
  have "turn_exec l s = Some t \<Longrightarrow> turn_inv s \<Longrightarrow> turn_inv t" for l s t
    by (cases l) (auto intro: turn_inv_take pc split: if_splits)
  then show "turn_inv s \<Longrightarrow> turn_step s t \<Longrightarrow> turn_inv t" for s t
    by (blast elim: turn_stepE)
qed

text \<open>
  Both implementations print 1 and 2 strictly in turn, whatever the scheduling; and in
  \<open>ResonableImplemention\<close> no notification is lost: some thread can always go on without a spurious
  wake-up.
\<close>

theorem turns_alternate:
  assumes "reachable (\<lambda>st. st = new_turns) turn_step st"
  shows "printed st = alternating (length (printed st)) \<and>
     (\<exists>p st'. turn_exec (TakesLock p) st = Some st' \<or> turn_exec (NapOver p) st = Some st') \<and>
     snd (PoorImplemention ps) = alternating (length (snd (PoorImplemention ps)))"
proof -
  have inv: "turn_inv st" using turns.reachable_inv assms .
  have go: "\<exists>p st'. turn_exec (TakesLock p) st = Some st' \<or> turn_exec (NapOver p) st = Some st'"
  proof (cases "\<exists>p. turn_pcs st p = Napping")
    case False
    have "\<not> (turn_pcs st A = Blocked \<and> turn_pcs st B = Blocked)"
      using inv unfolding turn_inv_def by (metis other.simps player.distinct(1))
    then obtain p where "turn_pcs st p = Locking" using False by (metis turn_pc.exhaust)
    then have "\<exists>st'. turn_exec (TakesLock p) st = Some st'" using False by auto
    then show ?thesis by blast
  qed auto
  have poor: "out = alternating (length out) \<and> n = turn_of (mover (length out)) \<Longrightarrow>
      (case foldl (\<lambda>st p. poor_step p st) (n, out) ps of (m, out') \<Rightarrow>
        out' = alternating (length out'))" for n out
  proof (induction ps arbitrary: n out)
    case (Cons p ps)
    show ?case
    proof (cases "n = turn_of p")
      case True
      then have m: "mover (length out) = p" using Cons.prems by simp
      have "out @ [turn_of p] = alternating (length (out @ [turn_of p]))"
        using m Cons.prems by simp
      then show ?thesis using Cons.IH [of "out @ [turn_of p]" "turn_of (other p)"] True m by simp
    qed (use Cons in simp)
  qed auto
  have "snd (PoorImplemention ps) = alternating (length (snd (PoorImplemention ps)))"
    using poor [of "[]" 1] by (simp add: PoorImplemention_def case_prod_unfold)
  then show ?thesis using inv go by (auto simp: turn_inv_def)
qed

lemma turns_alternate_witness:
  "\<exists>st :: turn_sys. printed st = [1, 2, 1] \<and>
     (\<exists>p st'. turn_exec (TakesLock p) st = Some st' \<or> turn_exec (NapOver p) st = Some st') \<and>
     snd (PoorImplemention [B, A, A, B, A]) = [1, 2, 1]"
proof -
  let ?ex = "\<lambda>o1 l. case o1 of None \<Rightarrow> None | Some st \<Rightarrow> turn_exec l st"
  have step: "reachable (\<lambda>st. st = new_turns) turn_step s \<Longrightarrow> turn_exec l s = Some t \<Longrightarrow>
      reachable (\<lambda>st. st = new_turns) turn_step t" for s l t by (blast intro: reach_step turn_stepI)
  have run: "foldl ?ex (Some s) ls = Some t \<Longrightarrow> reachable (\<lambda>st. st = new_turns) turn_step s \<Longrightarrow>
      reachable (\<lambda>st. st = new_turns) turn_step t" for s ls t
  proof (induction ls arbitrary: s)
    case (Cons l ls)
    have none: "foldl ?ex None ls = None" for ls by (induction ls) auto
    obtain s1 where "turn_exec l s = Some s1" using Cons.prems(1) none by (cases "turn_exec l s") auto
    then show ?case using Cons step by auto
  qed simp
  let ?ls = "[TakesLock B, TakesLock A, NapOver A, TakesLock A, TakesLock B, NapOver B, TakesLock A]"
  have "case foldl ?ex (Some new_turns) ?ls of None \<Rightarrow> False | Some st \<Rightarrow> printed st = [1, 2, 1]"
    by (simp add: new_turns_def take_turn_def set_pc_def cv_notify_def)
  then obtain st where "foldl ?ex (Some new_turns) ?ls = Some st" and out: "printed st = [1, 2, 1]"
    by (auto split: option.splits)
  then have "reachable (\<lambda>st. st = new_turns) turn_step st" by (blast intro: run reach_init)
  from turns_alternate [OF this, of "[B, A, A, B, A]"] out show ?thesis
    by (intro exI [of _ st]) (simp add: PoorImplemention_def)
qed

end
