(* ===== verification/ProdCons.thy ===== *)
theory ProdCons
  imports Prelude
begin

text \<open>
  The producer and consumer programs over Posix semaphores, \<open>prodcons1.cpp\<close> to \<open>prodcons4.cpp\<close> of
  \<open>example/unix_network/example/pxsem\<close>.  Producers put the items 0, 1, 2, ... into a circular
  buffer of \<open>NBUFF\<close> slots, consumers check them.  The programs differ in where the threads test
  for the end, which the record \<open>variant\<close> says.
\<close>

definition NBUFF :: nat where
  "NBUFF = 10"

section \<open>State\<close>

text \<open>
  A program counter names the call that is next: waits and posts on the three semaphores, the
  body of the critical region, and the way out.
\<close>

datatype producer_pc =
    PWaitEmpty | PWaitMutex | PRegion | PPostMutex | PPostStored
  | PLeaveStored | PLeaveEmpty | PLeaveMutex | PEnd

datatype consumer_pc =
    CWaitStored | CWaitMutex | CRegion | CPostMutex | CPostEmpty
  | CLeaveStored | CLeaveMutex | CEnd

text \<open>
  \<open>test_put\<close>, \<open>test_get\<close>: the loop itself counts to \<open>nitems\<close>, as a single producer or consumer can;
  otherwise the test is in the critical region.  \<open>wake_consumers\<close>: a producer that leaves posts
  \<open>nstored\<close> once more.
\<close>

record variant =
  test_put :: bool
  test_get :: bool
  wake_consumers :: bool

definition prodcons2 :: variant where
  "prodcons2 = \<lparr>test_put = True, test_get = True, wake_consumers = False\<rparr>"

definition prodcons3 :: variant where
  "prodcons3 = \<lparr>test_put = False, test_get = True, wake_consumers = False\<rparr>"

definition prodcons4 :: variant where
  "prodcons4 = \<lparr>test_put = False, test_get = False, wake_consumers = True\<rparr>"

text \<open>
  \<open>fetched\<close> is what the consumers read from the buffer, in order; \<open>complaints\<close> the values for which
  a consumer printed an error.
\<close>

record shared =
  buff :: "nat list"
  mutex :: nat
  nempty :: nat
  nstored :: nat
  nput :: nat
  nputval :: nat
  nget :: nat
  ngetval :: nat
  producers :: "producer_pc list"
  consumers :: "consumer_pc list"
  fetched :: "nat list"
  complaints :: "nat list"

definition new_shared :: "nat \<Rightarrow> nat \<Rightarrow> shared" where
  "new_shared nproducers nconsumers =
     \<lparr>buff = replicate NBUFF 0, mutex = 1, nempty = NBUFF, nstored = 0, nput = 0, nputval = 0, nget = 0,
      ngetval = 0, producers = replicate nproducers PWaitEmpty, consumers = replicate nconsumers CWaitStored,
      fetched = [], complaints = []\<rparr>"

section \<open>Steps\<close>

abbreviation prod_at :: "nat \<Rightarrow> producer_pc \<Rightarrow> shared \<Rightarrow> shared" where
  "prod_at i pc st \<equiv> st\<lparr>producers := (producers st)[i := pc]\<rparr>"

abbreviation cons_at :: "nat \<Rightarrow> consumer_pc \<Rightarrow> shared \<Rightarrow> shared" where
  "cons_at i pc st \<equiv> st\<lparr>consumers := (consumers st)[i := pc]\<rparr>"

text \<open>The critical region of a producer: the test, or the store.\<close>

definition put_item :: "variant \<Rightarrow> nat \<Rightarrow> nat \<Rightarrow> shared \<Rightarrow> shared" where
  "put_item v nitems i st =
     (if \<not> test_put v \<and> nput st \<ge> nitems
      then prod_at i (if wake_consumers v then PLeaveStored else PLeaveEmpty) st
      else prod_at i PPostMutex
        (st\<lparr>buff := (buff st)[nput st mod NBUFF := nputval st],
            nput := nput st + 1, nputval := nputval st + 1\<rparr>))"

definition get_item :: "variant \<Rightarrow> nat \<Rightarrow> nat \<Rightarrow> shared \<Rightarrow> shared" where
  "get_item v nitems i st =
     (if \<not> test_get v \<and> nget st \<ge> nitems then cons_at i CLeaveStored st
      else let x = buff st ! (nget st mod NBUFF) in
        cons_at i CPostMutex
          (st\<lparr>fetched := fetched st @ [x],
              complaints := complaints st @ (if x \<noteq> ngetval st then [x] else []),
              nget := nget st + 1, ngetval := ngetval st + 1\<rparr>))"

definition produce :: "variant \<Rightarrow> nat \<Rightarrow> nat \<Rightarrow> shared \<Rightarrow> shared option" where
  "produce v nitems i st =
     (case producers st ! i of
        PWaitEmpty \<Rightarrow>
          if test_put v \<and> nput st \<ge> nitems then Some (prod_at i PEnd st)
          else if nempty st > 0 then Some (prod_at i PWaitMutex (st\<lparr>nempty := nempty st - 1\<rparr>)) else None
      | PWaitMutex \<Rightarrow> if mutex st > 0 then Some (prod_at i PRegion (st\<lparr>mutex := mutex st - 1\<rparr>)) else None
      | PRegion \<Rightarrow> Some (put_item v nitems i st)
      | PPostMutex \<Rightarrow> Some (prod_at i PPostStored (st\<lparr>mutex := mutex st + 1\<rparr>))
      | PPostStored \<Rightarrow> Some (prod_at i PWaitEmpty (st\<lparr>nstored := nstored st + 1\<rparr>))
      | PLeaveStored \<Rightarrow> Some (prod_at i PLeaveEmpty (st\<lparr>nstored := nstored st + 1\<rparr>))
      | PLeaveEmpty \<Rightarrow> Some (prod_at i PLeaveMutex (st\<lparr>nempty := nempty st + 1\<rparr>))
      | PLeaveMutex \<Rightarrow> Some (prod_at i PEnd (st\<lparr>mutex := mutex st + 1\<rparr>))
      | PEnd \<Rightarrow> None)"

definition consume :: "variant \<Rightarrow> nat \<Rightarrow> nat \<Rightarrow> shared \<Rightarrow> shared option" where
  "consume v nitems i st =
     (case consumers st ! i of
        CWaitStored \<Rightarrow>
          if test_get v \<and> nget st \<ge> nitems then Some (cons_at i CEnd st)
          else if nstored st > 0 then Some (cons_at i CWaitMutex (st\<lparr>nstored := nstored st - 1\<rparr>)) else None
      | CWaitMutex \<Rightarrow> if mutex st > 0 then Some (cons_at i CRegion (st\<lparr>mutex := mutex st - 1\<rparr>)) else None
      | CRegion \<Rightarrow> Some (get_item v nitems i st)
      | CPostMutex \<Rightarrow> Some (cons_at i CPostEmpty (st\<lparr>mutex := mutex st + 1\<rparr>))
      | CPostEmpty \<Rightarrow> Some (cons_at i CWaitStored (st\<lparr>nempty := nempty st + 1\<rparr>))
      | CLeaveStored \<Rightarrow> Some (cons_at i CLeaveMutex (st\<lparr>nstored := nstored st + 1\<rparr>))
      | CLeaveMutex \<Rightarrow> Some (cons_at i CEnd (st\<lparr>mutex := mutex st + 1\<rparr>))
      | CEnd \<Rightarrow> None)"

datatype prodcons_label = Produce nat | Consume nat

fun prodcons_exec :: "variant \<Rightarrow> nat \<Rightarrow> prodcons_label \<Rightarrow> shared \<Rightarrow> shared option" where
  "prodcons_exec v nitems (Produce i) st = (if i < length (producers st) then produce v nitems i st else None)"
| "prodcons_exec v nitems (Consume i) st = (if i < length (consumers st) then consume v nitems i st else None)"

inductive prodcons_step :: "variant \<Rightarrow> nat \<Rightarrow> shared \<Rightarrow> shared \<Rightarrow> bool" for v nitems where
  prodcons_stepI: "prodcons_exec v nitems l st = Some st' \<Longrightarrow> prodcons_step v nitems st st'"

inductive_cases prodcons_stepE: "prodcons_step v nitems st st'"

section \<open>What the threads hold\<close>

definition p_locked :: "producer_pc \<Rightarrow> bool" where
  "p_locked pc \<longleftrightarrow> pc \<in> {PRegion, PPostMutex, PLeaveStored, PLeaveEmpty, PLeaveMutex}"

definition c_locked :: "consumer_pc \<Rightarrow> bool" where
  "c_locked pc \<longleftrightarrow> pc \<in> {CRegion, CPostMutex, CLeaveStored, CLeaveMutex}"

text \<open>An empty slot taken and not yet filled, and a filled one not yet announced.\<close>

definition p_slot :: "producer_pc \<Rightarrow> bool" where
  "p_slot pc \<longleftrightarrow> pc \<in> {PWaitMutex, PRegion, PLeaveStored, PLeaveEmpty}"

definition p_unannounced :: "producer_pc \<Rightarrow> bool" where
  "p_unannounced pc \<longleftrightarrow> pc \<in> {PPostMutex, PPostStored}"

definition c_token :: "consumer_pc \<Rightarrow> bool" where
  "c_token pc \<longleftrightarrow> pc \<in> {CWaitMutex, CRegion, CLeaveStored}"

definition c_unannounced :: "consumer_pc \<Rightarrow> bool" where
  "c_unannounced pc \<longleftrightarrow> pc \<in> {CPostMutex, CPostEmpty}"

definition p_left :: "producer_pc \<Rightarrow> bool" where
  "p_left pc \<longleftrightarrow> pc \<in> {PLeaveStored, PLeaveEmpty, PLeaveMutex, PEnd}"

definition p_woke :: "producer_pc \<Rightarrow> bool" where
  "p_woke pc \<longleftrightarrow> pc \<in> {PLeaveEmpty, PLeaveMutex, PEnd}"

definition p_waking :: "producer_pc \<Rightarrow> bool" where
  "p_waking pc \<longleftrightarrow> pc = PLeaveStored"

definition c_left :: "consumer_pc \<Rightarrow> bool" where
  "c_left pc \<longleftrightarrow> pc \<in> {CLeaveStored, CLeaveMutex, CEnd}"

lemmas pc_classes = p_locked_def c_locked_def p_slot_def p_unannounced_def c_token_def c_unannounced_def
  p_left_def p_woke_def p_waking_def c_left_def

text \<open>The programs use the loop test only with a single thread of the kind.\<close>

definition variant_ok :: "variant \<Rightarrow> nat \<Rightarrow> nat \<Rightarrow> bool" where
  "variant_ok v np nc \<longleftrightarrow> 0 < np \<and> 0 < nc \<and> (test_put v \<longrightarrow> np = 1) \<and> (test_get v \<longrightarrow> nc = 1) \<and>
     (wake_consumers v \<longleftrightarrow> \<not> test_get v) \<and> (test_put v \<longrightarrow> \<not> wake_consumers v)"

text \<open>The balance of each semaphore, the progress of the counters, and the buffer between them.\<close>

definition balance :: "variant \<Rightarrow> shared \<Rightarrow> bool" where
  "balance v st \<longleftrightarrow>
     mutex st + how_many p_locked (producers st) + how_many c_locked (consumers st) = 1 \<and>
     nempty st + how_many p_slot (producers st) + how_many c_unannounced (consumers st) + nput st = NBUFF + nget st \<and>
     nstored st + how_many c_token (consumers st) + how_many p_unannounced (producers st) + nget st =
       nput st + (if wake_consumers v then how_many p_woke (producers st) else 0)"

definition counters :: "nat \<Rightarrow> shared \<Rightarrow> bool" where
  "counters nitems st \<longleftrightarrow> nget st \<le> nput st \<and> nput st \<le> nitems \<and> nputval st = nput st \<and> ngetval st = nget st \<and>
     (0 < how_many p_left (producers st) \<longrightarrow> nput st = nitems) \<and>
     (0 < how_many c_left (consumers st) \<longrightarrow> nget st = nitems)"

definition contents :: "shared \<Rightarrow> bool" where
  "contents st \<longleftrightarrow> length (buff st) = NBUFF \<and> (\<forall>k. nget st \<le> k \<and> k < nput st \<longrightarrow> buff st ! (k mod NBUFF) = k) \<and>
     fetched st = [0..<nget st] \<and> complaints st = []"

text \<open>With a loop test the single thread of its kind only goes on while items are left.\<close>

definition loop_tests :: "variant \<Rightarrow> nat \<Rightarrow> shared \<Rightarrow> bool" where
  "loop_tests v nitems st \<longleftrightarrow>
     (test_put v \<and> 0 < how_many p_slot (producers st) \<longrightarrow> nput st < nitems) \<and>
     (test_get v \<and> 0 < how_many c_token (consumers st) \<longrightarrow> nget st < nitems) \<and>
     (0 < how_many p_waking (producers st) \<longrightarrow> wake_consumers v)"

definition prodcons_inv :: "variant \<Rightarrow> nat \<Rightarrow> shared \<Rightarrow> bool" where
  "prodcons_inv v nitems st \<longleftrightarrow> variant_ok v (length (producers st)) (length (consumers st)) \<and>
     balance v st \<and> counters nitems st \<and> contents st \<and> loop_tests v nitems st"

lemma how_many_le: "how_many P xs \<le> length xs"
  by (simp add: how_many_def)

lemma how_many_disjoint:
  "(\<And>x. \<not> (P x \<and> Q x)) \<Longrightarrow> how_many P xs + how_many Q xs \<le> length xs"
  by (induction xs) (auto simp: how_many_def)

lemma how_many_mono: "(\<And>x. P x \<Longrightarrow> Q x) \<Longrightarrow> how_many P xs \<le> how_many Q xs"
  by (induction xs) (auto simp: how_many_def)

lemma how_many_mid: "how_many P (as @ y # bs) = how_many P (as @ bs) + (if P y then 1 else 0)"
  by (simp add: how_many_def)

lemma how_many_rest_update:
  "i < length xs \<Longrightarrow> how_many P (xs[i := x]) = how_many P (take i xs @ drop (Suc i) xs) + (if P x then 1 else 0)"
  by (simp only: upd_conv_take_nth_drop how_many_mid)

lemma how_many_rest:
  assumes "i < length xs"
  shows "how_many P xs = how_many P (take i xs @ drop (Suc i) xs) + (if P (xs ! i) then 1 else 0)"
  using how_many_rest_update [OF assms, of P "xs ! i"] by simp

lemma producer_moves:
  assumes i: "i < length (producers st)" and old: "producers st ! i = pc"
    and bal: "balance v st" "counters nitems st" "loop_tests v nitems st"
      "variant_ok v (length (producers st)) (length (consumers st))"
    and ex: "produce v nitems i st = Some st'"
  shows "balance v st' \<and> counters nitems st' \<and> loop_tests v nitems st'"
proof -
  define r where "r = take i (producers st) @ drop (Suc i) (producers st)"
  have r: "how_many P ((producers st)[i := x]) = how_many P r + (if P x then 1 else 0)"
    "how_many P (producers st) = how_many P r + (if P pc then 1 else 0)" for P x
    unfolding r_def old [symmetric] by (rule how_many_rest_update [OF i], rule how_many_rest [OF i])
  note b = bal [unfolded balance_def counters_def loop_tests_def variant_ok_def r(2)]
  show ?thesis
  proof (cases pc)
    case PWaitEmpty
    show ?thesis
    proof (cases "test_put v \<and> nitems \<le> nput st")
      case True
      then have "st' = prod_at i PEnd st" using ex old PWaitEmpty by (simp add: produce_def)
      moreover have "\<not> wake_consumers v" "nput st = nitems"
        using True bal(2,4) by (auto simp: variant_ok_def counters_def)
      ultimately show ?thesis using b True unfolding PWaitEmpty
        by (simp add: balance_def counters_def loop_tests_def r(1) pc_classes)
    next
      case False
      then have "st' = prod_at i PWaitMutex (st\<lparr>nempty := nempty st - 1\<rparr>)" "nempty st > 0"
        using ex old PWaitEmpty by (simp_all add: produce_def split: if_splits)
      moreover have "test_put v \<longrightarrow> nput st < nitems" using False by auto
      ultimately show ?thesis using b unfolding PWaitEmpty
        by (simp add: balance_def counters_def loop_tests_def r(1) pc_classes)
    qed
  next
    case PWaitMutex
    have "st' = prod_at i PRegion (st\<lparr>mutex := mutex st - 1\<rparr>)" "mutex st > 0"
      using ex old PWaitMutex by (simp_all add: produce_def split: if_splits)
    then show ?thesis using b unfolding PWaitMutex
      by (simp add: balance_def counters_def loop_tests_def r(1) pc_classes)
  next
    case PRegion
    show ?thesis
    proof (cases "\<not> test_put v \<and> nitems \<le> nput st")
      case True
      then have "st' = prod_at i (if wake_consumers v then PLeaveStored else PLeaveEmpty) st"
        using ex old PRegion by (simp add: produce_def put_item_def)
      then show ?thesis using True b unfolding PRegion
        by (cases "wake_consumers v") (auto simp: balance_def counters_def loop_tests_def r(1) pc_classes)
    next
      case False
      then have lt: "nput st < nitems" using b unfolding PRegion by (auto simp: p_slot_def)
      then have "st' = prod_at i PPostMutex (st\<lparr>buff := (buff st)[nput st mod NBUFF := nputval st],
          nput := nput st + 1, nputval := nputval st + 1\<rparr>)"
        using ex old PRegion by (simp add: produce_def put_item_def)
      moreover have "how_many p_left r = 0" using b lt by (cases "how_many p_left r") auto
      moreover have "how_many p_slot r = 0" if "test_put v"
        using that bal(4) i by (auto simp: variant_ok_def r_def)
      ultimately show ?thesis using b lt unfolding PRegion
        by (cases "how_many p_slot r"; cases "test_put v"; cases "wake_consumers v")
          (auto simp: balance_def counters_def loop_tests_def r(1) pc_classes)
    qed
  next
    case PPostMutex
    have "st' = prod_at i PPostStored (st\<lparr>mutex := mutex st + 1\<rparr>)"
      using ex old PPostMutex by (simp add: produce_def)
    then show ?thesis using b unfolding PPostMutex
      by (simp add: balance_def counters_def loop_tests_def r(1) pc_classes)
  next
    case PPostStored
    have "st' = prod_at i PWaitEmpty (st\<lparr>nstored := nstored st + 1\<rparr>)"
      using ex old PPostStored by (simp add: produce_def)
    then show ?thesis using b unfolding PPostStored
      by (simp add: balance_def counters_def loop_tests_def r(1) pc_classes)
  next
    case PLeaveStored
    have "st' = prod_at i PLeaveEmpty (st\<lparr>nstored := nstored st + 1\<rparr>)"
      using ex old PLeaveStored by (simp add: produce_def)
    then show ?thesis using b unfolding PLeaveStored
      by (simp add: balance_def counters_def loop_tests_def r(1) pc_classes)
  next
    case PLeaveEmpty
    have "st' = prod_at i PLeaveMutex (st\<lparr>nempty := nempty st + 1\<rparr>)"
      using ex old PLeaveEmpty by (simp add: produce_def)
    then show ?thesis using b unfolding PLeaveEmpty
      by (simp add: balance_def counters_def loop_tests_def r(1) pc_classes)
  next
    case PLeaveMutex
    have "st' = prod_at i PEnd (st\<lparr>mutex := mutex st + 1\<rparr>)"
      using ex old PLeaveMutex by (simp add: produce_def)
    then show ?thesis using b unfolding PLeaveMutex
      by (simp add: balance_def counters_def loop_tests_def r(1) pc_classes)
  qed (use ex old in \<open>auto simp: produce_def\<close>)
qed

lemma consumer_moves:
  assumes i: "i < length (consumers st)" and old: "consumers st ! i = pc"
    and bal: "balance v st" "counters nitems st" "loop_tests v nitems st"
      "variant_ok v (length (producers st)) (length (consumers st))"
    and ex: "consume v nitems i st = Some st'"
  shows "balance v st' \<and> counters nitems st' \<and> loop_tests v nitems st' \<and>
     (pc = CRegion \<and> (test_get v \<or> nget st < nitems) \<longrightarrow> nget st < nput st)"
proof -
  define r where "r = take i (consumers st) @ drop (Suc i) (consumers st)"
  have r: "how_many P ((consumers st)[i := x]) = how_many P r + (if P x then 1 else 0)"
    "how_many P (consumers st) = how_many P r + (if P pc then 1 else 0)" for P x
    unfolding r_def old [symmetric] by (rule how_many_rest_update [OF i], rule how_many_rest [OF i])
  note b = bal [unfolded balance_def counters_def loop_tests_def variant_ok_def r(2)]
  show ?thesis
  proof (cases pc)
    case CWaitStored
    show ?thesis
    proof (cases "test_get v \<and> nitems \<le> nget st")
      case True
      then have "st' = cons_at i CEnd st" using ex old CWaitStored by (simp add: consume_def)
      moreover have "nget st = nitems" using True bal(2) by (auto simp: counters_def)
      ultimately show ?thesis using b True unfolding CWaitStored
        by (simp add: balance_def counters_def loop_tests_def r(1) pc_classes)
    next
      case False
      then have "st' = cons_at i CWaitMutex (st\<lparr>nstored := nstored st - 1\<rparr>)" "nstored st > 0"
        using ex old CWaitStored by (simp_all add: consume_def split: if_splits)
      moreover have "test_get v \<longrightarrow> nget st < nitems" using False by auto
      ultimately show ?thesis using b unfolding CWaitStored
        by (simp add: balance_def counters_def loop_tests_def r(1) pc_classes)
    qed
  next
    case CWaitMutex
    have "st' = cons_at i CRegion (st\<lparr>mutex := mutex st - 1\<rparr>)" "mutex st > 0"
      using ex old CWaitMutex by (simp_all add: consume_def split: if_splits)
    then show ?thesis using b unfolding CWaitMutex
      by (simp add: balance_def counters_def loop_tests_def r(1) pc_classes)
  next
    case CRegion
    show ?thesis
    proof (cases "\<not> test_get v \<and> nitems \<le> nget st")
      case True
      then have "st' = cons_at i CLeaveStored st"
        using ex old CRegion by (simp add: consume_def get_item_def)
      then show ?thesis using True b unfolding CRegion
        by (auto simp: balance_def counters_def loop_tests_def r(1) pc_classes)
    next
      case False
      then have lt: "nget st < nitems" using b unfolding CRegion by (auto simp: c_token_def)
      have "how_many p_woke (producers st) \<le> how_many p_left (producers st)"
        by (rule how_many_mono) (auto simp: pc_classes)
      then have put: "nget st < nput st" using b lt unfolding CRegion
        by (cases "how_many p_left (producers st)") (auto simp: pc_classes split: if_splits)
      have "st' = cons_at i CPostMutex (st\<lparr>fetched := fetched st @ [buff st ! (nget st mod NBUFF)],
          complaints := complaints st @ (if buff st ! (nget st mod NBUFF) \<noteq> ngetval st then [buff st ! (nget st mod NBUFF)] else []),
          nget := nget st + 1, ngetval := ngetval st + 1\<rparr>)"
        using ex old CRegion False by (simp add: consume_def get_item_def Let_def)
      moreover have "how_many c_left r = 0" using b lt by (cases "how_many c_left r") auto
      moreover have "how_many c_token r = 0" if "test_get v"
        using that bal(4) i by (auto simp: variant_ok_def r_def)
      ultimately show ?thesis using b lt put unfolding CRegion
        by (cases "how_many c_token r"; cases "test_get v")
          (auto simp: balance_def counters_def loop_tests_def r(1) pc_classes)
    qed
  next
    case CPostMutex
    have "st' = cons_at i CPostEmpty (st\<lparr>mutex := mutex st + 1\<rparr>)"
      using ex old CPostMutex by (simp add: consume_def)
    then show ?thesis using b unfolding CPostMutex
      by (simp add: balance_def counters_def loop_tests_def r(1) pc_classes)
  next
    case CPostEmpty
    have "st' = cons_at i CWaitStored (st\<lparr>nempty := nempty st + 1\<rparr>)"
      using ex old CPostEmpty by (simp add: consume_def)
    then show ?thesis using b unfolding CPostEmpty
      by (simp add: balance_def counters_def loop_tests_def r(1) pc_classes)
  next
    case CLeaveStored
    have "st' = cons_at i CLeaveMutex (st\<lparr>nstored := nstored st + 1\<rparr>)"
      using ex old CLeaveStored by (simp add: consume_def)
    then show ?thesis using b unfolding CLeaveStored
      by (simp add: balance_def counters_def loop_tests_def r(1) pc_classes)
  next
    case CLeaveMutex
    have "st' = cons_at i CEnd (st\<lparr>mutex := mutex st + 1\<rparr>)"
      using ex old CLeaveMutex by (simp add: consume_def)
    then show ?thesis using b unfolding CLeaveMutex
      by (simp add: balance_def counters_def loop_tests_def r(1) pc_classes)
  qed (use ex old in \<open>auto simp: consume_def\<close>)
qed

section \<open>The invariant\<close>

lemma mod_neq_window: "k < p \<Longrightarrow> p < N + k \<Longrightarrow> k mod N \<noteq> p mod (N::nat)"
proof
  assume a: "k < p" "p < N + k" "k mod N = p mod N"
  then have "(p - k) mod N = 0" by (metis less_imp_le mod_eq_dvd_iff_nat dvd_imp_mod_0)
  then show False using a by simp
qed

lemma contents_put:
  assumes c: "contents st" and n: "counters nitems st" and room: "nput st < NBUFF + nget st"
  shows "contents (put_item v nitems i st)"
proof -
  have len: "length (buff st) = NBUFF" and N: "0 < NBUFF" using c by (simp_all add: contents_def NBUFF_def)
  have "(buff st)[nput st mod NBUFF := nput st] ! (k mod NBUFF) = k" if "nget st \<le> k" "k < Suc (nput st)" for k
  proof (cases "k = nput st")
    case False
    then have "k mod NBUFF \<noteq> nput st mod NBUFF" using that room by (intro mod_neq_window) auto
    then show ?thesis using that False c by (simp add: contents_def)
  qed (simp add: len N)
  then show ?thesis using c n by (auto simp: contents_def put_item_def counters_def)
qed

lemma contents_get:
  assumes c: "contents st" and n: "counters nitems st" and there: "nget st < nput st"
  shows "contents (get_item v nitems i st)"
proof -
  have "buff st ! (nget st mod NBUFF) = nget st" using c there by (simp add: contents_def)
  then show ?thesis using c n by (auto simp: contents_def get_item_def counters_def Let_def)
qed

lemma contents_frame:
  "contents st \<Longrightarrow> buff st' = buff st \<Longrightarrow> nput st' = nput st \<Longrightarrow> nget st' = nget st \<Longrightarrow>
     fetched st' = fetched st \<Longrightarrow> complaints st' = complaints st \<Longrightarrow> contents st'"
  by (simp add: contents_def)

lemma produce_other:
  "produce v nitems i st = Some st' \<Longrightarrow> producers st ! i \<noteq> PRegion \<Longrightarrow> contents st \<Longrightarrow> contents st'"
  by (cases "producers st ! i") (auto simp: produce_def split: if_splits elim: contents_frame)

lemma consume_other:
  "consume v nitems i st = Some st' \<Longrightarrow> consumers st ! i \<noteq> CRegion \<Longrightarrow> contents st \<Longrightarrow> contents st'"
  by (cases "consumers st ! i") (auto simp: consume_def split: if_splits elim: contents_frame)

lemma produce_threads:
  "produce v nitems i st = Some st' \<Longrightarrow> length (producers st') = length (producers st) \<and> consumers st' = consumers st"
  by (cases "producers st ! i") (auto simp: produce_def put_item_def split: if_splits)

lemma consume_threads:
  "consume v nitems i st = Some st' \<Longrightarrow> length (consumers st') = length (consumers st) \<and> producers st' = producers st"
  by (cases "consumers st ! i") (auto simp: consume_def get_item_def Let_def split: if_splits)

lemma prodcons_inv_step:
  assumes inv: "prodcons_inv v nitems st" and ex: "prodcons_exec v nitems l st = Some st'"
  shows "prodcons_inv v nitems st'"
proof -
  note [simp] = prodcons_inv_def
  show ?thesis
  proof (cases l)
    case (Produce i)
    then have i: "i < length (producers st)" and p: "produce v nitems i st = Some st'"
      using ex by (auto split: if_splits)
    have "contents st'"
    proof (cases "producers st ! i = PRegion")
      case True
      then have "0 < how_many p_slot (producers st)"
        using how_many_pos [OF nth_mem [OF i], of p_slot] by (simp add: p_slot_def)
      then have "nput st < NBUFF + nget st" using inv unfolding prodcons_inv_def balance_def by linarith
      then have "contents (put_item v nitems i st)" using inv contents_put [of st nitems v i] by simp
      moreover have "st' = put_item v nitems i st" using p True by (simp add: produce_def)
      ultimately show ?thesis by simp
    qed (use inv produce_other [OF p] in auto)
    then show ?thesis using producer_moves [OF i refl _ _ _ _ p] produce_threads [OF p] inv by simp
  next
    case (Consume i)
    then have i: "i < length (consumers st)" and p: "consume v nitems i st = Some st'"
      using ex by (auto split: if_splits)
    have moves: "balance v st' \<and> counters nitems st' \<and> loop_tests v nitems st' \<and>
        (consumers st ! i = CRegion \<and> (test_get v \<or> nget st < nitems) \<longrightarrow> nget st < nput st)"
      using consumer_moves [OF i refl _ _ _ _ p] inv by simp
    have "contents st'"
    proof (cases "consumers st ! i = CRegion")
      case True
      then have st': "st' = get_item v nitems i st" using p by (simp add: consume_def)
      show ?thesis
      proof (cases "\<not> test_get v \<and> nitems \<le> nget st")
        case True
        then show ?thesis using inv contents_frame [of st st'] by (simp add: st' get_item_def)
      next
        case False
        then have "nget st < nput st" using moves True by auto
        then show ?thesis using inv contents_get [of st nitems v i] st' by simp
      qed
    qed (use inv consume_other [OF p] in auto)
    then show ?thesis using moves consume_threads [OF p] inv by simp
  qed
qed

text \<open>The programs, with the numbers of threads each of them makes.\<close>

definition program_ok :: "variant \<Rightarrow> nat \<Rightarrow> nat \<Rightarrow> bool" where
  "program_ok v np nc \<longleftrightarrow> v = prodcons2 \<and> np = 1 \<and> nc = 1 \<or> v = prodcons3 \<and> 0 < np \<and> nc = 1 \<or>
     v = prodcons4 \<and> 0 < np \<and> 0 < nc"

lemma program_variant: "program_ok v np nc \<Longrightarrow> variant_ok v np nc"
  by (auto simp: program_ok_def variant_ok_def prodcons2_def prodcons3_def prodcons4_def)

lemma prodcons_inv_start: "program_ok v np nc \<Longrightarrow> prodcons_inv v nitems (new_shared np nc)"
  by (auto dest: program_variant
      simp: prodcons_inv_def new_shared_def balance_def counters_def contents_def loop_tests_def pc_classes)

interpretation prodcons: step_invariant
  "\<lambda>st. \<exists>np nc. program_ok v np nc \<and> st = new_shared np nc" "prodcons_step v nitems" "prodcons_inv v nitems"
  for v nitems
proof
  show "\<exists>np nc. program_ok v np nc \<and> st = new_shared np nc \<Longrightarrow> prodcons_inv v nitems st" for st
    using prodcons_inv_start by auto
  show "prodcons_inv v nitems s \<Longrightarrow> prodcons_step v nitems s t \<Longrightarrow> prodcons_inv v nitems t" for s t
    by (blast intro: prodcons_inv_step elim: prodcons_stepE)
qed

section \<open>Progress\<close>

definition all_ended :: "shared \<Rightarrow> bool" where
  "all_ended st \<longleftrightarrow> list_all (\<lambda>pc. pc = PEnd) (producers st) \<and> list_all (\<lambda>pc. pc = CEnd) (consumers st)"

lemma producer_stuck:
  "produce v nitems i st = None \<Longrightarrow> producers st ! i = PEnd \<or>
     producers st ! i = PWaitEmpty \<and> nempty st = 0 \<or> producers st ! i = PWaitMutex \<and> mutex st = 0"
  by (cases "producers st ! i") (auto simp: produce_def split: if_splits)

lemma consumer_stuck:
  "consume v nitems i st = None \<Longrightarrow> consumers st ! i = CEnd \<or>
     consumers st ! i = CWaitStored \<and> nstored st = 0 \<and> \<not> (test_get v \<and> nitems \<le> nget st) \<or>
     consumers st ! i = CWaitMutex \<and> mutex st = 0"
  by (cases "consumers st ! i") (auto simp: consume_def split: if_splits)

text \<open>When no thread can move, all of them have ended: there is no deadlock.\<close>

lemma stuck_all_ended:
  assumes inv: "prodcons_inv v nitems st" and stuck: "\<And>l. prodcons_exec v nitems l st = None"
  shows "all_ended st"
proof -
  have ps: "pc = PEnd \<or> pc = PWaitEmpty \<and> nempty st = 0 \<or> pc = PWaitMutex \<and> mutex st = 0"
    if "pc \<in> set (producers st)" for pc
    using that stuck [of "Produce _"] producer_stuck by (metis in_set_conv_nth prodcons_exec.simps(1))
  have cs: "pc = CEnd \<or> pc = CWaitStored \<and> nstored st = 0 \<and> \<not> (test_get v \<and> nitems \<le> nget st) \<or>
      pc = CWaitMutex \<and> mutex st = 0" if "pc \<in> set (consumers st)" for pc
    using that stuck [of "Consume _"] consumer_stuck by (metis in_set_conv_nth prodcons_exec.simps(2))
  have bal: "balance v st" and cnt: "counters nitems st" and ok: "variant_ok v (length (producers st)) (length (consumers st))"
    using inv by (auto simp: prodcons_inv_def)
  have "how_many p_locked (producers st) = 0" "how_many c_locked (consumers st) = 0"
    using ps cs by (auto simp: how_many_0 pc_classes)
  then have mutex: "mutex st = 1" using bal by (simp add: balance_def)
  have zero: "how_many p_slot (producers st) = 0" "how_many p_unannounced (producers st) = 0"
    "how_many c_token (consumers st) = 0" "how_many c_unannounced (consumers st) = 0"
    using ps cs mutex by (auto simp: how_many_0 pc_classes)
  have wok: "how_many p_woke (producers st) = how_many p_left (producers st)"
    unfolding how_many_def using ps mutex by (intro arg_cong [where f = length] filter_cong) (auto simp: pc_classes)
  define p0 c0 where "p0 = hd (producers st)" and "c0 = hd (consumers st)"
  then have p0: "p0 \<in> set (producers st)" and c0: "c0 \<in> set (consumers st)"
    using ok by (auto simp: variant_ok_def)
  have cend: "pc = CEnd" if pc: "pc \<in> set (consumers st)" for pc
  proof (rule ccontr)
    assume "pc \<noteq> CEnd"
    then have w: "nstored st = 0" "\<not> (test_get v \<and> nitems \<le> nget st)" using cs [OF pc] mutex by auto
    then have eq: "nput st + (if wake_consumers v then how_many p_woke (producers st) else 0) = nget st"
      using bal zero by (simp add: balance_def)
    show False
    proof (cases "p0 = PEnd")
      case True
      then have left: "0 < how_many p_left (producers st)" using how_many_pos [OF p0, of p_left] by (simp add: pc_classes)
      then have "nput st = nitems" using cnt by (simp add: counters_def)
      then show False using eq w(2) wok left ok cnt by (auto simp: variant_ok_def counters_def split: if_splits)
    next
      case False
      then have "nempty st = 0" using ps [OF p0] mutex by auto
      then show False using bal zero eq cnt by (auto simp: balance_def counters_def NBUFF_def)
    qed
  qed
  then have "0 < how_many c_left (consumers st)" using how_many_pos [OF c0, of c_left] c0 by (auto simp: pc_classes)
  then have get: "nget st = nitems" using cnt by (simp add: counters_def)
  have "pc = PEnd" if pc: "pc \<in> set (producers st)" for pc
  proof (rule ccontr)
    assume "pc \<noteq> PEnd"
    then have "nempty st = 0" using ps [OF pc] mutex by auto
    then show False using bal zero get cnt by (auto simp: balance_def counters_def NBUFF_def)
  qed
  then show ?thesis using cend by (simp add: all_ended_def list_all_iff)
qed

text \<open>Steps a thread has left in its round, and the rounds that are left.\<close>

fun p_rank :: "producer_pc \<Rightarrow> nat" where
  "p_rank PEnd = 0"
| "p_rank PLeaveMutex = 1"
| "p_rank PLeaveEmpty = 2"
| "p_rank PLeaveStored = 3"
| "p_rank PRegion = 4"
| "p_rank PWaitMutex = 5"
| "p_rank PWaitEmpty = 6"
| "p_rank PPostStored = 7"
| "p_rank PPostMutex = 8"

fun c_rank :: "consumer_pc \<Rightarrow> nat" where
  "c_rank CEnd = 0"
| "c_rank CLeaveMutex = 1"
| "c_rank CLeaveStored = 2"
| "c_rank CRegion = 3"
| "c_rank CWaitMutex = 4"
| "c_rank CWaitStored = 5"
| "c_rank CPostEmpty = 6"
| "c_rank CPostMutex = 7"

definition work_left :: "nat \<Rightarrow> shared \<Rightarrow> nat" where
  "work_left nitems st = 5 * (nitems - nput st) + 5 * (nitems - nget st) +
     sum_list (map p_rank (producers st)) + sum_list (map c_rank (consumers st))"

lemma rank_update:
  fixes f :: "'a \<Rightarrow> nat"
  shows "i < length xs \<Longrightarrow> sum_list (map f (xs[i := x])) + f (xs ! i) = sum_list (map f xs) + f x"
proof (induction xs arbitrary: i)
  case (Cons y ys)
  show ?case
  proof (cases i)
    case (Suc j)
    then show ?thesis using Cons.IH [of j] Cons.prems by simp
  qed simp
qed simp

lemma rank_drop:
  fixes f :: "'a \<Rightarrow> nat"
  shows "i < length xs \<Longrightarrow> f x < f (xs ! i) \<Longrightarrow> sum_list (map f (xs[i := x])) < sum_list (map f xs)"
  using rank_update [of i xs f x] by linarith

lemma rank_rise:
  fixes f :: "'a \<Rightarrow> nat"
  shows "i < length xs \<Longrightarrow> f x = f (xs ! i) + 4 \<Longrightarrow> sum_list (map f (xs[i := x])) = sum_list (map f xs) + 4"
  using rank_update [of i xs f x] by linarith

lemma work_left_produce:
  assumes i: "i < length (producers st)" and p: "produce v nitems i st = Some st'" and n: "nput st' \<le> nitems"
  shows "work_left nitems st' < work_left nitems st"
  using p n i
  by (cases "producers st ! i")
    (auto simp: produce_def put_item_def work_left_def rank_drop rank_rise split: if_splits)

lemma work_left_consume:
  assumes i: "i < length (consumers st)" and p: "consume v nitems i st = Some st'" and n: "nget st' \<le> nitems"
  shows "work_left nitems st' < work_left nitems st"
  using p n i
  by (cases "consumers st ! i")
    (auto simp: consume_def get_item_def Let_def work_left_def rank_drop rank_rise split: if_splits)

lemma work_left_step:
  assumes inv: "prodcons_inv v nitems st" and ex: "prodcons_exec v nitems l st = Some st'"
  shows "work_left nitems st' < work_left nitems st"
proof -
  have "nput st' \<le> nitems" "nget st' \<le> nitems"
    using prodcons_inv_step [OF inv ex] by (auto simp: prodcons_inv_def counters_def)
  then show ?thesis using ex work_left_produce work_left_consume by (cases l) (auto split: if_splits)
qed

fun prodcons_run :: "variant \<Rightarrow> nat \<Rightarrow> prodcons_label list \<Rightarrow> shared \<Rightarrow> shared option" where
  "prodcons_run v nitems [] st = Some st"
| "prodcons_run v nitems (l # ls) st =
     (case prodcons_exec v nitems l st of None \<Rightarrow> None | Some st' \<Rightarrow> prodcons_run v nitems ls st')"

lemma prodcons_run_bound:
  "prodcons_inv v nitems st \<Longrightarrow> prodcons_run v nitems ls st = Some st' \<Longrightarrow>
     prodcons_inv v nitems st' \<and> length ls + work_left nitems st' \<le> work_left nitems st"
proof (induction ls arbitrary: st)
  case (Cons l ls)
  then obtain st1 where s: "prodcons_exec v nitems l st = Some st1" "prodcons_run v nitems ls st1 = Some st'"
    by (auto split: option.splits)
  show ?case
    using Cons.IH [OF prodcons_inv_step [OF Cons.prems(1) s(1)] s(2)] work_left_step [OF Cons.prems(1) s(1)] by simp
qed simp

section \<open>Properties\<close>

text \<open>
  C23: In \<open>prodcons1\<close> to \<open>prodcons4\<close>, for every number of threads the program makes and every
  interleaving: the consumers read exactly the items 0, 1, 2, ... in order and never complain; there
  are never more than \<open>NBUFF\<close> items in the buffer nor more than \<open>nitems\<close> put; and at most one thread
  is in a critical region.
\<close>

theorem prodcons_items:
  assumes "reachable (\<lambda>st. \<exists>np nc. program_ok v np nc \<and> st = new_shared np nc) (prodcons_step v nitems) st"
  shows "fetched st = [0..<nget st] \<and> complaints st = [] \<and> nget st \<le> nput st \<and> nput st \<le> NBUFF + nget st \<and>
     nput st \<le> nitems \<and> how_many p_locked (producers st) + how_many c_locked (consumers st) \<le> 1"
proof -
  have inv: "prodcons_inv v nitems st" using prodcons.reachable_inv assms by blast
  have "nput st \<le> NBUFF + nget st" "how_many p_locked (producers st) + how_many c_locked (consumers st) \<le> 1"
    using inv unfolding prodcons_inv_def balance_def by linarith+
  then show ?thesis using inv by (auto simp: prodcons_inv_def contents_def counters_def)
qed

text \<open>Two producers and two consumers of one item, run to the end.\<close>

definition prodcons4_schedule :: "prodcons_label list" where
  "prodcons4_schedule = concat (map (\<lambda>(l, k). replicate k l)
     [(Produce 0, 5), (Consume 1, 5), (Produce 1, 6), (Consume 0, 5), (Produce 0, 6), (Consume 1, 5)])"

lemma prodcons4_run:
  "case prodcons_run prodcons4 1 prodcons4_schedule (new_shared 2 2) of None \<Rightarrow> False
   | Some st \<Rightarrow> nget st = 1 \<and> all_ended st"
  by code_simp

lemma prodcons_run_reach:
  "prodcons_run v nitems ls st = Some st' \<Longrightarrow> reachable init (prodcons_step v nitems) st \<Longrightarrow>
     reachable init (prodcons_step v nitems) st'"
proof (induction ls arbitrary: st)
  case (Cons l ls)
  then obtain st1 where s: "prodcons_exec v nitems l st = Some st1" "prodcons_run v nitems ls st1 = Some st'"
    by (auto split: option.splits)
  then show ?case using Cons by (blast intro: reach_step prodcons_stepI)
qed simp

lemma prodcons_items_witness: "\<exists>st. fetched st = [0] \<and> complaints st = [] \<and> all_ended st"
proof -
  obtain st where run: "prodcons_run prodcons4 1 prodcons4_schedule (new_shared 2 2) = Some st"
    and st: "nget st = 1" "all_ended st" using prodcons4_run by (auto split: option.splits)
  have "\<exists>np nc. program_ok prodcons4 np nc \<and> new_shared 2 2 = new_shared np nc"
    by (intro exI [of _ 2]) (simp add: program_ok_def)
  then have "reachable (\<lambda>st. \<exists>np nc. program_ok prodcons4 np nc \<and> st = new_shared np nc) (prodcons_step prodcons4 1) st"
    by (intro prodcons_run_reach [OF run] reach_init)
  from prodcons_items [OF this] st show ?thesis by (intro exI [of _ st]) simp
qed

text \<open>
  C24: Every run of these programs ends, after at most six steps per producer, five per consumer and
  ten per item, and it cannot end early: a state in which no thread can move is one in which every
  thread has returned and all items were read, in order.
\<close>

theorem prodcons_terminates:
  assumes "program_ok v np nc" and "prodcons_run v nitems ls (new_shared np nc) = Some st"
  shows "length ls \<le> 6 * np + 5 * nc + 10 * nitems \<and>
     ((\<forall>l. prodcons_exec v nitems l st = None) \<longrightarrow> all_ended st \<and> fetched st = [0..<nitems])"
proof -
  have inv: "prodcons_inv v nitems st" and len: "length ls \<le> work_left nitems (new_shared np nc)"
    using prodcons_run_bound [OF prodcons_inv_start [OF assms(1)] assms(2)] by auto
  have "work_left nitems (new_shared np nc) = 6 * np + 5 * nc + 10 * nitems"
    by (simp add: work_left_def new_shared_def map_replicate_const sum_list_replicate)
  moreover have "fetched st = [0..<nitems]" if "all_ended st"
  proof -
    have "consumers st \<noteq> []" "\<forall>pc\<in>set (consumers st). pc = CEnd"
      using inv that by (auto simp: prodcons_inv_def variant_ok_def all_ended_def list_all_iff)
    then have "0 < how_many c_left (consumers st)"
      by (cases "consumers st") (auto simp: how_many_def c_left_def)
    then show ?thesis using inv by (simp add: prodcons_inv_def counters_def contents_def)
  qed
  ultimately show ?thesis using len stuck_all_ended [OF inv] by auto
qed

lemma prodcons_terminates_witness:
  "length prodcons4_schedule \<le> 6 * 2 + 5 * 2 + 10 * 1 \<and> program_ok prodcons4 2 2"
proof -
  obtain st where run: "prodcons_run prodcons4 1 prodcons4_schedule (new_shared 2 2) = Some st"
    using prodcons4_run by (auto split: option.splits)
  have ok: "program_ok prodcons4 2 2" by (simp add: program_ok_def)
  from prodcons_terminates [OF ok run] ok show ?thesis by simp
qed

end
