(* ===== verification/PxSemaphore.thy ===== *)
theory PxSemaphore
  imports Prelude
begin

text \<open>
  Posix semaphores built on other things, \<open>example/unix_network/example/my_pxsem_mmap\<close> (a mutex, a
  condition variable and a count in a mapped file) and \<open>my_pxsem_fifo\<close> (bytes in a FIFO): their
  \<open>post\<close>, \<open>wait\<close>, \<open>trywait\<close>, \<open>getvalue\<close>, \<open>close\<close>.  A call either returns or fails with an
  \<open>errno\<close>; a call that blocks is a step that is not possible, or a wait in a list.
\<close>

datatype errno = EINVAL | EAGAIN | EEXIST | ENOENT | ETIMEDOUT | Errno int

datatype 'a sys_result = Ret 'a | Fail errno

section \<open>The contract of a counting semaphore\<close>

datatype sem_op = SemPost | SemTake

fun sem_run :: "('s \<Rightarrow> 's option) \<Rightarrow> ('s \<Rightarrow> 's option) \<Rightarrow> sem_op list \<Rightarrow> 's \<Rightarrow> 's option" where
  "sem_run post take_one [] s = Some s"
| "sem_run post take_one (SemPost # ops) s =
     (case post s of None \<Rightarrow> None | Some s' \<Rightarrow> sem_run post take_one ops s')"
| "sem_run post take_one (SemTake # ops) s =
     (case take_one s of None \<Rightarrow> None | Some s' \<Rightarrow> sem_run post take_one ops s')"

text \<open>
  What a user relies on: a post that succeeds adds one, a wait that returns takes one, and a wait
  can return exactly when the value is not 0.
\<close>

locale counting_semaphore =
  fixes sem_value :: "'s \<Rightarrow> nat" and valid :: "'s \<Rightarrow> bool" and post :: "'s \<Rightarrow> 's option" and take_one :: "'s \<Rightarrow> 's option"
  assumes post_adds: "valid s \<Longrightarrow> post s = Some s' \<Longrightarrow> valid s' \<and> sem_value s' = sem_value s + 1"
    and take_subtracts: "valid s \<Longrightarrow> take_one s = Some s' \<Longrightarrow> valid s' \<and> sem_value s = sem_value s' + 1"
    and take_enabled: "valid s \<Longrightarrow> take_one s = None \<longleftrightarrow> sem_value s = 0"
begin

lemma sem_run_balance:
  "sem_run post take_one ops s = Some s' \<Longrightarrow> valid s \<Longrightarrow>
     valid s' \<and> sem_value s' + count_list ops SemTake = sem_value s + count_list ops SemPost"
proof (induction ops arbitrary: s)
  case (Cons op ops)
  show ?case
  proof (cases op)
    case SemPost
    then obtain s1 where "post s = Some s1" "sem_run post take_one ops s1 = Some s'"
      using Cons.prems by (auto split: option.splits)
    then show ?thesis using Cons.IH [of s1] post_adds [of s s1] Cons.prems SemPost by auto
  next
    case SemTake
    then obtain s1 where "take_one s = Some s1" "sem_run post take_one ops s1 = Some s'"
      using Cons.prems by (auto split: option.splits)
    then show ?thesis using Cons.IH [of s1] take_subtracts [of s s1] Cons.prems SemTake by auto
  qed
qed simp

lemma takes_bounded: "sem_run post take_one ops s = Some s' \<Longrightarrow> valid s \<Longrightarrow>
     count_list ops SemTake \<le> sem_value s + count_list ops SemPost"
  using sem_run_balance by fastforce

end

section \<open>Mapped file: the count under a mutex\<close>

record mysem =
  sem_count :: "32 word"
  sem_magic :: "32 word"

definition SEM_MAGIC :: "32 word" where
  "SEM_MAGIC = 0x67458923"

text \<open>
  The calls on the semaphore itself; \<open>rc\<close> is what \<open>pthread_mutex_lock\<close> returns.  \<open>sem_post\<close> also says
  whether it signals the condition variable; \<open>sem_wait\<close> gives \<open>None\<close> when it has to wait.
\<close>

definition guarded :: "mysem \<Rightarrow> int \<Rightarrow> 'a sys_result \<Rightarrow> 'a sys_result" where
  "guarded sem rc body =
     (if sem_magic sem \<noteq> SEM_MAGIC then Fail EINVAL else if rc \<noteq> 0 then Fail (Errno rc) else body)"

definition mysem_post :: "int \<Rightarrow> mysem \<Rightarrow> (bool \<times> mysem) sys_result" where
  "mysem_post rc sem = guarded sem rc (Ret (sem_count sem = 0, sem\<lparr>sem_count := sem_count sem + 1\<rparr>))"

definition mysem_wait :: "int \<Rightarrow> mysem \<Rightarrow> mysem option sys_result" where
  "mysem_wait rc sem = guarded sem rc
     (Ret (if sem_count sem = 0 then None else Some (sem\<lparr>sem_count := sem_count sem - 1\<rparr>)))"

definition mysem_trywait :: "int \<Rightarrow> mysem \<Rightarrow> mysem sys_result" where
  "mysem_trywait rc sem = guarded sem rc
     (if sem_count sem > 0 then Ret (sem\<lparr>sem_count := sem_count sem - 1\<rparr>) else Fail EAGAIN)"

definition mysem_getvalue :: "int \<Rightarrow> mysem \<Rightarrow> int sys_result" where
  "mysem_getvalue rc sem = guarded sem rc (Ret (sint (sem_count sem)))"

definition mysem_close :: "bool \<Rightarrow> mysem \<Rightarrow> unit sys_result" where
  "mysem_close munmap_ok sem =
     (if sem_magic sem \<noteq> SEM_MAGIC then Fail EINVAL else if munmap_ok then Ret () else Fail (Errno 22))"

text \<open>A semaphore that is open.\<close>

definition mmap_valid :: "mysem \<Rightarrow> bool" where
  "mmap_valid sem \<longleftrightarrow> sem_magic sem = SEM_MAGIC"

lemma unat_plus_one: "w \<noteq> - 1 \<Longrightarrow> unat (w + 1) = unat w + 1" for w :: "32 word"
  by (metis Suc_eq_plus1 add.commute unatSuc add_eq_0_iff)

lemma unat_minus_one32: "w \<noteq> 0 \<Longrightarrow> unat w = unat (w - 1) + 1" for w :: "32 word"
  using unat_plus_one [of "w - 1"] by (auto simp: algebra_simps)

section \<open>FIFO: bytes as tokens\<close>

text \<open>
  The bytes in the FIFO (their values do not matter, and are not initialised) and the capacity
  of the pipe.  The write side is non-blocking, the read side blocks.
\<close>

record fifo_sem =
  fifo_bytes :: nat
  fifo_magic :: "32 word"

definition FIFO_MAGIC :: "32 word" where
  "FIFO_MAGIC = 0x89674523"

definition PIPE_SIZE :: nat where
  "PIPE_SIZE = 65536"

definition fifo_post :: "fifo_sem \<Rightarrow> fifo_sem sys_result" where
  "fifo_post sem =
     (if fifo_magic sem \<noteq> FIFO_MAGIC then Fail EINVAL
      else if fifo_bytes sem < PIPE_SIZE then Ret (sem\<lparr>fifo_bytes := fifo_bytes sem + 1\<rparr>)
      else Fail EAGAIN)"

definition fifo_wait :: "fifo_sem \<Rightarrow> fifo_sem option sys_result" where
  "fifo_wait sem =
     (if fifo_magic sem \<noteq> FIFO_MAGIC then Fail EINVAL
      else Ret (if fifo_bytes sem = 0 then None else Some (sem\<lparr>fifo_bytes := fifo_bytes sem - 1\<rparr>)))"

definition fifo_close :: "bool \<Rightarrow> fifo_sem \<Rightarrow> (bool \<times> fifo_sem) sys_result" where
  "fifo_close close_ok sem =
     (if fifo_magic sem \<noteq> FIFO_MAGIC then Fail EINVAL else Ret (close_ok, sem\<lparr>fifo_magic := 0\<rparr>))"

text \<open>
  \<open>mysem_open\<close> on a name that may hold a FIFO already.  \<open>ok\<close> says which calls succeed, in the order
  of the code: \<open>malloc\<close>, two \<open>open\<close>s, two \<open>fcntl\<close>s.  The result has the state of the name after.
\<close>

definition fifo_open ::
  "bool \<Rightarrow> bool \<Rightarrow> nat \<Rightarrow> bool \<Rightarrow> bool list \<Rightarrow> nat option \<Rightarrow> fifo_sem sys_result \<times> nat option" where
  "fifo_open o_creat o_excl value malloc_ok oks name =
     (if o_creat \<and> name \<noteq> None \<and> o_excl then (Fail EEXIST, name)
      else
        let o_creat' = (o_creat \<and> name = None); name1 = (if o_creat' then Some 0 else name) in
        if \<not> malloc_ok then (Fail (Errno 12), name1)
        else case name1 of
          None \<Rightarrow> (Fail ENOENT, name1)
        | Some n \<Rightarrow>
            if \<not> list_all id oks then (Fail (Errno 24), if o_creat' then None else name1)
            else if o_creat' then
              (if value \<le> PIPE_SIZE
               then (Ret \<lparr>fifo_bytes = value, fifo_magic = FIFO_MAGIC\<rparr>, Some value)
               else (Fail EAGAIN, None))
            else (Ret \<lparr>fifo_bytes = n, fifo_magic = FIFO_MAGIC\<rparr>, Some n))"

definition fifo_valid :: "fifo_sem \<Rightarrow> bool" where
  "fifo_valid sem \<longleftrightarrow> fifo_magic sem = FIFO_MAGIC \<and> fifo_bytes sem \<le> PIPE_SIZE"

definition fifo_post_op :: "fifo_sem \<Rightarrow> fifo_sem option" where
  "fifo_post_op sem = (case fifo_post sem of Ret s \<Rightarrow> Some s | Fail _ \<Rightarrow> None)"

definition fifo_take :: "fifo_sem \<Rightarrow> fifo_sem option" where
  "fifo_take sem = (case fifo_wait sem of Ret r \<Rightarrow> r | Fail _ \<Rightarrow> None)"

interpretation fifo: counting_semaphore fifo_bytes fifo_valid fifo_post_op fifo_take
  by unfold_locales
    (auto simp: fifo_valid_def fifo_post_op_def fifo_take_def fifo_post_def fifo_wait_def split: if_splits)

text \<open>A FIFO semaphore is created with the value asked for, or, beyond the capacity of the pipe, not at all.\<close>

lemma fifo_open_value:
  "list_all id oks \<Longrightarrow> fifo_open True o_excl value True oks None =
     (if value \<le> PIPE_SIZE then (Ret \<lparr>fifo_bytes = value, fifo_magic = FIFO_MAGIC\<rparr>, Some value) else (Fail EAGAIN, None))"
  by (simp add: fifo_open_def Let_def)

lemma mysem_trywait_fails: "mmap_valid s \<Longrightarrow> mysem_trywait 0 s = Fail EAGAIN \<longleftrightarrow> sem_count s = 0"
  by (auto simp: mmap_valid_def mysem_trywait_def guarded_def word_gt_0)

section \<open>Waiting processes\<close>

text \<open>
  \<open>mysem_wait\<close> of the mapped file in detail: \<open>asleep\<close> are the processes in \<open>pthread_cond_wait\<close>,
  \<open>awake\<close> those that were signalled and have to take the mutex again.  \<open>mysem_post\<close> signals only when
  the count is 0.  \<open>posts\<close> and \<open>takes\<close> are histories.
\<close>

record sem_procs =
  the_sem :: mysem
  asleep :: "nat list"
  awake :: "nat list"
  posts :: nat
  takes :: nat

definition new_sem_procs :: "32 word \<Rightarrow> sem_procs" where
  "new_sem_procs value =
     \<lparr>the_sem = \<lparr>sem_count = value, sem_magic = SEM_MAGIC\<rparr>, asleep = [], awake = [], posts = 0, takes = 0\<rparr>"

text \<open>\<open>pthread_cond_signal\<close> wakes one sleeper, any of them, or does nothing.\<close>

definition cond_signal :: "nat \<Rightarrow> sem_procs \<Rightarrow> sem_procs option" where
  "cond_signal w st =
     (if asleep st = [] then Some st
      else if w \<in> set (asleep st) then Some (st\<lparr>asleep := remove1 w (asleep st), awake := w # awake st\<rparr>) else None)"

definition proc_post :: "nat \<Rightarrow> sem_procs \<Rightarrow> sem_procs option" where
  "proc_post w st =
     (case mysem_post 0 (the_sem st) of
        Fail _ \<Rightarrow> None
      | Ret (sig, sem') \<Rightarrow>
          (let st' = st\<lparr>the_sem := sem', posts := posts st + 1\<rparr> in if sig then cond_signal w st' else Some st'))"

definition proc_wait :: "nat \<Rightarrow> sem_procs \<Rightarrow> sem_procs option" where
  "proc_wait p st =
     (case mysem_wait 0 (the_sem st) of
        Fail _ \<Rightarrow> None
      | Ret None \<Rightarrow> Some (st\<lparr>asleep := p # asleep st\<rparr>)
      | Ret (Some sem') \<Rightarrow> Some (st\<lparr>the_sem := sem', takes := takes st + 1\<rparr>))"

datatype sem_label = SPost nat | SWait nat | SRewait nat | SSpurious nat

fun sem_exec :: "sem_label \<Rightarrow> sem_procs \<Rightarrow> sem_procs option" where
  "sem_exec (SPost w) st = proc_post w st"
| "sem_exec (SWait p) st = (if p \<in> set (asleep st) \<union> set (awake st) then None else proc_wait p st)"
| "sem_exec (SRewait p) st =
     (if p \<in> set (awake st) then proc_wait p (st\<lparr>awake := remove1 p (awake st)\<rparr>) else None)"
| "sem_exec (SSpurious p) st =
     (if p \<in> set (asleep st)
      then Some (st\<lparr>asleep := remove1 p (asleep st), awake := p # awake st\<rparr>) else None)"

fun sem_steps :: "sem_label list \<Rightarrow> sem_procs \<Rightarrow> sem_procs option" where
  "sem_steps [] st = Some st"
| "sem_steps (l # ls) st = (case sem_exec l st of None \<Rightarrow> None | Some st' \<Rightarrow> sem_steps ls st')"

text \<open>Two processes asleep, two posts: the second one finds the count at 1 and signals nobody.\<close>

definition two_posts :: "sem_label list" where
  "two_posts = [SWait 1, SWait 2, SPost 1, SPost 2, SRewait 1]"

lemma proc_post_quiet:
  assumes "sem_count (the_sem st) \<noteq> 0" "mmap_valid (the_sem st)"
  shows "proc_post w st = Some (st\<lparr>the_sem := (the_sem st)\<lparr>sem_count := sem_count (the_sem st) + 1\<rparr>, posts := posts st + 1\<rparr>)"
  using assms by (simp add: proc_post_def mysem_post_def guarded_def mmap_valid_def)

lemma posts_do_not_wake:
  assumes "sem_count (the_sem st) \<noteq> 0" "unat (sem_count (the_sem st)) + n < 2 ^ 32" "mmap_valid (the_sem st)"
    and "sem_steps (map SPost ws) st = Some st'" "length ws = n"
  shows "asleep st' = asleep st \<and> awake st' = awake st"
  using assms
proof (induction ws arbitrary: st n)
  case (Cons w ws)
  let ?c = "sem_count (the_sem st)"
  let ?st1 = "st\<lparr>the_sem := (the_sem st)\<lparr>sem_count := ?c + 1\<rparr>, posts := posts st + 1\<rparr>"
  have "unat (- 1 :: 32 word) = 2 ^ 32 - 1" by (simp add: unsigned_minus_1_eq_mask mask_eq_exp_minus_1)
  then have c: "unat (?c + 1) = unat ?c + 1" using Cons.prems(2,5) by (intro unat_plus_one) auto
  then have "?c + 1 \<noteq> 0" by (metis Suc_eq_plus1 nat.distinct(1) unat_0)
  moreover have "sem_steps (map SPost ws) ?st1 = Some st'"
    using Cons.prems(4) proc_post_quiet [OF Cons.prems(1,3)] by simp
  ultimately show ?case using Cons.IH [of ?st1 "length ws"] Cons.prems c by (simp add: mmap_valid_def)
qed simp

text \<open>At most one process waits at a time.\<close>

fun solo_exec :: "sem_label \<Rightarrow> sem_procs \<Rightarrow> sem_procs option" where
  "solo_exec (SWait p) st = (if asleep st = [] \<and> awake st = [] then sem_exec (SWait p) st else None)"
| "solo_exec l st = sem_exec l st"

inductive solo_step :: "sem_procs \<Rightarrow> sem_procs \<Rightarrow> bool" where
  solo_stepI: "solo_exec l st = Some st' \<Longrightarrow> solo_step st st'"

inductive_cases solo_stepE: "solo_step st st'"

definition solo_inv :: "32 word \<Rightarrow> sem_procs \<Rightarrow> bool" where
  "solo_inv value st \<longleftrightarrow> mmap_valid (the_sem st) \<and>
     sem_count (the_sem st) = value + of_nat (posts st) - of_nat (takes st) \<and>
     length (asleep st) + length (awake st) \<le> 1 \<and> (asleep st \<noteq> [] \<longrightarrow> sem_count (the_sem st) = 0)"

lemma solo_inv_wait:
  "solo_inv value st \<Longrightarrow> asleep st = [] \<Longrightarrow> awake st = [] \<Longrightarrow> proc_wait p st = Some st' \<Longrightarrow> solo_inv value st'"
  by (auto simp: solo_inv_def proc_wait_def mysem_wait_def guarded_def mmap_valid_def algebra_simps split: if_splits)

lemma solo_inv_exec:
  assumes inv: "solo_inv value st" and ex: "solo_exec l st = Some st'"
  shows "solo_inv value st'"
proof (cases l)
  case (SPost w)
  then have "proc_post w st = Some st'" using ex by simp
  then show ?thesis using inv
    by (cases "asleep st")
      (auto simp: solo_inv_def proc_post_def mysem_post_def guarded_def mmap_valid_def cond_signal_def algebra_simps
        Let_def split: if_splits)
next
  case (SWait p)
  then show ?thesis using inv ex solo_inv_wait by (auto split: if_splits)
next
  case (SRewait p)
  then have a: "awake st = [p]" "asleep st = []" and w: "proc_wait p (st\<lparr>awake := []\<rparr>) = Some st'"
    using ex inv by (cases "awake st"; auto simp: solo_inv_def split: if_splits)+
  have "solo_inv value (st\<lparr>awake := []\<rparr>)" using inv by (auto simp: solo_inv_def)
  from solo_inv_wait [OF this _ _ w] show ?thesis using a by simp
next
  case (SSpurious p)
  then show ?thesis using ex inv by (cases "asleep st") (auto simp: solo_inv_def split: if_splits)
qed

interpretation solo: step_invariant "\<lambda>st. st = new_sem_procs val" solo_step "solo_inv val" for val
proof
  show "st = new_sem_procs val \<Longrightarrow> solo_inv val st" for st
    by (simp add: solo_inv_def new_sem_procs_def mmap_valid_def)
  show "solo_inv val s \<Longrightarrow> solo_step s t \<Longrightarrow> solo_inv val t" for s t
    by (blast intro: solo_inv_exec elim: solo_stepE)
qed

text \<open>Any number of processes that wait, post and wake up.\<close>

inductive sem_step :: "sem_procs \<Rightarrow> sem_procs \<Rightarrow> bool" where
  sem_stepI: "sem_exec l st = Some st' \<Longrightarrow> sem_step st st'"

inductive_cases sem_stepE: "sem_step st st'"

definition sem_balance :: "32 word \<Rightarrow> sem_procs \<Rightarrow> bool" where
  "sem_balance value st \<longleftrightarrow> mmap_valid (the_sem st) \<and>
     (unat value + posts st < 2 ^ 32 \<longrightarrow> unat (sem_count (the_sem st)) + takes st = unat value + posts st)"

lemma sem_balance_frame:
  "sem_balance value st \<Longrightarrow> the_sem st' = the_sem st \<Longrightarrow> posts st' = posts st \<Longrightarrow> takes st' = takes st \<Longrightarrow> sem_balance value st'"
  by (simp add: sem_balance_def)

lemma cond_signal_frame:
  "cond_signal w st = Some st' \<Longrightarrow> the_sem st' = the_sem st \<and> posts st' = posts st \<and> takes st' = takes st"
  by (auto simp: cond_signal_def split: if_splits)

lemma sem_balance_post:
  assumes "sem_balance value st" "proc_post w st = Some st'"
  shows "sem_balance value st'"
proof -
  let ?c = "sem_count (the_sem st)"
  let ?st = "st\<lparr>the_sem := (the_sem st)\<lparr>sem_count := ?c + 1\<rparr>, posts := posts st + 1\<rparr>"
  have v: "mmap_valid (the_sem st)" using assms(1) by (simp add: sem_balance_def)
  have "unat (?c + 1) + takes st = unat value + posts st + 1" if "unat value + (posts st + 1) < 2 ^ 32"
  proof -
    have b: "unat ?c + takes st = unat value + posts st" using assms(1) that by (simp add: sem_balance_def)
    have "unat (- 1 :: 32 word) = 2 ^ 32 - 1" by (simp add: unsigned_minus_1_eq_mask mask_eq_exp_minus_1)
    then have "?c \<noteq> - 1" using b that by auto
    from unat_plus_one [OF this] b show ?thesis by simp
  qed
  then have "sem_balance value ?st" using v by (simp add: sem_balance_def mmap_valid_def)
  moreover have "the_sem st' = the_sem ?st \<and> posts st' = posts ?st \<and> takes st' = takes ?st"
    using assms(2) v cond_signal_frame [of w ?st st']
    by (auto simp: proc_post_def mysem_post_def guarded_def mmap_valid_def Let_def split: if_splits)
  ultimately show ?thesis by (auto intro: sem_balance_frame)
qed

lemma sem_balance_wait: "sem_balance value st \<Longrightarrow> proc_wait p st = Some st' \<Longrightarrow> sem_balance value st'"
  using unat_minus_one32 [of "sem_count (the_sem st)"]
  by (auto simp: sem_balance_def proc_wait_def mysem_wait_def guarded_def mmap_valid_def split: if_splits)

lemma sem_balance_exec:
  assumes "sem_balance value st" "sem_exec l st = Some st'"
  shows "sem_balance value st'"
proof (cases l)
  case (SRewait p)
  have "sem_balance value (st\<lparr>awake := remove1 p (awake st)\<rparr>)" using assms(1) by (rule sem_balance_frame) simp_all
  then show ?thesis using assms(2) SRewait sem_balance_wait by (auto split: if_splits)
next
  case (SSpurious p)
  then show ?thesis using assms(2) sem_balance_frame [OF assms(1)] by (auto split: if_splits)
next
  case (SPost w)
  then show ?thesis using assms sem_balance_post by simp
next
  case (SWait p)
  then show ?thesis using assms sem_balance_wait by (simp split: if_splits)
qed

interpretation sem_procs: step_invariant "\<lambda>st. st = new_sem_procs val" sem_step "sem_balance val" for val
proof
  show "st = new_sem_procs val \<Longrightarrow> sem_balance val st" for st
    by (simp add: sem_balance_def new_sem_procs_def mmap_valid_def)
  show "sem_balance val s \<Longrightarrow> sem_step s t \<Longrightarrow> sem_balance val t" for s t
    by (blast intro: sem_balance_exec elim: sem_stepE)
qed

lemma lost_wakeup:
  "\<exists>st. sem_steps two_posts (new_sem_procs 0) = Some st \<and> posts st = 2 \<and> takes st = 1 \<and>
     sem_count (the_sem st) = 1 \<and> asleep st = [2] \<and> awake st = [] \<and>
     \<not> (\<exists>ws st'. length ws < 2 ^ 32 - 1 \<and> sem_steps (map SPost ws) st = Some st' \<and> asleep st' \<noteq> [2])"
proof -
  have "case sem_steps two_posts (new_sem_procs 0) of None \<Rightarrow> False
      | Some st \<Rightarrow> posts st = 2 \<and> takes st = 1 \<and> sem_count (the_sem st) = 1 \<and> sem_magic (the_sem st) = SEM_MAGIC \<and>
          asleep st = [2] \<and> awake st = []"
    by code_simp
  then obtain st where st: "sem_steps two_posts (new_sem_procs 0) = Some st" "posts st = 2" "takes st = 1"
    "sem_count (the_sem st) = 1" "sem_magic (the_sem st) = SEM_MAGIC" "asleep st = [2]" "awake st = []"
    by (auto split: option.splits)
  have "asleep st' = [2]" if "length ws < 2 ^ 32 - 1" "sem_steps (map SPost ws) st = Some st'" for ws st'
    using posts_do_not_wake [of st "length ws" ws st'] that st by (simp add: mmap_valid_def)
  then show ?thesis using st by blast
qed

text \<open>
  C25: The semaphore in a mapped file and the one in a FIFO count.  For any number of processes that post, wait,
  sleep and wake up, spuriously too, as long as the 32-bit count does not overflow: count and completed waits are
  the first value and the posts.  \<open>mysem_post\<close> signals only a count of 0: that is enough for one waiting process,
  which never sleeps while the count is positive, but not for two: after two waits and two posts one process
  sleeps with the count at 1, and further posts do not wake it.  The FIFO semaphore has no such waiters: over
  any sequence of posts that succeed and waits that return its bytes and the waits balance the posts, and
  a wait can return exactly when there is a byte.
\<close>

theorem px_semaphores_count:
  assumes "reachable (\<lambda>st. st = new_sem_procs value) sem_step st" "unat value + posts st < 2 ^ 32"
    and "reachable (\<lambda>st. st = new_sem_procs value) solo_step solo"
    and "sem_run fifo_post_op fifo_take ops fifo = Some fifo'" "fifo_valid fifo"
  shows "unat (sem_count (the_sem st)) + takes st = unat value + posts st \<and>
     \<not> (asleep solo \<noteq> [] \<and> sem_count (the_sem solo) \<noteq> 0) \<and>
     (\<exists>lost. sem_steps two_posts (new_sem_procs 0) = Some lost \<and> posts lost = 2 \<and> takes lost = 1 \<and>
        sem_count (the_sem lost) = 1 \<and> asleep lost = [2] \<and> awake lost = [] \<and>
        \<not> (\<exists>ws st'. length ws < 2 ^ 32 - 1 \<and> sem_steps (map SPost ws) lost = Some st' \<and> asleep st' \<noteq> [2])) \<and>
     fifo_valid fifo' \<and> fifo_bytes fifo' + count_list ops SemTake = fifo_bytes fifo + count_list ops SemPost \<and>
     (fifo_wait fifo' = Ret None) = (fifo_bytes fifo' = 0)"
proof (intro conjI)
  show "unat (sem_count (the_sem st)) + takes st = unat value + posts st"
    using sem_procs.reachable_inv [OF assms(1)] assms(2) by (simp add: sem_balance_def)
  show "\<not> (asleep solo \<noteq> [] \<and> sem_count (the_sem solo) \<noteq> 0)"
    using solo.reachable_inv [OF assms(3)] unfolding solo_inv_def by blast
  show v: "fifo_valid fifo'" and "fifo_bytes fifo' + count_list ops SemTake = fifo_bytes fifo + count_list ops SemPost"
    using fifo.sem_run_balance [OF assms(4,5)] by simp_all
  show "(fifo_wait fifo' = Ret None) = (fifo_bytes fifo' = 0)" using v by (simp add: fifo_wait_def fifo_valid_def)
qed (rule lost_wakeup)

lemma px_semaphores_count_witness:
  "\<exists>st. sem_steps [SWait 1, SWait 2, SPost 2, SSpurious 1, SRewait 2, SRewait 1, SPost 1] (new_sem_procs 0) = Some st \<and>
     unat (sem_count (the_sem st)) + takes st = unat (0 :: 32 word) + 2"
proof -
  let ?ls = "[SWait 1, SWait 2, SPost 2, SSpurious 1, SRewait 2, SRewait 1, SPost 1]"
  have steps: "sem_steps ls s = Some t \<Longrightarrow> reachable (\<lambda>st. st = new_sem_procs 0) sem_step s \<Longrightarrow>
      reachable (\<lambda>st. st = new_sem_procs 0) sem_step t" for ls s t
  proof (induction ls arbitrary: s)
    case (Cons l ls)
    then obtain s1 where "sem_exec l s = Some s1" "sem_steps ls s1 = Some t" by (auto split: option.splits)
    then show ?case using Cons.IH [of s1] reach_step [OF Cons.prems(2) sem_stepI] by blast
  qed simp
  have "case sem_steps ?ls (new_sem_procs 0) of None \<Rightarrow> False | Some st \<Rightarrow> posts st = 2" by code_simp
  then obtain st where st: "sem_steps ?ls (new_sem_procs 0) = Some st" "posts st = 2" by (auto split: option.splits)
  have r: "reachable (\<lambda>st. st = new_sem_procs 0) sem_step st" by (rule steps [OF st(1)]) (simp add: reach_init)
  have solo: "reachable (\<lambda>st. st = new_sem_procs 0) solo_step (new_sem_procs 0)" by (rule reach_init) simp
  have f: "sem_run fifo_post_op fifo_take [SemPost] \<lparr>fifo_bytes = 0, fifo_magic = FIFO_MAGIC\<rparr> =
      Some \<lparr>fifo_bytes = 1, fifo_magic = FIFO_MAGIC\<rparr>" "fifo_valid \<lparr>fifo_bytes = 0, fifo_magic = FIFO_MAGIC\<rparr>"
    by (simp_all add: fifo_post_op_def fifo_post_def PIPE_SIZE_def fifo_valid_def)
  from px_semaphores_count [OF r _ solo f] st show ?thesis by (intro exI [of _ st]) simp
qed

end
