(* ===== verification/PxSemOpen.thy ===== *)
theory PxSemOpen
  imports PxSemaphore
begin

text \<open>
  \<open>mysem_open\<close> of \<open>example/unix_network/example/my_pxsem_mmap/sem_open.cpp\<close>, run by any number of
  processes on one name.  Every system call is a step; a label says which process goes on and
  whether its call fails.  The user-execute bit of the file tells other processes that the
  creator has not finished.
\<close>

section \<open>State\<close>

text \<open>A file: what \<open>open\<close> with \<open>O_EXCL\<close> makes, filled in by the creator.\<close>

record sem_file =
  x_bit :: bool
  sized :: bool
  mutex_ready :: bool
  cond_ready :: bool
  count_set :: "32 word option"
  magic_set :: bool

definition fresh_file :: sem_file where
  "fresh_file = \<lparr>x_bit = True, sized = False, mutex_ready = False, cond_ready = False, count_set = None,
     magic_set = False\<rparr>"

text \<open>Where a process is: the calls of the creator, of the opener, the error exit, the results.\<close>

datatype open_pc =
    OCreate | OWrite | OMap | OMutex | OCond | OCount | OChmod | OMagic
  | OExists | OMap2 | OStat nat | OErr errno | OOpened | OFailed errno

record opener =
  at :: open_pc
  o_creat :: bool
  o_excl :: bool
  init_value :: "32 word"
  created :: bool
  mapped :: "nat option"

text \<open>The inode behind the pathname, and all inodes; a new one gets the next number.\<close>

record open_sys =
  path :: "nat option"
  files :: "sem_file list"
  procs :: "opener list"

definition MAX_TRIES :: nat where
  "MAX_TRIES = 10"

definition SEM_VALUE_MAX :: int where
  "SEM_VALUE_MAX = 2147483647"

definition start_opener :: "bool \<Rightarrow> bool \<Rightarrow> 32 word \<Rightarrow> opener" where
  "start_opener creat excl v =
     \<lparr>at = (if creat then OCreate else OExists), o_creat = creat, o_excl = excl, init_value = v,
      created = False, mapped = None\<rparr>"

definition start_open :: "opener list \<Rightarrow> open_sys" where
  "start_open ps = \<lparr>path = None, files = [], procs = ps\<rparr>"

section \<open>Steps\<close>

definition goes :: "nat \<Rightarrow> opener \<Rightarrow> open_sys \<Rightarrow> open_sys" where
  "goes p q st = st\<lparr>procs := (procs st)[p := q]\<rparr>"

definition set_file :: "nat \<Rightarrow> (sem_file \<Rightarrow> sem_file) \<Rightarrow> open_sys \<Rightarrow> open_sys" where
  "set_file n f st = st\<lparr>files := (files st)[n := f (files st ! n)]\<rparr>"

definition create_file :: "nat \<Rightarrow> opener \<Rightarrow> bool \<Rightarrow> open_sys \<Rightarrow> open_sys" where
  "create_file p q ok st =
     (if \<not> ok then goes p (q\<lparr>at := OFailed (Errno 13)\<rparr>) st
      else if path st \<noteq> None then goes p (q\<lparr>at := if o_excl q then OFailed EEXIST else OExists\<rparr>) st
      else goes p (q\<lparr>at := OWrite, created := True, mapped := Some (length (files st))\<rparr>)
             (st\<lparr>path := Some (length (files st)), files := files st @ [fresh_file]\<rparr>))"

text \<open>One step of the creator's initialisation.\<close>

definition init_step :: "nat \<Rightarrow> opener \<Rightarrow> bool \<Rightarrow> open_pc \<Rightarrow> (sem_file \<Rightarrow> sem_file) \<Rightarrow> open_sys \<Rightarrow> open_sys" where
  "init_step p q ok pc f st =
     (if ok then goes p (q\<lparr>at := pc\<rparr>) (set_file (the (mapped q)) f st)
      else goes p (q\<lparr>at := OErr (Errno 5)\<rparr>) st)"

definition open_existing :: "nat \<Rightarrow> opener \<Rightarrow> bool \<Rightarrow> open_sys \<Rightarrow> open_sys" where
  "open_existing p q ok st =
     (case path st of
        None \<Rightarrow> goes p (q\<lparr>at := if o_creat q then OCreate else OErr ENOENT\<rparr>) st
      | Some n \<Rightarrow> if ok then goes p (q\<lparr>at := OMap2, mapped := Some n\<rparr>) st
                 else goes p (q\<lparr>at := OErr (Errno 13)\<rparr>) st)"

text \<open>\<open>stat\<close> looks the pathname up again; the bit decides, or another try after a second.\<close>

definition stat_try :: "nat \<Rightarrow> opener \<Rightarrow> nat \<Rightarrow> open_sys \<Rightarrow> open_sys" where
  "stat_try p q k st =
     (case path st of
        None \<Rightarrow> goes p (q\<lparr>at := if o_creat q then OCreate else OErr ENOENT\<rparr>) st
      | Some n \<Rightarrow>
          if \<not> x_bit (files st ! n)
          then goes p (q\<lparr>at := OOpened\<rparr>) (set_file (the (mapped q)) (\<lambda>f. f\<lparr>magic_set := True\<rparr>) st)
          else goes p (q\<lparr>at := if k + 1 < MAX_TRIES then OStat (k + 1) else OErr ETIMEDOUT\<rparr>) st)"

definition open_exec :: "nat \<Rightarrow> bool \<Rightarrow> open_sys \<Rightarrow> open_sys option" where
  "open_exec p ok st =
     (if p < length (procs st) then
        let q = procs st ! p in
        (case at q of
           OCreate \<Rightarrow> Some (create_file p q ok st)
         | OWrite \<Rightarrow> Some (init_step p q ok OMap (\<lambda>f. f\<lparr>sized := True\<rparr>) st)
         | OMap \<Rightarrow> Some (init_step p q ok OMutex id st)
         | OMutex \<Rightarrow> Some (init_step p q ok OCond (\<lambda>f. f\<lparr>mutex_ready := True\<rparr>) st)
         | OCond \<Rightarrow> Some (init_step p q ok OCount (\<lambda>f. f\<lparr>cond_ready := True\<rparr>) st)
         | OCount \<Rightarrow>
             Some (goes p (q\<lparr>at := if uint (init_value q) > SEM_VALUE_MAX then OErr EINVAL else OChmod\<rparr>)
               (set_file (the (mapped q)) (\<lambda>f. f\<lparr>count_set := Some (init_value q)\<rparr>) st))
         | OChmod \<Rightarrow> Some (init_step p q ok OMagic (\<lambda>f. f\<lparr>x_bit := False\<rparr>) st)
         | OMagic \<Rightarrow> Some (init_step p q True OOpened (\<lambda>f. f\<lparr>magic_set := True\<rparr>) st)
         | OExists \<Rightarrow> Some (open_existing p q ok st)
         | OMap2 \<Rightarrow> Some (goes p (q\<lparr>at := if ok then OStat 0 else OErr (Errno 12)\<rparr>) st)
         | OStat k \<Rightarrow> Some (stat_try p q k st)
         | OErr e \<Rightarrow> Some (goes p (q\<lparr>at := OFailed e\<rparr>) (if created q then st\<lparr>path := None\<rparr> else st))
         | OOpened \<Rightarrow> None
         | OFailed e \<Rightarrow> None)
      else None)"

fun open_run :: "(nat \<times> bool) list \<Rightarrow> open_sys \<Rightarrow> open_sys option" where
  "open_run [] st = Some st"
| "open_run ((p, ok) # ls) st = (case open_exec p ok st of None \<Rightarrow> None | Some st' \<Rightarrow> open_run ls st')"

text \<open>
  The steps in which no creator fails: every value asked for is allowed, and only the calls made
  before anything is created, or by processes that open an existing file, may fail.
\<close>

definition creator_pc :: "open_pc \<Rightarrow> bool" where
  "creator_pc pc \<longleftrightarrow> pc \<in> {OWrite, OMap, OMutex, OCond, OCount, OChmod, OMagic}"

inductive open_step :: "open_sys \<Rightarrow> open_sys \<Rightarrow> bool" where
  open_stepI: "open_exec p ok st = Some st' \<Longrightarrow> ok \<or> \<not> creator_pc (at (procs st ! p)) \<Longrightarrow> open_step st st'"

inductive_cases open_stepE: "open_step st st'"

definition open_start :: "open_sys \<Rightarrow> bool" where
  "open_start st \<longleftrightarrow> (\<exists>ps. st = start_open ps \<and>
     (\<forall>q\<in>set ps. uint (init_value q) \<le> SEM_VALUE_MAX \<and> (\<exists>creat excl v. q = start_opener creat excl v)))"

section \<open>Invariant\<close>

definition initialised :: "sem_file \<Rightarrow> bool" where
  "initialised f \<longleftrightarrow> sized f \<and> mutex_ready f \<and> cond_ready f \<and> count_set f \<noteq> None"

text \<open>What the creator has done when it is about to make a call.\<close>

definition done_before :: "open_pc \<Rightarrow> sem_file \<Rightarrow> bool" where
  "done_before pc f \<longleftrightarrow>
     (pc \<in> {OMap, OMutex, OCond, OCount, OChmod, OMagic} \<longrightarrow> sized f) \<and>
     (pc \<in> {OCond, OCount, OChmod, OMagic} \<longrightarrow> mutex_ready f) \<and>
     (pc \<in> {OCount, OChmod, OMagic} \<longrightarrow> cond_ready f) \<and>
     (pc \<in> {OChmod, OMagic} \<longrightarrow> count_set f \<noteq> None) \<and>
     (pc = OMagic \<longrightarrow> \<not> x_bit f)"

text \<open>
  There is at most one file, number 0; processes are mapped to nothing else; a file without the
  bit is initialised; and the error exit is never taken by a creator.
\<close>

definition opener_ok :: "open_sys \<Rightarrow> opener \<Rightarrow> bool" where
  "opener_ok st q \<longleftrightarrow> uint (init_value q) \<le> SEM_VALUE_MAX \<and>
     (mapped q = None \<or> mapped q = Some 0 \<and> path st = Some 0) \<and>
     (creator_pc (at q) \<longrightarrow> mapped q = Some 0 \<and> done_before (at q) (files st ! 0)) \<and>
     (at q = OMap2 \<or> (\<exists>k. at q = OStat k) \<longrightarrow> mapped q = Some 0) \<and>
     (at q = OOpened \<longrightarrow> mapped q = Some 0 \<and> magic_set (files st ! 0) \<and> \<not> x_bit (files st ! 0)) \<and>
     ((\<exists>e. at q = OErr e) \<longrightarrow> \<not> created q) \<and> (created q \<longrightarrow> creator_pc (at q) \<or> at q = OOpened)"

definition open_inv :: "open_sys \<Rightarrow> bool" where
  "open_inv st \<longleftrightarrow> (path st = None \<and> files st = [] \<or> path st = Some 0 \<and> length (files st) = 1) \<and>
     (path st = Some 0 \<and> \<not> x_bit (files st ! 0) \<longrightarrow> initialised (files st ! 0)) \<and>
     (\<forall>q\<in>set (procs st). opener_ok st q)"

text \<open>The creator only ever adds to the file.\<close>

definition file_le :: "sem_file \<Rightarrow> sem_file \<Rightarrow> bool" where
  "file_le f g \<longleftrightarrow> (sized f \<longrightarrow> sized g) \<and> (mutex_ready f \<longrightarrow> mutex_ready g) \<and> (cond_ready f \<longrightarrow> cond_ready g) \<and>
     (count_set f \<noteq> None \<longrightarrow> count_set g \<noteq> None) \<and> (magic_set f \<longrightarrow> magic_set g) \<and> (\<not> x_bit f \<longrightarrow> \<not> x_bit g)"

lemma file_le_refl [simp]: "file_le f f"
  by (simp add: file_le_def)

lemma done_before_mono: "done_before pc f \<Longrightarrow> file_le f g \<Longrightarrow> done_before pc g"
  by (cases pc) (auto simp: done_before_def file_le_def)

lemma opener_ok_mono:
  assumes q: "opener_ok st q" and path: "path st' = path st" and le: "file_le (files st ! 0) (files st' ! 0)"
  shows "opener_ok st' q"
proof -
  have "magic_set (files st ! 0) \<Longrightarrow> magic_set (files st' ! 0)" "\<not> x_bit (files st ! 0) \<Longrightarrow> \<not> x_bit (files st' ! 0)"
    using le by (simp_all add: file_le_def)
  then show ?thesis using q done_before_mono [OF _ le] unfolding opener_ok_def path by metis
qed

lemma goes_fields [simp]:
  "path (goes p q st) = path st" "files (goes p q st) = files st"
  "procs (goes p q st) = (procs st)[p := q]" "path (set_file n f st) = path st"
  "files (set_file n f st) = (files st)[n := f (files st ! n)]"
  "procs (set_file n f st) = procs st"
  by (simp_all add: goes_def set_file_def)

lemma opener_ok_goes [simp]: "opener_ok (goes p q st) = opener_ok st"
  by (simp add: opener_ok_def fun_eq_iff)

lemma open_inv_moves:
  assumes inv: "open_inv st" and ps: "procs st' = (procs st)[p := q']" and same: "path st' = path st" "length (files st') = length (files st)"
    and le: "file_le (files st ! 0) (files st' ! 0)" and q': "opener_ok st' q'"
    and bit: "x_bit (files st ! 0) \<Longrightarrow> \<not> x_bit (files st' ! 0) \<Longrightarrow> initialised (files st' ! 0)"
  shows "open_inv st'"
proof -
  have "opener_ok st' q" if "q \<in> set (procs st')" for q
  proof (cases "q = q'")
    case False
    then have "q \<in> set (procs st)" using that ps set_update_subset_insert by fastforce
    then show ?thesis using inv opener_ok_mono [OF _ same(1) le] by (simp add: open_inv_def)
  qed (use q' in simp)
  moreover have "initialised (files st' ! 0)" if "path st' = Some 0" "\<not> x_bit (files st' ! 0)"
  proof (cases "x_bit (files st ! 0)")
    case False
    then have "initialised (files st ! 0)" using inv same(1) that by (simp add: open_inv_def)
    then show ?thesis using le by (auto simp: initialised_def file_le_def)
  qed (use bit that in simp)
  ultimately show ?thesis using inv same by (auto simp: open_inv_def)
qed

lemma open_inv_step:
  assumes inv: "open_inv st" and ex: "open_exec p ok st = Some st'"
    and gentle: "ok \<or> \<not> creator_pc (at (procs st ! p))"
  shows "open_inv st'"
proof -
  define q where "q = procs st ! p"
  have p: "p < length (procs st)" using ex by (auto simp: open_exec_def split: if_splits)
  have q: "opener_ok st q" using inv p by (simp add: open_inv_def q_def)
  have move: "open_inv (goes p q' st)" if "opener_ok st q'" for q'
    by (rule open_inv_moves [OF inv]) (use that in simp_all)
  have init: "open_inv (goes p (q\<lparr>at := pc\<rparr>) (set_file 0 f st))"
    if "path st = Some 0" "opener_ok (set_file 0 f st) (q\<lparr>at := pc\<rparr>)" "file_le (files st ! 0) (f (files st ! 0))"
      "x_bit (files st ! 0) \<Longrightarrow> \<not> x_bit (f (files st ! 0)) \<Longrightarrow> initialised (f (files st ! 0))" for pc f
  proof -
    have "length (files st) = 1" using inv that(1) by (simp add: open_inv_def)
    then show ?thesis by (intro open_inv_moves [OF inv]) (use that in simp_all)
  qed
  have one: "path st = Some 0 \<Longrightarrow> length (files st) = Suc 0" using inv by (auto simp: open_inv_def)
  show ?thesis
  proof (cases "at q")
    case OCreate
    show ?thesis
    proof (cases "\<not> ok \<or> path st \<noteq> None")
      case True
      then have "st' = goes p (q\<lparr>at := if \<not> ok then OFailed (Errno 13) else if o_excl q then OFailed EEXIST else OExists\<rparr>) st"
        using ex OCreate p by (auto simp: open_exec_def create_file_def q_def [symmetric])
      moreover have "\<not> created q" using q OCreate by (auto simp: opener_ok_def creator_pc_def)
      ultimately show ?thesis using q by (simp only:, intro move) (auto simp: opener_ok_def creator_pc_def)
    next
      case False
      then have n: "path st = None" "files st = []" using inv by (auto simp: open_inv_def)
      let ?q = "q\<lparr>at := OWrite, created := True, mapped := Some 0\<rparr>"
      let ?s = "st\<lparr>path := Some 0, files := [fresh_file]\<rparr>"
      have st': "st' = goes p ?q ?s"
        using ex OCreate p False n(2) by (simp add: open_exec_def create_file_def q_def [symmetric])
      have new: "opener_ok ?s ?q" using q by (simp add: opener_ok_def creator_pc_def done_before_def)
      have old: "opener_ok ?s u" if "u \<in> set (procs st)" for u
      proof -
        have "opener_ok st u" using that inv by (simp add: open_inv_def)
        then show ?thesis using n(1) by (cases "mapped u") (auto simp: opener_ok_def)
      qed
      have "opener_ok st' u" if "u \<in> set (procs st')" for u
      proof (cases "u = ?q")
        case False
        then have "u \<in> set (procs st)" using that set_update_subset_insert [of "procs st" p ?q] by (auto simp: st')
        then show ?thesis using old by (simp add: st')
      qed (use new in \<open>simp add: st'\<close>)
      then show ?thesis by (simp add: open_inv_def st' fresh_file_def)
    qed
  next
    case (OErr e)
    then have "\<not> created q" using q by (simp add: opener_ok_def)
    moreover from this have "st' = goes p (q\<lparr>at := OFailed e\<rparr>) st"
      using ex OErr p by (simp add: open_exec_def q_def [symmetric])
    ultimately show ?thesis using q by (simp only:, intro move) (auto simp: opener_ok_def creator_pc_def)
  next
    case OExists
    then have new: "\<not> created q" using q by (auto simp: opener_ok_def creator_pc_def)
    show ?thesis
    proof (cases "path st")
      case None
      then have "st' = goes p (q\<lparr>at := if o_creat q then OCreate else OErr ENOENT\<rparr>) st"
        using ex OExists p by (simp add: open_exec_def open_existing_def q_def [symmetric])
      then show ?thesis using q new by (simp only:, intro move) (auto simp: opener_ok_def creator_pc_def)
    next
      case (Some n)
      then have n: "n = 0" using inv by (auto simp: open_inv_def)
      have "st' = goes p (if ok then q\<lparr>at := OMap2, mapped := Some 0\<rparr> else q\<lparr>at := OErr (Errno 13)\<rparr>) st"
        using ex OExists p Some n by (auto simp: open_exec_def open_existing_def q_def [symmetric])
      then show ?thesis using q new Some n by (simp only:, intro move) (auto simp: opener_ok_def creator_pc_def)
    qed
  next
    case OMap2
    then have "st' = goes p (q\<lparr>at := if ok then OStat 0 else OErr (Errno 12)\<rparr>) st"
      using ex p by (simp add: open_exec_def q_def [symmetric])
    then show ?thesis using q OMap2 by (auto intro!: move simp: opener_ok_def creator_pc_def)
  next
    case (OStat k)
    then have m: "mapped q = Some 0" "path st = Some 0" using q by (auto simp: opener_ok_def)
    show ?thesis
    proof (cases "x_bit (files st ! 0)")
      case True
      then have "st' = goes p (q\<lparr>at := if k + 1 < MAX_TRIES then OStat (k + 1) else OErr ETIMEDOUT\<rparr>) st"
        using ex OStat p m by (simp add: open_exec_def stat_try_def q_def [symmetric])
      moreover have "\<not> created q" using q OStat by (auto simp: opener_ok_def creator_pc_def)
      ultimately show ?thesis using q m by (simp only:, intro move) (simp add: opener_ok_def creator_pc_def)
    next
      case False
      then have "st' = goes p (q\<lparr>at := OOpened\<rparr>) (set_file 0 (\<lambda>f. f\<lparr>magic_set := True\<rparr>) st)"
        using ex OStat p m by (simp add: open_exec_def stat_try_def q_def [symmetric])
      moreover have "uint (init_value q) \<le> SEM_VALUE_MAX" using q by (simp add: opener_ok_def)
      moreover note one [OF m(2)]
      ultimately show ?thesis using False m by (simp only:, intro init)
        (simp_all add: file_le_def opener_ok_def creator_pc_def)
    qed
  next
    case OOpened
    then show ?thesis using ex p by (simp add: open_exec_def q_def [symmetric])
  next
    case (OFailed e)
    then show ?thesis using ex p by (simp add: open_exec_def q_def [symmetric])
  next
    case OCount
    then have "mapped q = Some 0" "uint (init_value q) \<le> SEM_VALUE_MAX" using q by (auto simp: opener_ok_def creator_pc_def)
    then have "st' = goes p (q\<lparr>at := OChmod\<rparr>) (set_file 0 (\<lambda>f. f\<lparr>count_set := Some (init_value q)\<rparr>) st)"
      using ex OCount p by (simp add: open_exec_def q_def [symmetric])
    moreover have "path st = Some 0" using q OCount by (auto simp: opener_ok_def creator_pc_def)
    moreover from this have "length (files st) = Suc 0" by (rule one)
    ultimately show ?thesis using q OCount by (simp only:, intro init)
      (auto simp: file_le_def opener_ok_def creator_pc_def done_before_def)
  next
    case OWrite
    then have "st' = goes p (q\<lparr>at := OMap\<rparr>) (set_file 0 (\<lambda>f. f\<lparr>sized := True\<rparr>) st)"
      using ex p q gentle by (auto simp: open_exec_def init_step_def q_def [symmetric] opener_ok_def creator_pc_def)
    moreover have "path st = Some 0" using q OWrite by (auto simp: opener_ok_def creator_pc_def)
    moreover from this have "length (files st) = Suc 0" by (rule one)
    ultimately show ?thesis using q OWrite by (simp only:, intro init)
      (auto simp: file_le_def opener_ok_def creator_pc_def done_before_def)
  next
    case OMap
    then have "st' = goes p (q\<lparr>at := OMutex\<rparr>) (set_file 0 id st)"
      using ex p q gentle by (auto simp: open_exec_def init_step_def q_def [symmetric] opener_ok_def creator_pc_def)
    moreover have "path st = Some 0" using q OMap by (auto simp: opener_ok_def creator_pc_def)
    moreover from this have "length (files st) = Suc 0" by (rule one)
    ultimately show ?thesis using q OMap by (simp only:, intro init)
      (auto simp: file_le_def opener_ok_def creator_pc_def done_before_def)
  next
    case OMutex
    then have "st' = goes p (q\<lparr>at := OCond\<rparr>) (set_file 0 (\<lambda>f. f\<lparr>mutex_ready := True\<rparr>) st)"
      using ex p q gentle by (auto simp: open_exec_def init_step_def q_def [symmetric] opener_ok_def creator_pc_def)
    moreover have "path st = Some 0" using q OMutex by (auto simp: opener_ok_def creator_pc_def)
    moreover from this have "length (files st) = Suc 0" by (rule one)
    ultimately show ?thesis using q OMutex by (simp only:, intro init)
      (auto simp: file_le_def opener_ok_def creator_pc_def done_before_def)
  next
    case OCond
    then have "st' = goes p (q\<lparr>at := OCount\<rparr>) (set_file 0 (\<lambda>f. f\<lparr>cond_ready := True\<rparr>) st)"
      using ex p q gentle by (auto simp: open_exec_def init_step_def q_def [symmetric] opener_ok_def creator_pc_def)
    moreover have "path st = Some 0" using q OCond by (auto simp: opener_ok_def creator_pc_def)
    moreover from this have "length (files st) = Suc 0" by (rule one)
    ultimately show ?thesis using q OCond by (simp only:, intro init)
      (auto simp: file_le_def opener_ok_def creator_pc_def done_before_def)
  next
    case OChmod
    then have "st' = goes p (q\<lparr>at := OMagic\<rparr>) (set_file 0 (\<lambda>f. f\<lparr>x_bit := False\<rparr>) st)"
      using ex p q gentle by (auto simp: open_exec_def init_step_def q_def [symmetric] opener_ok_def creator_pc_def)
    moreover have "path st = Some 0" using q OChmod by (auto simp: opener_ok_def creator_pc_def)
    moreover from this have "length (files st) = Suc 0" by (rule one)
    ultimately show ?thesis using q OChmod by (simp only:, intro init)
      (auto simp: file_le_def opener_ok_def creator_pc_def done_before_def initialised_def)
  next
    case OMagic
    then have "st' = goes p (q\<lparr>at := OOpened\<rparr>) (set_file 0 (\<lambda>f. f\<lparr>magic_set := True\<rparr>) st)"
      using ex p q gentle by (auto simp: open_exec_def init_step_def q_def [symmetric] opener_ok_def creator_pc_def)
    moreover have "path st = Some 0" using q OMagic by (auto simp: opener_ok_def creator_pc_def)
    moreover from this have "length (files st) = Suc 0" by (rule one)
    ultimately show ?thesis using q OMagic by (simp only:, intro init)
      (auto simp: file_le_def opener_ok_def creator_pc_def done_before_def)
  qed
qed

interpretation sem_open: step_invariant open_start open_step open_inv
proof
  have "opener_ok st (start_opener c e v)" if "uint v \<le> SEM_VALUE_MAX" for st c e v
    using that by (cases c) (simp_all add: opener_ok_def start_opener_def creator_pc_def)
  moreover have "init_value (start_opener c e v) = v" for c e v by (simp add: start_opener_def)
  ultimately show "open_start st \<Longrightarrow> open_inv st" for st
    by (fastforce simp: open_start_def open_inv_def start_open_def)
  show "open_inv s \<Longrightarrow> open_step s t \<Longrightarrow> open_inv t" for s t
    by (blast intro: open_inv_step elim: open_stepE)
qed

section \<open>Properties\<close>

text \<open>
  C26: As long as no creator fails, \<open>mysem_open\<close> never hands out a semaphore too early: every process
  that has opened the name is mapped to the one file behind it, whose size, mutex, condition
  variable and count are set, whose magic number is set, and whose user-execute bit is off.
\<close>

theorem mysem_open_initialised:
  assumes "reachable open_start open_step st" and "q \<in> set (procs st)" and "at q = OOpened"
  shows "mapped q = Some 0 \<and> path st = Some 0 \<and> initialised (files st ! 0) \<and> magic_set (files st ! 0) \<and> \<not> x_bit (files st ! 0)"
proof -
  have inv: "open_inv st" using sem_open.reachable_inv assms(1) .
  then have "opener_ok st q" using assms(2) by (simp add: open_inv_def)
  then have "mapped q = Some 0" "path st = Some 0" "magic_set (files st ! 0)" "\<not> x_bit (files st ! 0)"
    using assms(3) by (auto simp: opener_ok_def)
  then show ?thesis using inv by (simp add: open_inv_def)
qed

text \<open>A creator and a process that opens what the first one creates, step by step in turn.\<close>

definition open_schedule :: "(nat \<times> bool) list" where
  "open_schedule = [(0, True), (1, True), (1, True), (1, True), (1, True)] @ replicate 7 (0, True) @ [(1, True)]"

lemma open_run_reach:
  assumes "open_run ls st = Some st'" "list_all snd ls" "reachable open_start open_step st"
  shows "reachable open_start open_step st'"
  using assms
proof (induction ls arbitrary: st)
  case (Cons l ls)
  obtain p where l: "l = (p, True)" using Cons.prems(2) by (cases l) auto
  then obtain st1 where "open_exec p True st = Some st1" "open_run ls st1 = Some st'"
    using Cons.prems(1) by (auto split: option.splits)
  moreover from this(1) have "reachable open_start open_step st1"
    using Cons.prems(3) by (blast intro: reach_step open_stepI)
  ultimately show ?case using Cons by simp
qed simp

lemma mysem_open_initialised_witness:
  "\<exists>st :: open_sys. map at (procs st) = [OOpened, OOpened] \<and> initialised (files st ! 0) \<and>
     count_set (files st ! 0) = Some 3 \<and> mapped (procs st ! 1) = Some 0"
proof -
  let ?start = "start_open [start_opener True True 3, start_opener True False 5]"
  have "case open_run open_schedule ?start of None \<Rightarrow> False
      | Some st \<Rightarrow> map at (procs st) = [OOpened, OOpened] \<and> count_set (files st ! 0) = Some 3" by code_simp
  then obtain st where run: "open_run open_schedule ?start = Some st"
    and st: "map at (procs st) = [OOpened, OOpened]" "count_set (files st ! 0) = Some 3" by (auto split: option.splits)
  have "open_start ?start" unfolding open_start_def
    by (intro exI [of _ "[start_opener True True 3, start_opener True False 5]"])
      (auto simp: start_opener_def SEM_VALUE_MAX_def)
  then have r: "reachable open_start open_step st"
    by (intro open_run_reach [OF run] reach_init) (simp_all add: open_schedule_def numeral_eq_Suc)
  have len: "length (procs st) = 2" using arg_cong [OF st(1), of length] by simp
  have at1: "at (procs st ! 1) = OOpened" using st(1) len by (metis length_map nth_Cons_0 nth_Cons_Suc nth_map One_nat_def lessI numeral_2_eq_2)
  from mysem_open_initialised [OF r _ at1] len st show ?thesis by (intro exI [of _ st]) simp
qed

text \<open>
  A creator that fails breaks this: it asks for a value above \<open>SEM_VALUE_MAX\<close>, which is only
  found out after another process has mapped its file; it unlinks the name, a third process creates
  it anew, and the \<open>stat\<close> of the second one sees the new file.  Both \<open>mysem_open\<close> succeed, on
  different files, and the second one's is not initialised as it asked.
\<close>

theorem mysem_open_stale:
  "\<exists>ls st. list_all snd ls \<and>
     open_run ls (start_open [start_opener True False 0x80000000, start_opener True False 1, start_opener True False 1]) = Some st \<and>
     map at (procs st) = [OFailed EINVAL, OOpened, OOpened] \<and>
     mapped (procs st ! 1) = Some 0 \<and> mapped (procs st ! 2) = Some 1 \<and> path st = Some 1 \<and>
     count_set (files st ! 0) = Some 0x80000000 \<and> count_set (files st ! 1) = Some 1"
proof -
  let ?ls = "[(0, True), (1, True), (1, True), (1, True)] @ replicate 6 (0, True) @ replicate 8 (2, True) @ [(1, True)] :: (nat \<times> bool) list"
  have "case open_run ?ls (start_open [start_opener True False 0x80000000, start_opener True False 1, start_opener True False 1])
      of None \<Rightarrow> False | Some st \<Rightarrow> map at (procs st) = [OFailed EINVAL, OOpened, OOpened] \<and>
        mapped (procs st ! 1) = Some 0 \<and> mapped (procs st ! 2) = Some 1 \<and> path st = Some 1 \<and>
        count_set (files st ! 0) = Some 0x80000000 \<and> count_set (files st ! 1) = Some 1" by code_simp
  then have "\<exists>st. open_run ?ls (start_open [start_opener True False 0x80000000, start_opener True False 1, start_opener True False 1]) = Some st \<and>
      map at (procs st) = [OFailed EINVAL, OOpened, OOpened] \<and> mapped (procs st ! 1) = Some 0 \<and>
      mapped (procs st ! 2) = Some 1 \<and> path st = Some 1 \<and>
      count_set (files st ! 0) = Some 0x80000000 \<and> count_set (files st ! 1) = Some 1" by (rule case_option_Some)
  moreover have ok: "list_all snd ?ls" by (simp add: numeral_eq_Suc)
  ultimately show ?thesis by (elim exE) (rule exI [of _ ?ls], rule exI, rule conjI [OF ok])
qed

end
