(* ===== verification/IoSession.thy ===== *)
theory IoSession
  imports Prelude
begin

text \<open>
  \<open>Session\<close> of \<open>example/boost/asio/socket/iooperation/session.h\<close> and \<open>session.cpp\<close>: a send queue drained by
  \<open>async_write_some\<close>, a read of a whole buffer by repeated \<open>async_read_some\<close>, and the variant without a
  queue that keeps its only node in a member.  An operation that was started and has not completed
  is an element of \<open>writes\<close> or \<open>reads\<close>; a completion is a step that picks the number of bytes and runs
  the handler.
\<close>

section \<open>Message nodes\<close>

definition RECVSIZE :: int where
  "RECVSIZE = 1024"

record io_node =
  msg_bytes :: "byte list"
  total_len :: int
  cur_len :: int

text \<open>The conversion of a \<open>size_t\<close> to the \<open>int\<close> parameter of the constructor.\<close>

definition int_of_size :: "nat \<Rightarrow> int" where
  "int_of_size n = sint (word_of_nat n :: 32 word)"

definition MsgNode_of :: "byte list \<Rightarrow> int \<Rightarrow> io_node cxx" where
  "MsgNode_of m len =
     (if len < 0 then Throw BadArrayNewLength
      else if length m < nat len then UB
      else Ok \<lparr>msg_bytes = take (nat len) m, total_len = len, cur_len = 0\<rparr>)"

text \<open>\<open>fresh\<close> stands for what the new array happens to hold.\<close>

definition MsgNode_for :: "byte list \<Rightarrow> int \<Rightarrow> io_node cxx" where
  "MsgNode_for fresh len =
     (if len < 0 then Throw BadArrayNewLength
      else Ok \<lparr>msg_bytes = take (nat len) (fresh @ replicate (nat len) 0), total_len = len, cur_len = 0\<rparr>)"

text \<open>\<open>asio::buffer(msg_bytes + cur_len, total_len - cur_len)\<close>; a negative length is a huge one.\<close>

definition rest_of :: "io_node \<Rightarrow> byte list cxx" where
  "rest_of nd = (if cur_len nd \<le> total_len nd then Ok (drop (nat (cur_len nd)) (msg_bytes nd)) else UB)"

lemma int_of_size_small: "n < 2 ^ 31 \<Longrightarrow> int_of_size n = int n"
  by (simp add: int_of_size_def signed_of_nat signed_take_bit_int_eq_self)

lemma MsgNode_of_small: "length m < 2 ^ 31 \<Longrightarrow>
    MsgNode_of m (int_of_size (length m)) = Ok \<lparr>msg_bytes = m, total_len = int (length m), cur_len = 0\<rparr>"
  by (simp add: MsgNode_of_def int_of_size_small)

section \<open>Session\<close>

text \<open>
  A write covers bytes of a node, or of the caller's string (\<open>from_caller\<close>).  A read has the offset
  and the room of its buffer and says which handler it has.  \<open>on_wire\<close> and \<open>given\<close> are histories.
\<close>

record io_write =
  from_caller :: bool
  covered :: "byte list"

record io_read =
  read_all :: bool
  offset :: int
  room :: int

record io_session =
  send_queue :: "io_node list"
  send_pending :: bool
  writes :: "io_write list"
  recv_node :: "io_node option"
  recv_pending :: bool
  reads :: "io_read list"
  on_wire :: "byte list"
  given :: "byte list"

definition new_io_session :: io_session where
  "new_io_session =
     \<lparr>send_queue = [], send_pending = False, writes = [], recv_node = None, recv_pending = False, reads = [],
      on_wire = [], given = []\<rparr>"

subsection \<open>Writing\<close>

definition WriteToSocket :: "byte list \<Rightarrow> io_session \<Rightarrow> io_session cxx" where
  "WriteToSocket buf st =
     cxx_bind (MsgNode_of buf (int_of_size (length buf))) (\<lambda>nd.
       let st' = st\<lparr>send_queue := send_queue st @ [nd], given := given st @ buf\<rparr> in
       if send_pending st then Ok st'
       else Ok (st'\<lparr>writes := writes st @ [\<lparr>from_caller = True, covered = buf\<rparr>], send_pending := True\<rparr>))"

text \<open>\<open>async_write_some\<close> on what is left of the front node.\<close>

definition write_rest :: "io_session \<Rightarrow> io_session cxx" where
  "write_rest st =
     (case send_queue st of
        [] \<Rightarrow> UB
      | nd # _ \<Rightarrow> cxx_bind (rest_of nd) (\<lambda>d. Ok (st\<lparr>writes := writes st @ [\<lparr>from_caller = False, covered = d\<rparr>]\<rparr>)))"

definition WriteCallBack :: "bool \<Rightarrow> nat \<Rightarrow> io_session \<Rightarrow> io_session cxx" where
  "WriteCallBack ec bytes_transferred st =
     (if ec then Ok st
      else case send_queue st of
        [] \<Rightarrow> UB
      | nd # rest \<Rightarrow>
          let nd' = nd\<lparr>cur_len := cur_len nd + int bytes_transferred\<rparr> in
          if cur_len nd' < total_len nd' then write_rest (st\<lparr>send_queue := nd' # rest\<rparr>)
          else if rest = [] then Ok (st\<lparr>send_queue := [], send_pending := False\<rparr>)
          else write_rest (st\<lparr>send_queue := rest\<rparr>))"

text \<open>
  The handler of the variant with \<open>async_send\<close>: it takes the front node for sent, however many bytes
  were transferred.  (\<open>WriteAllToSocket\<close>, which would start it, is declared and never defined.)
\<close>

definition WriteAllCallBack :: "bool \<Rightarrow> nat \<Rightarrow> io_session \<Rightarrow> io_session cxx" where
  "WriteAllCallBack ec bytes_transferred st =
     (if ec then Ok st
      else case send_queue st of
        [] \<Rightarrow> UB
      | nd # rest \<Rightarrow>
          if rest = [] then Ok (st\<lparr>send_queue := [], send_pending := False\<rparr>)
          else write_rest (st\<lparr>send_queue := rest\<rparr>))"

text \<open>
  The completion of the oldest write, with handler \<open>h\<close>: with an error, or with \<open>k\<close> bytes, at least one
  unless the buffer is empty.  \<open>alive\<close> says whether the caller's string still exists.
\<close>

definition write_completes :: "(bool \<Rightarrow> nat \<Rightarrow> io_session \<Rightarrow> io_session cxx) \<Rightarrow> bool \<Rightarrow> bool \<Rightarrow> nat \<Rightarrow> io_session \<Rightarrow> io_session cxx option" where
  "write_completes h ec alive k st =
     (case writes st of
        [] \<Rightarrow> None
      | w # ws \<Rightarrow>
          if from_caller w \<and> \<not> alive then Some UB
          else if ec then Some (h True 0 (st\<lparr>writes := ws\<rparr>))
          else if k \<le> length (covered w) \<and> (k = 0 \<longleftrightarrow> covered w = [])
          then Some (h False k (st\<lparr>writes := ws, on_wire := on_wire st @ take k (covered w)\<rparr>))
          else None)"

subsection \<open>Reading\<close>

definition ReadFromSocket :: "byte list \<Rightarrow> io_session \<Rightarrow> io_session cxx" where
  "ReadFromSocket fresh st =
     (if recv_pending st then Ok st
      else cxx_bind (MsgNode_for fresh RECVSIZE) (\<lambda>nd. Ok
        (st\<lparr>recv_node := Some nd, reads := reads st @ [\<lparr>read_all = False, offset = 0, room = total_len nd\<rparr>],
            recv_pending := True\<rparr>)))"

definition ReadAllFromSocket :: "byte list \<Rightarrow> io_session \<Rightarrow> io_session cxx" where
  "ReadAllFromSocket fresh st =
     (if recv_pending st then Ok st
      else cxx_bind (MsgNode_for fresh RECVSIZE) (\<lambda>nd. Ok
        (st\<lparr>recv_node := Some nd, reads := reads st @ [\<lparr>read_all = True, offset = 0, room = total_len nd\<rparr>],
            recv_pending := True\<rparr>)))"

text \<open>Neither handler looks at the error code.\<close>

definition ReadCallBack :: "nat \<Rightarrow> io_session \<Rightarrow> io_session cxx" where
  "ReadCallBack bytes_transferred st =
     (case recv_node st of
        None \<Rightarrow> UB
      | Some nd \<Rightarrow>
          let nd' = nd\<lparr>cur_len := cur_len nd + int bytes_transferred\<rparr> in
          if cur_len nd' < total_len nd'
          then Ok (st\<lparr>recv_node := Some nd',
                 reads := reads st @ [\<lparr>read_all = False, offset = cur_len nd', room = total_len nd' - cur_len nd'\<rparr>]\<rparr>)
          else Ok (st\<lparr>recv_node := None, recv_pending := False\<rparr>))"

definition ReadAllCallBack :: "nat \<Rightarrow> io_session \<Rightarrow> io_session cxx" where
  "ReadAllCallBack bytes_transferred st =
     (case recv_node st of None \<Rightarrow> UB | Some nd \<Rightarrow> Ok (st\<lparr>recv_node := None, recv_pending := False\<rparr>))"

text \<open>The oldest read receives \<open>bs\<close>; no bytes stand for the end of the stream or an error.\<close>

definition read_done :: "byte list \<Rightarrow> io_session \<Rightarrow> io_session cxx option" where
  "read_done bs st =
     (case (reads st, recv_node st) of
        (r # rs, Some nd) \<Rightarrow>
          if int (length bs) \<le> room r
          then Some (cxx_bind (memcpy_at (msg_bytes nd) (offset r) bs (length bs)) (\<lambda>m.
                 (if read_all r then ReadAllCallBack else ReadCallBack) (length bs)
                   (st\<lparr>reads := rs, recv_node := Some (nd\<lparr>msg_bytes := m\<rparr>)\<rparr>)))
          else None
      | _ \<Rightarrow> None)"

fun read_run :: "byte list list \<Rightarrow> io_session \<Rightarrow> io_session cxx option" where
  "read_run [] st = Some (Ok st)"
| "read_run (bs # bss) st =
     (case read_done bs st of Some (Ok st') \<Rightarrow> read_run bss st' | r \<Rightarrow> r)"

section \<open>The queue is sent in order, each byte once\<close>

text \<open>
  Calls, and completions of writes, failed ones too; a completion on a string of the caller that is gone is
  undefined and has no next state.  In a good run no write fails and the callers keep their strings.
\<close>

inductive io_step :: "io_session \<Rightarrow> io_session \<Rightarrow> bool" where
  io_call: "length buf < 2 ^ 31 \<Longrightarrow> WriteToSocket buf st = Ok st' \<Longrightarrow> io_step st st'"
| io_done: "write_completes WriteCallBack ec alive k st = Some (Ok st') \<Longrightarrow> io_step st st'"

inductive io_good_step :: "io_session \<Rightarrow> io_session \<Rightarrow> bool" where
  io_good_call: "length buf < 2 ^ 31 \<Longrightarrow> WriteToSocket buf st = Ok st' \<Longrightarrow> io_good_step st st'"
| io_good_done: "write_completes WriteCallBack False True k st = Some (Ok st') \<Longrightarrow> io_good_step st st'"

definition unsent :: "io_node list \<Rightarrow> byte list" where
  "unsent q = concat (map (\<lambda>nd. drop (nat (cur_len nd)) (msg_bytes nd)) q)"

fun io_todo :: "io_node list \<Rightarrow> nat" where
  "io_todo [] = 0"
| "io_todo (nd # q) = Suc (length (msg_bytes nd) - nat (cur_len nd)) + io_todo q"

lemma unsent_simps [simp]:
  "unsent [] = []" "unsent (nd # q) = drop (nat (cur_len nd)) (msg_bytes nd) @ unsent q" "unsent (q @ r) = unsent q @ unsent r"
  by (simp_all add: unsent_def)

lemma io_todo_append [simp]: "io_todo (q @ r) = io_todo q + io_todo r"
  by (induction q) auto

text \<open>The front node may be partly sent, the others are untouched; the one write covers its rest.\<close>

definition io_node_ok :: "io_node \<Rightarrow> bool" where
  "io_node_ok nd \<longleftrightarrow> total_len nd = int (length (msg_bytes nd)) \<and> 0 \<le> cur_len nd \<and>
     (cur_len nd < total_len nd \<or> cur_len nd = 0)"

definition io_inv :: "io_session \<Rightarrow> bool" where
  "io_inv st \<longleftrightarrow>
     (\<forall>nd\<in>set (send_queue st). io_node_ok nd) \<and> (\<forall>nd\<in>set (tl (send_queue st)). cur_len nd = 0) \<and>
     (send_pending st \<longleftrightarrow> send_queue st \<noteq> []) \<and>
     (case send_queue st of
        [] \<Rightarrow> writes st = []
      | nd # _ \<Rightarrow> \<exists>c. writes st = [\<lparr>from_caller = c, covered = drop (nat (cur_len nd)) (msg_bytes nd)\<rparr>]) \<and>
     given st = on_wire st @ unsent (send_queue st)"

lemma write_rest_ok: "send_queue st = nd # q \<Longrightarrow> io_node_ok nd \<Longrightarrow>
    write_rest st = Ok (st\<lparr>writes := writes st @ [\<lparr>from_caller = False, covered = drop (nat (cur_len nd)) (msg_bytes nd)\<rparr>]\<rparr>)"
  by (auto simp: write_rest_def rest_of_def io_node_ok_def cxx_simps)

lemma io_call_inv: "io_inv st \<Longrightarrow> length buf < 2 ^ 31 \<Longrightarrow> \<exists>st'. WriteToSocket buf st = Ok st' \<and> io_inv st'"
  by (cases "send_queue st")
    (auto simp: WriteToSocket_def MsgNode_of_small cxx_simps io_inv_def io_node_ok_def Let_def)

lemma drop_take_drop: "k \<le> length (drop n xs) \<Longrightarrow> take k (drop n xs) @ drop (n + k) xs = drop n xs"
  by (metis append_take_drop_id drop_drop add.commute)

lemma io_done_inv:
  assumes "io_inv st" "write_completes WriteCallBack False True k st = Some r"
  shows "\<exists>st'. r = Ok st' \<and> io_inv st' \<and> io_todo (send_queue st') < io_todo (send_queue st)"
proof -
  obtain nd q c where q: "send_queue st = nd # q"
      and w: "writes st = [\<lparr>from_caller = c, covered = drop (nat (cur_len nd)) (msg_bytes nd)\<rparr>]"
    using assms by (auto simp: io_inv_def write_completes_def split: list.splits)
  have nd: "io_node_ok nd" "\<forall>x\<in>set q. io_node_ok x \<and> cur_len x = 0" "send_pending st"
      "given st = on_wire st @ unsent (nd # q)"
    using assms(1) q by (auto simp: io_inv_def)
  define nd' where "nd' = nd\<lparr>cur_len := cur_len nd + int k\<rparr>"
  define st1 where "st1 = st\<lparr>writes := [], on_wire := on_wire st @ take k (drop (nat (cur_len nd)) (msg_bytes nd))\<rparr>"
  have k: "k \<le> length (msg_bytes nd) - nat (cur_len nd)" "k = 0 \<longleftrightarrow> length (msg_bytes nd) \<le> nat (cur_len nd)"
      and r: "r = WriteCallBack False k st1"
    using assms(2) w by (auto simp: write_completes_def st1_def split: if_splits)
  have wire: "given st = on_wire st1 @ drop (nat (cur_len nd')) (msg_bytes nd') @ unsent q"
    using nd(1,4) k(1) drop_take_drop [of k "nat (cur_len nd)" "msg_bytes nd"]
    by (simp add: st1_def nd'_def io_node_ok_def nat_add_distrib del: append_assoc flip: append_assoc)
      (simp add: append_assoc)
  show ?thesis
  proof (cases "cur_len nd' < total_len nd'")
    case True
    then have ok: "io_node_ok nd'" using nd(1) by (auto simp: nd'_def io_node_ok_def)
    have "k \<noteq> 0" using True k(2) nd(1) by (auto simp: nd'_def io_node_ok_def)
    moreover have "r = Ok (st1\<lparr>send_queue := nd' # q,
        writes := [\<lparr>from_caller = False, covered = drop (nat (cur_len nd')) (msg_bytes nd')\<rparr>]\<rparr>)"
      using True q r write_rest_ok [OF _ ok, of "st1\<lparr>send_queue := nd' # q\<rparr>" q]
      by (simp add: WriteCallBack_def nd'_def st1_def Let_def)
    ultimately show ?thesis
      using ok nd(2,3) wire q k nd(1) by (auto simp: io_inv_def st1_def nd'_def io_node_ok_def)
  next
    case False
    then have gone: "drop (nat (cur_len nd')) (msg_bytes nd') = []"
      using nd(1) by (auto simp: nd'_def io_node_ok_def)
    show ?thesis
    proof (cases q)
      case Nil
      then have "r = Ok (st1\<lparr>send_queue := [], send_pending := False\<rparr>)"
        using False q r by (simp add: WriteCallBack_def nd'_def st1_def Let_def)
      then show ?thesis using wire gone Nil q by (simp add: io_inv_def st1_def)
    next
      case (Cons x q')
      then have x: "io_node_ok x" using nd(2) by simp
      have "r = Ok (st1\<lparr>send_queue := q, writes := [\<lparr>from_caller = False, covered = drop (nat (cur_len x)) (msg_bytes x)\<rparr>]\<rparr>)"
        using False q r Cons write_rest_ok [OF _ x, of "st1\<lparr>send_queue := q\<rparr>" q']
        by (simp add: WriteCallBack_def nd'_def st1_def Let_def)
      then show ?thesis using wire gone nd(2,3) q Cons by (auto simp: io_inv_def st1_def)
    qed
  qed
qed

interpretation io_inv: step_invariant "\<lambda>st. st = new_io_session" io_good_step io_inv
proof unfold_locales
  fix st st' assume "io_inv st" "io_good_step st st'"
  then show "io_inv st'"
  proof (cases rule: io_good_step.cases [OF \<open>io_good_step st st'\<close>])
    case (1 buf)
    then show ?thesis using io_call_inv [OF \<open>io_inv st\<close>] by fastforce
  next
    case (2 k)
    then show ?thesis using io_done_inv [OF \<open>io_inv st\<close>] by fastforce
  qed
qed (simp add: io_inv_def new_io_session_def)

text \<open>With failed writes: the state is as in a good run, or a write has failed, nothing is armed and the queue not empty.\<close>

definition io_any_inv :: "io_session \<Rightarrow> bool" where
  "io_any_inv st \<longleftrightarrow> io_inv st \<or> writes st = [] \<and> send_queue st \<noteq> [] \<and> (\<exists>w. io_inv (st\<lparr>writes := w\<rparr>))"

lemma io_alive: "write_completes h ec alive k st = Some (Ok st') \<Longrightarrow> write_completes h ec True k st = Some (Ok st')"
  by (auto simp: write_completes_def split: list.splits if_splits)

lemma io_stalled_call:
  assumes "writes st = []" "send_queue st \<noteq> []" "io_inv (st\<lparr>writes := w\<rparr>)" "length buf < 2 ^ 31" "WriteToSocket buf st = Ok st'"
  shows "writes st' = [] \<and> send_queue st' \<noteq> [] \<and> (\<exists>w. io_inv (st'\<lparr>writes := w\<rparr>))"
proof -
  have p: "send_pending st" using assms(2,3) by (simp add: io_inv_def)
  obtain st2 where st2: "WriteToSocket buf (st\<lparr>writes := w\<rparr>) = Ok st2" "io_inv st2"
    using io_call_inv [OF assms(3,4)] by blast
  moreover have "st2 = st'\<lparr>writes := w\<rparr>" "writes st' = []" "send_queue st' \<noteq> []"
    using st2(1) assms(1,5) p by (auto simp: WriteToSocket_def cxx_bind_eq_Ok Let_def)
  ultimately show ?thesis by auto
qed

lemma io_failed_write:
  assumes "io_inv st" "write_completes WriteCallBack True True k st = Some r"
  shows "r = Ok (st\<lparr>writes := []\<rparr>) \<and> send_queue st \<noteq> []"
  using assms by (auto simp: io_inv_def write_completes_def WriteCallBack_def split: list.splits)

interpretation io_any: step_invariant "\<lambda>st. st = new_io_session" io_step io_any_inv
proof unfold_locales
  show "io_any_inv st" if "st = new_io_session" for st
    using that by (simp add: io_any_inv_def io_inv_def new_io_session_def)
  fix st st' assume inv: "io_any_inv st" and step: "io_step st st'"
  show "io_any_inv st'" using step
  proof cases
    case (io_call buf)
    then show ?thesis using inv io_call_inv [of st buf] io_stalled_call [of st _ buf st'] by (auto simp: io_any_inv_def)
  next
    case (io_done ec alive k)
    then have ex: "write_completes WriteCallBack ec True k st = Some (Ok st')" by (rule io_alive)
    then have good: "io_inv st" using inv by (auto simp: io_any_inv_def write_completes_def)
    show ?thesis
    proof (cases ec)
      case True
      then have "st' = st\<lparr>writes := []\<rparr>" "send_queue st \<noteq> []" using io_failed_write [OF good] ex by auto
      moreover have "\<exists>w. io_inv (st'\<lparr>writes := w\<rparr>)" using good calculation(1) by (intro exI [of _ "writes st"]) simp
      ultimately show ?thesis unfolding io_any_inv_def by simp
    next
      case False
      then show ?thesis using io_done_inv [OF good, of k "Ok st'"] ex by (auto simp: io_any_inv_def)
    qed
  qed
qed

text \<open>
  C27: \<open>Session\<close> puts the messages it is given (each below 2 GB) on the wire in order, each byte once: in every
  reachable state, with failed writes or without, what was given is what was sent followed by what the queue still
  holds, and at most one write is armed.  In runs in which no write fails and callers keep their strings, one
  write is armed exactly while the queue is not empty, every completion succeeds and brings the queue closer to
  empty, and some completion is always possible until then.  A failed write leaves the queue with nothing armed,
  and no later call arms anything.  A write that is on the string of the caller is undefined when the string is
  gone.
\<close>

theorem io_session_delivers:
  assumes "reachable (\<lambda>st. st = new_io_session) io_step st" "reachable (\<lambda>st. st = new_io_session) io_good_step good"
  shows "given st = on_wire st @ unsent (send_queue st) \<and> length (writes st) \<le> 1 \<and>
    (writes st = [] \<and> send_queue st \<noteq> [] \<and> length buf < 2 ^ 31 \<and> WriteToSocket buf st = Ok st' \<longrightarrow>
       writes st' = [] \<and> send_queue st' \<noteq> []) \<and>
    (writes st \<noteq> [] \<longrightarrow> write_completes WriteCallBack True True k st = Some (Ok (st\<lparr>writes := []\<rparr>)) \<and> send_queue st \<noteq> []) \<and>
    (writes st = [w] \<and> from_caller w \<longrightarrow> write_completes WriteCallBack ec False k st = Some UB) \<and>
    (send_pending good \<longleftrightarrow> send_queue good \<noteq> []) \<and>
    length (writes good) = (if send_queue good = [] then 0 else 1) \<and>
    (write_completes WriteCallBack False True k good = Some r \<longrightarrow>
       (\<exists>st'. r = Ok st' \<and> io_todo (send_queue st') < io_todo (send_queue good))) \<and>
    (send_queue good \<noteq> [] \<longrightarrow>
       write_completes WriteCallBack False True (length (covered (hd (writes good)))) good \<noteq> None)"
proof (intro conjI impI)
  have any: "io_any_inv st" using assms(1) by (rule io_any.reachable_inv)
  then show "given st = on_wire st @ unsent (send_queue st)" "length (writes st) \<le> 1"
    by (auto simp: io_any_inv_def io_inv_def split: list.splits)
  show "writes st' = []" "send_queue st' \<noteq> []"
    if "writes st = [] \<and> send_queue st \<noteq> [] \<and> length buf < 2 ^ 31 \<and> WriteToSocket buf st = Ok st'"
  proof -
    note stalled = that
    obtain v where "io_inv (st\<lparr>writes := v\<rparr>)"
    proof (cases "io_inv st")
      case True
      then have "io_inv (st\<lparr>writes := writes st\<rparr>)" by simp
      then show thesis by (rule that)
    next
      case False
      then show thesis using any stalled that by (auto simp: io_any_inv_def)
    qed
    then show "writes st' = []" "send_queue st' \<noteq> []" using io_stalled_call [of st v buf st'] stalled by simp_all
  qed
  show "write_completes WriteCallBack True True k st = Some (Ok (st\<lparr>writes := []\<rparr>))" "send_queue st \<noteq> []"
    if "writes st \<noteq> []"
  proof -
    have inv: "io_inv st" using any that by (simp add: io_any_inv_def)
    have "\<exists>r. write_completes WriteCallBack True True k st = Some r"
      using that by (cases "writes st") (simp_all add: write_completes_def)
    then obtain r where "write_completes WriteCallBack True True k st = Some r" by blast
    with io_failed_write [OF inv] show "write_completes WriteCallBack True True k st = Some (Ok (st\<lparr>writes := []\<rparr>))"
      "send_queue st \<noteq> []" by blast+
  qed
  show "write_completes WriteCallBack ec False k st = Some UB" if "writes st = [w] \<and> from_caller w"
    using that by (simp add: write_completes_def)
  have inv: "io_inv good" using assms(2) by (rule io_inv.reachable_inv)
  show "send_pending good \<longleftrightarrow> send_queue good \<noteq> []" using inv by (simp add: io_inv_def)
  show "length (writes good) = (if send_queue good = [] then 0 else 1)"
    using inv by (auto simp: io_inv_def split: list.splits)
  show "\<exists>st'. r = Ok st' \<and> io_todo (send_queue st') < io_todo (send_queue good)"
    if "write_completes WriteCallBack False True k good = Some r" using io_done_inv [OF inv that] by blast
  show "write_completes WriteCallBack False True (length (covered (hd (writes good)))) good \<noteq> None" if "send_queue good \<noteq> []"
    using inv that by (auto simp: io_inv_def write_completes_def split: list.splits)
qed

lemma io_session_delivers_witness:
  "\<exists>st :: io_session. given st = [1, 2, 3] \<and> on_wire st = [1, 2] \<and> unsent (send_queue st) = [3] \<and> writes st = []"
proof -
  define st1 where "st1 = new_io_session\<lparr>send_queue := [\<lparr>msg_bytes = [1, 2, 3], total_len = 3, cur_len = 0\<rparr>],
    given := [1, 2, 3], writes := [\<lparr>from_caller = True, covered = [1, 2, 3]\<rparr>], send_pending := True\<rparr>"
  define st2 where "st2 = st1\<lparr>send_queue := [\<lparr>msg_bytes = [1, 2, 3], total_len = 3, cur_len = 2\<rparr>],
    on_wire := [1, 2], writes := [\<lparr>from_caller = False, covered = [3]\<rparr>]\<rparr>"
  have "WriteToSocket [1, 2, 3] new_io_session = Ok st1"
    using MsgNode_of_small [of "[1, 2, 3]"] by (simp add: WriteToSocket_def st1_def cxx_simps new_io_session_def)
  moreover have "write_completes WriteCallBack False True 2 st1 = Some (Ok st2)"
    by (simp add: write_completes_def st1_def st2_def WriteCallBack_def new_io_session_def write_rest_def rest_of_def cxx_simps
        numeral_2_eq_2)
  moreover have "write_completes WriteCallBack True False 0 st2 = Some (Ok (st2\<lparr>writes := []\<rparr>))"
    by (simp add: write_completes_def st2_def WriteCallBack_def)
  ultimately have steps: "io_step new_io_session st1" "io_step st1 st2" "io_step st2 (st2\<lparr>writes := []\<rparr>)"
    by (auto intro: io_call [of "[1, 2, 3]"] io_done)
  have "reachable (\<lambda>st. st = new_io_session) io_step new_io_session" by (rule reach_init) simp
  then have "reachable (\<lambda>st. st = new_io_session) io_step (st2\<lparr>writes := []\<rparr>)"
    using steps by (blast intro: reach_step)
  moreover have "reachable (\<lambda>st. st = new_io_session) io_good_step new_io_session" by (rule reach_init) simp
  ultimately show ?thesis
    using conjunct1 [OF io_session_delivers] by (intro exI [of _ "st2\<lparr>writes := []\<rparr>"]) (simp add: st2_def st1_def)
qed

end
