(* ===== verification/IoSessionReads.thy ===== *)
theory IoSessionReads
  imports IoSession
begin

text \<open>
  The rest of \<open>Session\<close> (\<open>iooperation/session.cpp\<close>): what the read handlers do with a stream, what a failed
  write leaves behind, and the \<open>Err\<close> variant, in which two messages in flight share the member \<open>_send_node\<close>.
\<close>

section \<open>Reading a whole buffer\<close>

text \<open>A read that is under way: \<open>got\<close> is in the buffer.\<close>

definition reading :: "byte list \<Rightarrow> io_session \<Rightarrow> bool" where
  "reading got st \<longleftrightarrow>
     (\<exists>nd. recv_node st = Some nd \<and> recv_pending st \<and> total_len nd = RECVSIZE \<and> int (length (msg_bytes nd)) = RECVSIZE \<and>
        cur_len nd = int (length got) \<and> int (length got) < RECVSIZE \<and> take (length got) (msg_bytes nd) = got \<and>
        reads st = [\<lparr>read_all = False, offset = int (length got), room = RECVSIZE - int (length got)\<rparr>])"

lemma ReadFromSocket_reading:
  assumes "\<not> recv_pending st" "reads st = []"
  obtains st' where "ReadFromSocket fresh st = Ok st'" "reading [] st'"
  using assms by (auto simp: ReadFromSocket_def MsgNode_for_def RECVSIZE_def cxx_simps reading_def)

lemma read_done_reading:
  assumes "reading got st" "int (length got + length bs) < RECVSIZE"
  shows "\<exists>st'. read_done bs st = Some (Ok st') \<and> reading (got @ bs) st'"
proof -
  obtain nd where nd: "recv_node st = Some nd" "recv_pending st" "total_len nd = RECVSIZE"
      "int (length (msg_bytes nd)) = RECVSIZE" "cur_len nd = int (length got)" "take (length got) (msg_bytes nd) = got"
      "reads st = [\<lparr>read_all = False, offset = int (length got), room = RECVSIZE - int (length got)\<rparr>]"
    using assms(1) by (auto simp: reading_def)
  have fits: "length got + length bs < length (msg_bytes nd)" using nd(4) assms(2) by linarith
  define m where "m = got @ bs @ drop (length got + length bs) (msg_bytes nd)"
  have "memcpy_at (msg_bytes nd) (int (length got)) bs (length bs) = Ok m"
    using fits nd(6) by (simp add: memcpy_at_def m_def)
  then have "read_done bs st = Some (Ok (st\<lparr>recv_node := Some (nd\<lparr>msg_bytes := m, cur_len := int (length (got @ bs))\<rparr>),
      reads := [\<lparr>read_all = False, offset = int (length (got @ bs)), room = RECVSIZE - int (length (got @ bs))\<rparr>]\<rparr>))"
    using nd assms(2) by (simp add: read_done_def ReadCallBack_def cxx_simps Let_def)
  moreover have "length m = length (msg_bytes nd)" using fits by (simp add: m_def)
  ultimately show ?thesis using nd assms(2) by (auto simp: reading_def m_def)
qed

lemma read_done_full:
  assumes "reading got st" "int (length got + length bs) = RECVSIZE"
  shows "\<exists>st'. read_done bs st = Some (Ok st') \<and> recv_node st' = None \<and> \<not> recv_pending st' \<and> reads st' = []"
proof -
  obtain nd where nd: "recv_node st = Some nd" "recv_pending st" "total_len nd = RECVSIZE"
      "int (length (msg_bytes nd)) = RECVSIZE" "cur_len nd = int (length got)"
      "reads st = [\<lparr>read_all = False, offset = int (length got), room = RECVSIZE - int (length got)\<rparr>]"
    using assms(1) by (auto simp: reading_def)
  have "length got + length bs \<le> length (msg_bytes nd)" using nd(4) assms(2) by linarith
  then show ?thesis using nd assms(2) by (auto simp: read_done_def ReadCallBack_def cxx_simps Let_def memcpy_at_def)
qed

lemma read_run_reading:
  "reading got st \<Longrightarrow> int (length got + length (concat bss)) < RECVSIZE \<Longrightarrow>
     \<exists>st'. read_run bss st = Some (Ok st') \<and> reading (got @ concat bss) st'"
proof (induction bss arbitrary: got st)
  case (Cons bs bss)
  then obtain st1 where "read_done bs st = Some (Ok st1)" "reading (got @ bs) st1"
    using read_done_reading [of got st bs] by auto
  then show ?case using Cons.IH [of "got @ bs" st1] Cons.prems by auto
qed simp

lemma eof_spins: "reading got st \<Longrightarrow> read_done [] st = Some (Ok st)"
proof -
  assume "reading got st"
  then obtain nd where nd: "recv_node st = Some nd" "total_len nd = RECVSIZE"
      "int (length (msg_bytes nd)) = RECVSIZE" "cur_len nd = int (length got)" "int (length got) < RECVSIZE"
      "take (length got) (msg_bytes nd) = got"
      "reads st = [\<lparr>read_all = False, offset = int (length got), room = RECVSIZE - int (length got)\<rparr>]"
    by (auto simp: reading_def)
  have "got @ drop (length got) (msg_bytes nd) = msg_bytes nd" using nd(6) by (metis append_take_drop_id)
  then have "read_done [] st = Some (Ok (st\<lparr>recv_node := Some (nd\<lparr>msg_bytes := msg_bytes nd, cur_len := cur_len nd\<rparr>), reads := reads st\<rparr>))"
    using nd by (simp add: read_done_def memcpy_at_def cxx_simps ReadCallBack_def Let_def)
  with nd(1) show ?thesis by simp
qed

lemma eofs_spin: "reading got st \<Longrightarrow> read_run (replicate k []) st = Some (Ok st)"
  by (induction k) (auto simp: eof_spins)

lemma read_run_append: "read_run bss st = Some (Ok st') \<Longrightarrow> read_run (bss @ cs) st = read_run cs st'"
proof (induction bss arbitrary: st)
  case (Cons bs bss)
  then obtain st1 where "read_done bs st = Some (Ok st1)" "read_run bss st1 = Some (Ok st')"
    by (auto split: option.splits cxx.splits)
  then show ?case using Cons.IH by simp
qed simp

text \<open>
  \<open>ReadFromSocket\<close> on an idle session collects the stream, however it is cut, until it has \<open>RECVSIZE\<close> bytes,
  and then throws them away and is idle again; no handler is ever given them.  If the stream
  ends or fails before, \<open>ReadCallBack\<close> starts the same read again, any number of times: the session never
  leaves that state.
\<close>

theorem io_session_reads:
  assumes "\<not> recv_pending st" "reads st = []" "ReadFromSocket fresh st = Ok st0" "bss \<noteq> []"
  shows "(int (length (concat bss)) < RECVSIZE \<longrightarrow>
           (\<exists>st1. read_run bss st0 = Some (Ok st1) \<and> reading (concat bss) st1 \<and>
              (\<forall>k. read_run (bss @ replicate k []) st0 = Some (Ok st1)))) \<and>
         (int (length (concat (butlast bss))) < RECVSIZE \<and> int (length (concat bss)) = RECVSIZE \<longrightarrow>
           (\<exists>st1. read_run bss st0 = Some (Ok st1) \<and> recv_node st1 = None \<and> \<not> recv_pending st1 \<and> reads st1 = []))"
proof (intro conjI impI)
  have start: "reading [] st0" using ReadFromSocket_reading [OF assms(1,2), of fresh] assms(3) by auto
  show "\<exists>st1. read_run bss st0 = Some (Ok st1) \<and> reading (concat bss) st1 \<and>
      (\<forall>k. read_run (bss @ replicate k []) st0 = Some (Ok st1))" if "int (length (concat bss)) < RECVSIZE"
    using read_run_reading [OF start, of bss] that by (auto simp: read_run_append eofs_spin)
  assume full: "int (length (concat (butlast bss))) < RECVSIZE \<and> int (length (concat bss)) = RECVSIZE"
  then obtain st1 where st1: "read_run (butlast bss) st0 = Some (Ok st1)" "reading (concat (butlast bss)) st1"
    using read_run_reading [OF start, of "butlast bss"] by auto
  have split: "bss = butlast bss @ [last bss]" using assms(4) by simp
  then have "concat bss = concat (butlast bss) @ last bss" by (metis concat.simps concat_append append_Nil2)
  then obtain st2 where "read_done (last bss) st1 = Some (Ok st2)" "recv_node st2 = None" "\<not> recv_pending st2" "reads st2 = []"
    using read_done_full [OF st1(2), of "last bss"] full by auto
  moreover from this have "read_run bss st0 = Some (Ok st2)"
    using split read_run_append [OF st1(1), of "[last bss]"] by simp
  ultimately show "\<exists>st1. read_run bss st0 = Some (Ok st1) \<and> recv_node st1 = None \<and> \<not> recv_pending st1 \<and> reads st1 = []"
    by blast
qed

lemma io_session_reads_witness:
  "\<exists>st0 st1 :: io_session. ReadFromSocket [] new_io_session = Ok st0 \<and> read_run [[7], []] st0 = Some (Ok st1) \<and> recv_pending st1"
proof -
  obtain st0 where st0: "ReadFromSocket [] new_io_session = Ok st0"
    using ReadFromSocket_reading [of new_io_session "[]"] by (auto simp: new_io_session_def)
  from io_session_reads [OF _ _ st0, of "[[7], []]"] obtain st1 :: io_session
    where "read_run [[7], []] st0 = Some (Ok st1)" "reading [7] st1"
    by (auto simp: new_io_session_def RECVSIZE_def)
  with st0 show ?thesis by (auto simp: reading_def)
qed

section \<open>After a failed write\<close>

lemma calls_after_failure:
  "send_pending st \<Longrightarrow> writes st = [] \<Longrightarrow> cxx_fold (\<lambda>s buf. WriteToSocket buf s) st bufs = Ok st' \<Longrightarrow>
     writes st' = [] \<and> on_wire st' = on_wire st \<and> send_pending st'"
proof (induction bufs arbitrary: st)
  case (Cons buf bufs)
  then obtain st1 where "WriteToSocket buf st = Ok st1" "cxx_fold (\<lambda>s buf. WriteToSocket buf s) st1 bufs = Ok st'"
    by (auto simp: cxx_bind_eq_Ok)
  moreover from this(1) have "send_pending st1" "writes st1 = []" "on_wire st1 = on_wire st"
    using Cons.prems by (auto simp: WriteToSocket_def cxx_bind_eq_Ok Let_def)
  ultimately show ?case using Cons.IH by simp
qed simp

text \<open>
  A failed write stops a \<open>Session\<close> for good: \<open>_send_pending\<close> stays set with no write armed, and whatever
  is passed to \<open>WriteToSocket\<close> afterwards only piles up in the queue.  And the first write of an idle
  session is on the caller's string, not on the node: if the string is gone when the
  write takes place, as with the temporary of \<open>async_write_data\<close>, the behaviour is undefined.
  The handler for \<open>async_send\<close> loses what a short send leaves.
\<close>

theorem io_session_write_faults:
  assumes "reachable (\<lambda>st. st = new_io_session) io_good_step st"
  shows "(send_queue st \<noteq> [] \<longrightarrow> (\<exists>st1. write_completes WriteCallBack True True k st = Some (Ok st1) \<and>
            (\<forall>bufs st2. cxx_fold (\<lambda>s buf. WriteToSocket buf s) st1 bufs = Ok st2 \<longrightarrow>
               on_wire st2 = on_wire st \<and> (\<forall>ec j. write_completes WriteCallBack ec True j st2 = None)))) \<and>
         (send_queue st = [] \<and> length buf < 2 ^ 31 \<longrightarrow>
            (\<exists>st1. WriteToSocket buf st = Ok st1 \<and> write_completes WriteCallBack ec False j st1 = Some UB)) \<and>
         (\<forall>nd q st1. send_queue st = nd # q \<and> write_completes WriteAllCallBack False True k st = Some (Ok st1) \<longrightarrow>
            send_queue st1 = q \<and> on_wire st1 = on_wire st @ take k (unsent [nd]))"
proof (intro conjI allI impI)
  have inv: "io_inv st" using assms by (rule io_inv.reachable_inv)
  show "\<exists>st1. write_completes WriteCallBack True True k st = Some (Ok st1) \<and>
      (\<forall>bufs st2. cxx_fold (\<lambda>s buf. WriteToSocket buf s) st1 bufs = Ok st2 \<longrightarrow>
        on_wire st2 = on_wire st \<and> (\<forall>ec j. write_completes WriteCallBack ec True j st2 = None))" if q: "send_queue st \<noteq> []"
  proof (rule exI [of _ "st\<lparr>writes := []\<rparr>"], intro conjI allI impI)
    show "write_completes WriteCallBack True True k st = Some (Ok (st\<lparr>writes := []\<rparr>))"
      using inv q by (auto simp: io_inv_def write_completes_def WriteCallBack_def split: list.splits)
    fix bufs st2 assume run: "cxx_fold (\<lambda>s buf. WriteToSocket buf s) (st\<lparr>writes := []\<rparr>) bufs = Ok st2"
    have "send_pending (st\<lparr>writes := []\<rparr>)" using inv q by (simp add: io_inv_def)
    from calls_after_failure [OF this _ run]
    show "on_wire st2 = on_wire st" "write_completes WriteCallBack ec True j st2 = None" for ec j
      by (simp_all add: write_completes_def)
  qed
  show "send_queue st1 = q" "on_wire st1 = on_wire st @ take k (unsent [nd])"
    if "send_queue st = nd # q \<and> write_completes WriteAllCallBack False True k st = Some (Ok st1)" for nd q st1
    using inv that
    by (auto simp: io_inv_def write_completes_def WriteAllCallBack_def write_rest_def cxx_bind_eq_Ok split: if_splits list.splits)
  assume "send_queue st = [] \<and> length buf < 2 ^ 31"
  then show "\<exists>st1. WriteToSocket buf st = Ok st1 \<and> write_completes WriteCallBack ec False j st1 = Some UB"
    using inv by (auto simp: io_inv_def WriteToSocket_def MsgNode_of_small cxx_simps write_completes_def Let_def)
qed

lemma io_session_write_faults_witness:
  "\<exists>st1 :: io_session. WriteToSocket [72, 105] new_io_session = Ok st1 \<and>
     write_completes WriteCallBack False False 2 st1 = Some UB"
  using conjunct1 [OF conjunct2 [OF io_session_write_faults [of new_io_session, OF reach_init [of "\<lambda>st. st = new_io_session", OF refl]],
      of "[72, 105]" False 2]]
  by (simp add: new_io_session_def)

section \<open>The Err variant\<close>

text \<open>
  \<open>nodes\<close> are the nodes made so far, \<open>send_node\<close> the index of the one in the member \<open>_send_node\<close>.  A write
  holds the index its handler was bound to, which is also the node its buffer is in.
\<close>

record err_session =
  nodes :: "io_node list"
  send_node :: nat
  err_writes :: "(nat \<times> byte list) list"
  err_wire :: "byte list"

definition new_err_session :: err_session where
  "new_err_session = \<lparr>nodes = [], send_node = 0, err_writes = [], err_wire = []\<rparr>"

definition WriteToSocketErr :: "byte list \<Rightarrow> err_session \<Rightarrow> err_session cxx" where
  "WriteToSocketErr buf st =
     cxx_bind (MsgNode_of buf (int_of_size (length buf))) (\<lambda>nd. cxx_bind (rest_of nd) (\<lambda>d. Ok
       (st\<lparr>nodes := nodes st @ [nd], send_node := length (nodes st),
           err_writes := err_writes st @ [(length (nodes st), d)]\<rparr>)))"

definition WriteCallBackErr :: "nat \<Rightarrow> nat \<Rightarrow> err_session \<Rightarrow> err_session cxx" where
  "WriteCallBackErr bytes_transferred msg_node st =
     (let nd = nodes st ! msg_node in
      if int bytes_transferred + cur_len nd < total_len nd then
        let sn = nodes st ! send_node st; sn' = sn\<lparr>cur_len := cur_len sn + int bytes_transferred\<rparr> in
        cxx_bind (rest_of sn') (\<lambda>d. Ok
          (st\<lparr>nodes := (nodes st)[send_node st := sn'], err_writes := err_writes st @ [(send_node st, d)]\<rparr>))
      else Ok st)"

text \<open>The \<open>i\<close>-th of the writes under way transfers \<open>k\<close> bytes.\<close>

definition err_done :: "nat \<Rightarrow> nat \<Rightarrow> err_session \<Rightarrow> err_session cxx option" where
  "err_done i k st =
     (if i < length (err_writes st) \<and> k \<le> length (snd (err_writes st ! i)) \<and> (k = 0 \<longleftrightarrow> snd (err_writes st ! i) = [])
      then Some (WriteCallBackErr k (fst (err_writes st ! i))
             (st\<lparr>err_writes := take i (err_writes st) @ drop (Suc i) (err_writes st),
                 err_wire := err_wire st @ take k (snd (err_writes st ! i))\<rparr>))
      else None)"

datatype err_event = ErrCall "byte list" | ErrDone nat nat

fun err_run :: "err_event list \<Rightarrow> err_session \<Rightarrow> err_session cxx option" where
  "err_run [] st = Some (Ok st)"
| "err_run (ErrCall buf # es) st =
     (case WriteToSocketErr buf st of Ok st' \<Rightarrow> err_run es st' | r \<Rightarrow> Some r)"
| "err_run (ErrDone i k # es) st =
     (case err_done i k st of Some (Ok st') \<Rightarrow> err_run es st' | r \<Rightarrow> r)"

text \<open>One message alone: the state after \<open>n\<close> of its bytes.\<close>

definition err_alone :: "byte list \<Rightarrow> nat \<Rightarrow> err_session \<Rightarrow> bool" where
  "err_alone buf n st \<longleftrightarrow> n \<le> length buf \<and> err_wire st = take n buf \<and> send_node st = 0 \<and>
     (\<exists>c. nodes st = [\<lparr>msg_bytes = buf, total_len = int (length buf), cur_len = int c\<rparr>] \<and>
        (n < length buf \<and> c = n \<and> err_writes st = [(0, drop n buf)] \<or> n = length buf \<and> err_writes st = []))"

lemma err_done_alone:
  assumes "err_alone buf n st" "err_done 0 k st = Some r"
  shows "n + k \<le> length buf \<and> (\<exists>st'. r = Ok st' \<and> err_alone buf (n + k) st')"
proof -
  have w: "err_writes st = [(0, drop n buf)]" "n < length buf" "err_wire st = take n buf" "send_node st = 0"
      "nodes st = [\<lparr>msg_bytes = buf, total_len = int (length buf), cur_len = int n\<rparr>]"
    using assms by (auto simp: err_alone_def err_done_def)
  have k: "k \<le> length buf - n" and r: "r = WriteCallBackErr k 0
      (st\<lparr>err_writes := [], err_wire := take (n + k) buf\<rparr>)"
    using assms(2) w by (auto simp: err_done_def take_add split: if_splits)
  show ?thesis
  proof (cases "n + k < length buf")
    case True
    then show ?thesis using w r
      by (auto simp: WriteCallBackErr_def rest_of_def cxx_simps err_alone_def Let_def nat_add_distrib)
  next
    case False
    then show ?thesis using w r k by (auto simp: WriteCallBackErr_def err_alone_def)
  qed
qed

lemma err_run_alone:
  "err_alone buf n st \<Longrightarrow> err_run (map (ErrDone 0) ks) st = Some r \<Longrightarrow>
     \<exists>st'. r = Ok st' \<and> err_alone buf (n + sum_list ks) st'"
proof (induction ks arbitrary: n st)
  case (Cons k ks)
  then obtain r1 where r1: "err_done 0 k st = Some r1" by (auto split: option.splits)
  from err_done_alone [OF Cons.prems(1) this] obtain st1 where "r1 = Ok st1" "err_alone buf (n + k) st1" by blast
  then show ?case using Cons.IH [of "n + k" st1] Cons.prems(2) r1 by (simp add: add.assoc)
qed auto

text \<open>
  \<open>WriteToSocketErr\<close> sends one message alone correctly, whatever parts the writes transfer: after \<open>n\<close> bytes the
  wire has the first \<open>n\<close>, and nothing is armed at the end.  With a second message before the first is out it
  goes wrong: a byte of the first message is never sent and one of the second sent twice, or the
  rest of the second message has negative length.
\<close>

theorem io_session_err_variant:
  "(\<forall>buf ks r. buf \<noteq> [] \<and> length buf < 2 ^ 31 \<and> err_run (ErrCall buf # map (ErrDone 0) ks) new_err_session = Some r \<longrightarrow>
      (\<exists>st. r = Ok st \<and> sum_list ks \<le> length buf \<and> err_wire st = take (sum_list ks) buf \<and>
         (sum_list ks = length buf \<longrightarrow> err_writes st = []))) \<and>
   (\<exists>st. err_run [ErrCall [1, 2], ErrCall [3, 4], ErrDone 0 1, ErrDone 0 2, ErrDone 0 1] new_err_session = Some (Ok st) \<and>
      err_writes st = [] \<and> err_wire st = [1, 3, 4, 4]) \<and>
   err_run [ErrCall [1, 2, 3, 4], ErrCall [5], ErrDone 0 2] new_err_session = Some UB"
proof (intro conjI allI impI)
  fix buf :: "byte list" and ks r
  assume a: "buf \<noteq> [] \<and> length buf < 2 ^ 31 \<and> err_run (ErrCall buf # map (ErrDone 0) ks) new_err_session = Some r"
  have "\<exists>st0. WriteToSocketErr buf new_err_session = Ok st0 \<and> err_alone buf 0 st0"
    using a by (simp add: WriteToSocketErr_def MsgNode_of_small rest_of_def cxx_simps new_err_session_def err_alone_def)
  then obtain st0 where "WriteToSocketErr buf new_err_session = Ok st0" "err_alone buf 0 st0" by blast
  with a have "\<exists>st'. r = Ok st' \<and> err_alone buf (0 + sum_list ks) st'" by (intro err_run_alone [of buf 0 st0]) auto
  then show "\<exists>st. r = Ok st \<and> sum_list ks \<le> length buf \<and> err_wire st = take (sum_list ks) buf \<and>
         (sum_list ks = length buf \<longrightarrow> err_writes st = [])"
    by (auto simp: err_alone_def)
next
  have "case err_run [ErrCall [1, 2], ErrCall [3, 4], ErrDone 0 1, ErrDone 0 2, ErrDone 0 1] new_err_session of
      Some (Ok st) \<Rightarrow> err_writes st = [] \<and> err_wire st = [1, 3, 4, 4] | _ \<Rightarrow> False"
    by code_simp
  then show "\<exists>st. err_run [ErrCall [1, 2], ErrCall [3, 4], ErrDone 0 1, ErrDone 0 2, ErrDone 0 1] new_err_session = Some (Ok st) \<and>
      err_writes st = [] \<and> err_wire st = [1, 3, 4, 4]"
    by (rule case_Some_Ok)
  show "err_run [ErrCall [1, 2, 3, 4], ErrCall [5], ErrDone 0 2] new_err_session = Some UB" by code_simp
qed

lemma io_session_err_variant_witness:
  "\<exists>st :: err_session. err_wire st = [8, 9] \<and> err_writes st = []"
proof -
  have "err_run (ErrCall [8, 9] # map (ErrDone 0) [1, 1]) new_err_session \<noteq> None" by code_simp
  then obtain r where r: "err_run (ErrCall [8, 9] # map (ErrDone 0) [1, 1]) new_err_session = Some r" by blast
  have "\<exists>st. r = Ok st \<and> sum_list [1, 1 :: nat] \<le> length [8, 9 :: byte] \<and> err_wire st = take (sum_list [1, 1]) [8, 9] \<and>
      (sum_list [1, 1] = length [8, 9 :: byte] \<longrightarrow> err_writes st = [])"
    using r by (intro conjunct1 [OF io_session_err_variant, rule_format]) simp
  then obtain st :: err_session where "err_wire st = [8, 9]" "err_writes st = []" by auto
  then show ?thesis by blast
qed

end
