(* ===== verification/SyncIo.thy ===== *)
theory SyncIo
  imports Prelude
begin

text \<open>
  The synchronous examples of \<open>example/boost/asio/socket/iooperation/connection.cpp\<close>: sending and receiving
  with loops of \<open>write_some\<close> and \<open>read_some\<close>, with single calls, and with \<open>read_until\<close>.  What the socket
  does is a list of outcomes, one per call; \<open>None\<close> means that the code still waits after the last of them.
\<close>

section \<open>Outcomes of socket calls\<close>

text \<open>A call gives the number of bytes, or throws \<open>system_error\<close> with a code that is not 0.\<close>

datatype 'a io_outcome = Did 'a | SysError int

text \<open>The calls of a \<open>try\<close> block that come before the transfer: the first that fails decides the result.\<close>

fun try_calls :: "int option list \<Rightarrow> int option" where
  "try_calls [] = None"
| "try_calls (Some e # cs) = Some e"
| "try_calls (None # cs) = try_calls cs"

text \<open>The constructor of the acceptor, \<open>bind\<close>, \<open>listen\<close>, the constructor of the socket, \<open>accept\<close>.\<close>

definition accept_new_connection :: "int option list \<Rightarrow> int" where
  "accept_new_connection calls = (case try_calls calls of None \<Rightarrow> 0 | Some e \<Rightarrow> e)"

section \<open>Sending\<close>

definition hello_world :: "byte list" where
  "hello_world = [72, 101, 108, 108, 111, 32, 87, 111, 114, 108, 100]"

fun write_loop :: "byte list \<Rightarrow> nat \<Rightarrow> nat io_outcome list \<Rightarrow> byte list \<Rightarrow> (byte list \<times> int option) option" where
  "write_loop buf sent os wire =
     (if sent = length buf then Some (wire, None)
      else case os of
        [] \<Rightarrow> None
      | SysError e # _ \<Rightarrow> Some (wire, Some e)
      | Did n # os' \<Rightarrow> write_loop buf (sent + n) os' (wire @ take n (drop sent buf)))"

declare write_loop.simps [simp del]

definition write_to_socket :: "nat io_outcome list \<Rightarrow> (byte list \<times> int option) option" where
  "write_to_socket os = write_loop hello_world 0 os []"

text \<open>The bytes put on the wire and the value returned.\<close>

definition send_data_by_write_some :: "int option list \<Rightarrow> nat io_outcome list \<Rightarrow> (byte list \<times> int) option" where
  "send_data_by_write_some calls os =
     (case try_calls calls of
        Some e \<Rightarrow> Some ([], e)
      | None \<Rightarrow> map_option (\<lambda>(wire, err). (wire, case err of None \<Rightarrow> 0 | Some e \<Rightarrow> e)) (write_to_socket os))"

text \<open>\<open>sock.send\<close>, and \<open>asio::write\<close>, once; a result of 0 bytes is logged.\<close>

definition send_once :: "int option list \<Rightarrow> nat io_outcome \<Rightarrow> byte list \<times> int" where
  "send_once calls out =
     (case try_calls calls of
        Some e \<Rightarrow> ([], e)
      | None \<Rightarrow> (case out of SysError e \<Rightarrow> ([], e) | Did n \<Rightarrow> (take n (hello_world @ [33]), 0)))"

text \<open>\<open>write_some\<close> transfers at least one byte and at most what it was given.\<close>

fun writes_ok :: "nat \<Rightarrow> nat io_outcome list \<Rightarrow> bool" where
  "writes_ok left [] \<longleftrightarrow> True"
| "writes_ok left (SysError e # os) \<longleftrightarrow> e \<noteq> 0"
| "writes_ok left (Did n # os) \<longleftrightarrow> left = 0 \<or> 0 < n \<and> n \<le> left \<and> writes_ok (left - n) os"

lemma write_loop_result:
  assumes "writes_ok (length buf - sent) os" "sent \<le> length buf" "wire = take sent buf"
  shows "case write_loop buf sent os wire of
      None \<Rightarrow> length os < length buf - sent
    | Some (w, None) \<Rightarrow> w = buf
    | Some (w, Some e) \<Rightarrow> e \<noteq> 0 \<and> (\<exists>n < length buf. w = take n buf)"
  using assms
proof (induction os arbitrary: sent wire)
  case Nil
  then show ?case by (auto simp: write_loop.simps [of buf sent])
next
  case (Cons out os)
  show ?case
  proof (cases "sent = length buf")
    case True
    then show ?thesis using Cons.prems by (simp add: write_loop.simps [of buf "length buf"])
  next
    case False
    show ?thesis
    proof (cases out)
      case (SysError e)
      then show ?thesis using Cons.prems False by (auto simp: write_loop.simps [of buf sent] intro: exI [of _ sent])
    next
      case (Did n)
      then have n: "0 < n" "n \<le> length buf - sent" "writes_ok (length buf - (sent + n)) os" "sent + n \<le> length buf"
        using Cons.prems(1,2) False by auto
      have "length buf - (sent + n) < length buf - sent" using n False Cons.prems(2) by linarith
      moreover have "wire @ take n (drop sent buf) = take (sent + n) buf" by (simp add: Cons.prems(3) take_add)
      ultimately show ?thesis using Cons.IH [OF n(3,4)] Did False
        by (auto simp: write_loop.simps [of buf sent] split: option.splits)
    qed
  qed
qed

section \<open>Receiving\<close>

definition MESSAGE_SIZE :: nat where
  "MESSAGE_SIZE = 7"

text \<open>What \<open>read_some\<close> delivers is appended, until the array is full.\<close>

fun read_some_loop :: "byte list \<Rightarrow> byte list io_outcome list \<Rightarrow> (byte list + int) option" where
  "read_some_loop got os =
     (if length got = MESSAGE_SIZE then Some (Inl got)
      else case os of
        [] \<Rightarrow> None
      | SysError e # _ \<Rightarrow> Some (Inr e)
      | Did bs # os' \<Rightarrow> read_some_loop (got @ bs) os')"

declare read_some_loop.simps [simp del]

text \<open>
  \<open>std::string{buf}\<close> reads to the first 0; the array has no room for one after the message, so a message
  without one is read past its end.
\<close>

definition string_of_array :: "byte list \<Rightarrow> byte list cxx" where
  "string_of_array buf = (if 0 \<in> set buf then Ok (takeWhile (\<lambda>c. c \<noteq> 0) buf) else UB)"

definition read_from_socket :: "byte list io_outcome list \<Rightarrow> (byte list cxx + int) option" where
  "read_from_socket os = map_option (map_sum string_of_array id) (read_some_loop [] os)"

definition read_data_by_read_some :: "int option list \<Rightarrow> byte list io_outcome list \<Rightarrow> int cxx option" where
  "read_data_by_read_some calls os =
     (case try_calls calls of
        Some e \<Rightarrow> Some (Ok e)
      | None \<Rightarrow> map_option (case_sum (\<lambda>s. cxx_bind s (\<lambda>_. Ok 0)) Ok) (read_from_socket os))"

text \<open>\<open>sock.receive\<close>, and \<open>asio::read\<close>, once: what was received is dropped.\<close>

definition receive_once :: "int option list \<Rightarrow> byte list io_outcome \<Rightarrow> int" where
  "receive_once calls out =
     (case try_calls calls of Some e \<Rightarrow> e | None \<Rightarrow> (case out of SysError e \<Rightarrow> e | Did bs \<Rightarrow> 0))"

text \<open>
  \<open>read_until\<close> with the stream buffer: it reads until the buffer has a newline; \<open>getline\<close> takes what comes
  before it.
\<close>

fun until_newline :: "byte list \<Rightarrow> byte list io_outcome list \<Rightarrow> (byte list + int) option" where
  "until_newline buf os =
     (if 10 \<in> set buf then Some (Inl buf)
      else case os of
        [] \<Rightarrow> None
      | SysError e # _ \<Rightarrow> Some (Inr e)
      | Did bs # os' \<Rightarrow> until_newline (buf @ bs) os')"

declare until_newline.simps [simp del]

definition read_data_by_until :: "byte list io_outcome list \<Rightarrow> (byte list + int) option" where
  "read_data_by_until os = map_option (map_sum (takeWhile (\<lambda>c. c \<noteq> 10)) id) (until_newline [] os)"

fun received :: "byte list io_outcome list \<Rightarrow> byte list" where
  "received [] = []"
| "received (Did bs # os) = bs @ received os"
| "received (SysError e # os) = []"

fun chunks_fit :: "nat \<Rightarrow> byte list io_outcome list \<Rightarrow> bool" where
  "chunks_fit left [] \<longleftrightarrow> True"
| "chunks_fit left (SysError e # os) \<longleftrightarrow> e \<noteq> 0"
| "chunks_fit left (Did bs # os) \<longleftrightarrow> left = 0 \<or> bs \<noteq> [] \<and> length bs \<le> left \<and> chunks_fit (left - length bs) os"

lemma read_loop_result:
  assumes "chunks_fit (MESSAGE_SIZE - length got) os" "length got \<le> MESSAGE_SIZE"
  shows "case read_some_loop got os of
      None \<Rightarrow> length os < MESSAGE_SIZE - length got
    | Some (Inl buf) \<Rightarrow> buf = take MESSAGE_SIZE (got @ received os) \<and> length buf = MESSAGE_SIZE
    | Some (Inr e) \<Rightarrow> e \<noteq> 0 \<and> length (got @ received os) < MESSAGE_SIZE"
  using assms
proof (induction os arbitrary: got)
  case Nil
  then show ?case by (simp add: read_some_loop.simps [of got])
next
  case (Cons out os)
  show ?case
  proof (cases "length got = MESSAGE_SIZE")
    case True
    then show ?thesis by (simp add: read_some_loop.simps [of got])
  next
    case False
    show ?thesis
    proof (cases out)
      case (SysError e)
      then show ?thesis using Cons.prems False by (simp add: read_some_loop.simps [of got])
    next
      case (Did bs)
      then have bs: "bs \<noteq> []" "length bs \<le> MESSAGE_SIZE - length got" "chunks_fit (MESSAGE_SIZE - length (got @ bs)) os"
        using Cons.prems False by auto
      have "0 < length bs" "length (got @ bs) \<le> MESSAGE_SIZE" using bs Cons.prems(2) by auto
      moreover from this have "MESSAGE_SIZE - length (got @ bs) < MESSAGE_SIZE - length got" unfolding length_append by linarith
      ultimately show ?thesis using Cons.IH [OF bs(3)] Did False
        by (auto simp: read_some_loop.simps [of got] simp del: take_append length_append split: option.splits sum.splits)
    qed
  qed
qed

lemma until_newline_received:
  "until_newline buf os = Some (Inl r) \<Longrightarrow>
     10 \<in> set r \<and> takeWhile (\<lambda>c. c \<noteq> 10) r = takeWhile (\<lambda>c. c \<noteq> 10) (buf @ received os)"
proof (induction os arbitrary: buf)
  case Nil
  then show ?case by (auto simp: until_newline.simps [of buf] takeWhile_append split: if_splits)
next
  case (Cons out os)
  then show ?case
    by (cases out) (auto simp: until_newline.simps [of buf] takeWhile_append split: if_splits)
qed

section \<open>Properties\<close>

text \<open>
  \<open>send_data_by_write_some\<close> sends all of its message or returns an error code that is not 0, and needs at most as
  many writes as the message has bytes; \<open>send_data_by_send\<close> returns 0 after any short send, too.
\<close>

theorem sync_send:
  assumes "try_calls calls = None" "writes_ok (length hello_world) os"
  shows "(case send_data_by_write_some calls os of
            None \<Rightarrow> length os < length hello_world
          | Some (wire, rc) \<Rightarrow> (rc = 0 \<longleftrightarrow> wire = hello_world) \<and> (\<exists>n. wire = take n hello_world)) \<and>
         (\<forall>n. send_once calls (Did n) = (take n (hello_world @ [33]), 0))"
proof (rule conjI, goal_cases)
  case 1
  have "case write_to_socket os of None \<Rightarrow> length os < length hello_world | Some (w, None) \<Rightarrow> w = hello_world
      | Some (w, Some e) \<Rightarrow> e \<noteq> 0 \<and> (\<exists>n < length hello_world. w = take n hello_world)"
    unfolding write_to_socket_def
    by (rule write_loop_result [of hello_world 0 os "[]", unfolded diff_zero]) (use assms(2) in simp_all)
  moreover have "hello_world \<noteq> take n hello_world" if "n < length hello_world" for n
    using that by (metis length_take min.strict_order_iff min.commute)
  ultimately show ?case using assms(1)
    by (auto simp: send_data_by_write_some_def split: option.splits intro: exI [of _ "length hello_world"])
next
  case 2
  show ?case using assms(1) by (simp add: send_once_def)
qed

lemma sync_send_witness: "send_data_by_write_some [None, None, None] [Did 5, Did 6] = Some (hello_world, 0)"
proof -
  have "\<exists>wire rc. send_data_by_write_some [None, None, None] [Did 5, Did 6] = Some (wire, rc) \<and> rc = 0"
    by (simp add: send_data_by_write_some_def write_to_socket_def write_loop.simps hello_world_def)
  then show ?thesis using sync_send [of "[None, None, None]" "[Did 5, Did 6]"] by (auto simp: hello_world_def)
qed

text \<open>
  \<open>read_from_socket\<close> collects the first 7 bytes for every cutting of the stream, or fails when it ends before; but
  the string it makes of them is undefined unless one of the 7 is 0.  \<open>read_data_by_until\<close> gives the first
  line, without its newline, for every cutting of the stream.
\<close>

theorem sync_read:
  assumes "chunks_fit MESSAGE_SIZE os"
  shows "(case read_from_socket os of
            None \<Rightarrow> length os < MESSAGE_SIZE
          | Some (Inr e) \<Rightarrow> e \<noteq> 0 \<and> length (received os) < MESSAGE_SIZE
          | Some (Inl s) \<Rightarrow> MESSAGE_SIZE \<le> length (received os) \<and>
              s = (if 0 \<in> set (take MESSAGE_SIZE (received os))
                   then Ok (takeWhile (\<lambda>c. c \<noteq> 0) (take MESSAGE_SIZE (received os))) else UB)) \<and>
         (\<forall>os' line. read_data_by_until os' = Some (Inl line) \<longrightarrow>
            line = takeWhile (\<lambda>c. c \<noteq> 10) (received os'))"
proof (intro conjI allI impI)
  have "case read_some_loop [] os of
      None \<Rightarrow> length os < MESSAGE_SIZE
    | Some (Inl buf) \<Rightarrow> buf = take MESSAGE_SIZE (received os) \<and> length buf = MESSAGE_SIZE
    | Some (Inr e) \<Rightarrow> e \<noteq> 0 \<and> length (received os) < MESSAGE_SIZE"
    by (rule read_loop_result [of "[]" os, unfolded list.size diff_zero append_Nil]) (use assms in simp_all)
  then show "case read_from_socket os of
            None \<Rightarrow> length os < MESSAGE_SIZE
          | Some (Inr e) \<Rightarrow> e \<noteq> 0 \<and> length (received os) < MESSAGE_SIZE
          | Some (Inl s) \<Rightarrow> MESSAGE_SIZE \<le> length (received os) \<and>
              s = (if 0 \<in> set (take MESSAGE_SIZE (received os))
                   then Ok (takeWhile (\<lambda>c. c \<noteq> 0) (take MESSAGE_SIZE (received os))) else UB)"
    by (auto simp: read_from_socket_def string_of_array_def split: option.splits sum.splits)
  show "line = takeWhile (\<lambda>c. c \<noteq> 10) (received os')" if run: "read_data_by_until os' = Some (Inl line)" for os' line
  proof -
    obtain z where "until_newline [] os' = Some z" "map_sum (takeWhile (\<lambda>c. c \<noteq> 10)) id z = Inl line"
      using run by (auto simp: read_data_by_until_def)
    then show ?thesis using until_newline_received [of "[]" os'] by (cases z) auto
  qed
qed

lemma sync_read_witness: "read_from_socket [Did [1, 2, 3], Did [4, 5, 6, 7]] = Some (Inl UB)"
proof -
  have r: "\<exists>s. read_from_socket [Did [1, 2, 3], Did [4, 5, 6, 7]] = Some (Inl s)"
    by (simp add: read_from_socket_def read_some_loop.simps MESSAGE_SIZE_def)
  have "chunks_fit MESSAGE_SIZE [Did [1, 2, 3], Did [4, 5, 6, 7]]" by (simp add: MESSAGE_SIZE_def)
  moreover have "0 \<notin> set (take MESSAGE_SIZE (received [Did [1, 2, 3], Did [4, 5, 6, 7]]))" by code_simp
  ultimately show ?thesis using conjunct1 [OF sync_read, of "[Did [1, 2, 3], Did [4, 5, 6, 7]]"] r by auto
qed

end
