(* ===== verification/ReadLine.thy ===== *)
theory ReadLine
  imports Prelude
begin

text \<open>
  \<open>readline\<close> of \<open>example/unix_network/lib/readline.cpp\<close>: \<open>my_read\<close> hands out one byte at a time from a static
  buffer that one \<open>read\<close> fills, \<open>readline\<close> stores them up to a newline, the end of the stream, or
  the room of the caller's buffer.
\<close>

section \<open>The code\<close>

text \<open>What the calls of \<open>read\<close> give, in order; no data is the end of the stream.\<close>

datatype read_result = Data "byte list" | Interrupted | ReadErr

datatype my_read_ret = GotByte byte | AtEof | Failed

text \<open>
  \<open>pend\<close> is the part of the static buffer that has not been handed out.  \<open>None\<close> means that the reads
  listed are used up and the call still waits.
\<close>

fun my_read :: "byte list \<Rightarrow> read_result list \<Rightarrow> (my_read_ret \<times> byte list \<times> read_result list) option" where
  "my_read (c # pend) rs = Some (GotByte c, pend, rs)"
| "my_read [] [] = None"
| "my_read [] (Interrupted # rs) = my_read [] rs"
| "my_read [] (ReadErr # rs) = Some (Failed, [], rs)"
| "my_read [] (Data [] # rs) = Some (AtEof, [], rs)"
| "my_read [] (Data (c # cs) # rs) = Some (GotByte c, cs, rs)"

definition newline :: byte where
  "newline = 10"

record line_result =
  returned :: int
  stored :: "byte list"
  terminated :: bool
  left_pend :: "byte list"
  left_reads :: "read_result list"

text \<open>
  The loop at counter \<open>n\<close> with the bytes stored so far in \<open>acc\<close>; \<open>terminated\<close> says whether the final 0 was
  written, at index \<open>length (stored r)\<close> of the caller's buffer.
\<close>

function readline_loop :: "nat \<Rightarrow> nat \<Rightarrow> byte list \<Rightarrow> byte list \<Rightarrow> read_result list \<Rightarrow> line_result option" where
  "readline_loop n maxlen acc pend rs =
     (if n < maxlen then
        (case my_read pend rs of
           None \<Rightarrow> None
         | Some (GotByte c, pend', rs') \<Rightarrow>
             if c = newline
             then Some \<lparr>returned = int n, stored = acc @ [c], terminated = True, left_pend = pend', left_reads = rs'\<rparr>
             else readline_loop (Suc n) maxlen (acc @ [c]) pend' rs'
         | Some (AtEof, pend', rs') \<Rightarrow>
             if n = 1 then Some \<lparr>returned = 0, stored = acc, terminated = False, left_pend = pend', left_reads = rs'\<rparr>
             else Some \<lparr>returned = int n, stored = acc, terminated = True, left_pend = pend', left_reads = rs'\<rparr>
         | Some (Failed, pend', rs') \<Rightarrow>
             Some \<lparr>returned = -1, stored = acc, terminated = False, left_pend = pend', left_reads = rs'\<rparr>)
      else Some \<lparr>returned = int n, stored = acc, terminated = True, left_pend = pend, left_reads = rs\<rparr>)"
  by pat_completeness auto
termination by (relation "measure (\<lambda>(n, maxlen, _). maxlen - n)") auto

declare readline_loop.simps [simp del]

definition readline :: "nat \<Rightarrow> byte list \<Rightarrow> read_result list \<Rightarrow> line_result option" where
  "readline maxlen pend rs = readline_loop 1 maxlen [] pend rs"

text \<open>\<open>Readline\<close> leaves the program on a failure; then there is no result.\<close>

definition Readline :: "nat \<Rightarrow> byte list \<Rightarrow> read_result list \<Rightarrow> (unit + line_result) option" where
  "Readline maxlen pend rs =
     (case readline maxlen pend rs of
        None \<Rightarrow> None
      | Some r \<Rightarrow> Some (if returned r < 0 then Inl () else Inr r))"

section \<open>The line as a function of the stream\<close>

text \<open>At most \<open>k\<close> bytes, up to the first newline and including it.\<close>

fun line_of :: "nat \<Rightarrow> byte list \<Rightarrow> byte list" where
  "line_of 0 cs = []"
| "line_of (Suc k) [] = []"
| "line_of (Suc k) (c # cs) = c # (if c = newline then [] else line_of k cs)"

lemma line_of_prefix: "line_of k cs = take (length (line_of k cs)) cs"
  by (induction k cs rule: line_of.induct) auto

lemma line_of_length: "length (line_of k cs) \<le> k" "length (line_of k cs) \<le> length cs"
  by (induction k cs rule: line_of.induct) auto

text \<open>The bytes that come before the end of the stream, which is the last read listed.\<close>

fun stream_of :: "read_result list \<Rightarrow> byte list" where
  "stream_of [] = []"
| "stream_of (Data cs # rs) = cs @ stream_of rs"
| "stream_of (_ # rs) = stream_of rs"

definition reads_ok :: "read_result list \<Rightarrow> bool" where
  "reads_ok rs \<longleftrightarrow> (\<exists>rs'. rs = rs' @ [Data []] \<and> ReadErr \<notin> set rs' \<and> Data [] \<notin> set rs')"

lemma reads_ok_simps [simp]:
  "\<not> reads_ok []" "reads_ok [Data []]" "reads_ok (Interrupted # rs) \<longleftrightarrow> reads_ok rs" "\<not> reads_ok (ReadErr # rs)"
  "reads_ok (Data [] # rs) \<longleftrightarrow> rs = []" "reads_ok (Data (c # cs) # rs) \<longleftrightarrow> reads_ok rs"
proof -
  show "reads_ok (Interrupted # rs) \<longleftrightarrow> reads_ok rs" "\<not> reads_ok (ReadErr # rs)" "reads_ok (Data (c # cs) # rs) \<longleftrightarrow> reads_ok rs"
    "reads_ok (Data [] # rs) \<longleftrightarrow> rs = []"
    by (auto simp: reads_ok_def Cons_eq_append_conv intro: exI [of _ "_ # _"])
qed (auto simp: reads_ok_def)

lemma my_read_stream:
  "reads_ok rs \<Longrightarrow> \<exists>ret pend' rs'. my_read pend rs = Some (ret, pend', rs') \<and>
     (case ret of
        GotByte c \<Rightarrow> pend @ stream_of rs = c # pend' @ stream_of rs' \<and> reads_ok rs'
      | AtEof \<Rightarrow> pend @ stream_of rs = [] \<and> pend' = [] \<and> rs' = []
      | Failed \<Rightarrow> False)"
  by (induction pend rs rule: my_read.induct) (auto split: my_read_ret.splits)

text \<open>What \<open>readline\<close> returns for the line \<open>l\<close> found with counter \<open>n\<close>.\<close>

definition line_count :: "nat \<Rightarrow> byte list \<Rightarrow> int" where
  "line_count n l = int n + int (length l) - (if l \<noteq> [] \<and> last l = newline then 1 else 0)"

lemma line_count_Cons: "line_count n (c # l) = (if l = [] \<and> c = newline then int n else line_count (Suc n) l)"
  by (auto simp: line_count_def)

lemma readline_loop_stream:
  assumes "reads_ok rs" "1 \<le> n" "n = 1 \<longrightarrow> pend @ stream_of rs \<noteq> [] \<or> maxlen \<le> 1"
  shows "\<exists>pend' rs'. readline_loop n maxlen acc pend rs = Some
      \<lparr>returned = line_count n (line_of (maxlen - n) (pend @ stream_of rs)),
       stored = acc @ line_of (maxlen - n) (pend @ stream_of rs), terminated = True, left_pend = pend', left_reads = rs'\<rparr> \<and>
     pend' @ stream_of rs' = drop (length (line_of (maxlen - n) (pend @ stream_of rs))) (pend @ stream_of rs)"
  using assms
proof (induction n maxlen acc pend rs rule: readline_loop.induct)
  case (1 n maxlen acc pend rs)
  show ?case
  proof (cases "n < maxlen")
    case False
    then show ?thesis by (simp add: readline_loop.simps [of n] line_count_def)
  next
    case True
    then obtain k where k: "maxlen - n = Suc k" "maxlen - Suc n = k" by (cases "maxlen - n") auto
    obtain ret pend' rs' where m: "my_read pend rs = Some (ret, pend', rs')"
        "case ret of GotByte c \<Rightarrow> pend @ stream_of rs = c # pend' @ stream_of rs' \<and> reads_ok rs'
           | AtEof \<Rightarrow> pend @ stream_of rs = [] \<and> pend' = [] \<and> rs' = [] | Failed \<Rightarrow> False"
      using my_read_stream [OF "1.prems"(1)] by blast
    show ?thesis
    proof (cases ret)
      case (GotByte c)
      then have s: "pend @ stream_of rs = c # pend' @ stream_of rs'" "reads_ok rs'" using m(2) by auto
      show ?thesis
      proof (cases "c = newline")
        case nl: True
        then show ?thesis using True m(1) GotByte k s(1) by (simp add: readline_loop.simps [of n] line_count_def)
      next
        case nl: False
        have "\<exists>pend'' rs''. readline_loop (Suc n) maxlen (acc @ [c]) pend' rs' = Some
            \<lparr>returned = line_count (Suc n) (line_of k (pend' @ stream_of rs')),
             stored = (acc @ [c]) @ line_of k (pend' @ stream_of rs'), terminated = True, left_pend = pend'', left_reads = rs''\<rparr> \<and>
           pend'' @ stream_of rs'' = drop (length (line_of k (pend' @ stream_of rs'))) (pend' @ stream_of rs')"
          using "1.IH" [OF True m(1) refl GotByte refl nl s(2)] "1.prems"(2) unfolding k(2) by simp
        then show ?thesis using True m(1) GotByte nl k s(1)
          by (auto simp: readline_loop.simps [of n] line_count_Cons)
      qed
    next
      case AtEof
      then have "pend @ stream_of rs = []" "pend' = []" "rs' = []" using m(2) by auto
      then show ?thesis using True m(1) AtEof k "1.prems"(3) by (simp add: readline_loop.simps [of n] line_count_def)
    qed (use m(2) in auto)
  qed
qed

text \<open>
  For every cutting of the stream into reads, interrupted or not, \<open>readline\<close> stores the next line, newline
  included, or as much of it as fits, and leaves the rest of the stream for the next call; at the end
  of the stream it returns 0.  The count returned is right when the line ends in a newline, and one too large when
  the line was cut by the end of the stream or by the caller's buffer.
\<close>

theorem readline_line:
  assumes "reads_ok rs" "1 < maxlen"
  shows "(pend @ stream_of rs = [] \<longrightarrow>
            readline maxlen pend rs = Some \<lparr>returned = 0, stored = [], terminated = False, left_pend = [], left_reads = []\<rparr>) \<and>
    (pend @ stream_of rs \<noteq> [] \<longrightarrow> (\<exists>r. Readline maxlen pend rs = Some (Inr r) \<and>
       stored r = line_of (maxlen - 1) (pend @ stream_of rs) \<and> terminated r \<and>
       stored r @ left_pend r @ stream_of (left_reads r) = pend @ stream_of rs \<and>
       returned r = int (length (stored r)) + (if last (stored r) = newline then 0 else 1)))"
proof (intro conjI impI)
  assume empty: "pend @ stream_of rs = []"
  obtain ret pend' rs' where "my_read pend rs = Some (ret, pend', rs')"
      "case ret of GotByte c \<Rightarrow> pend @ stream_of rs = c # pend' @ stream_of rs' \<and> reads_ok rs'
         | AtEof \<Rightarrow> pend @ stream_of rs = [] \<and> pend' = [] \<and> rs' = [] | Failed \<Rightarrow> False"
    using my_read_stream [OF assms(1)] by blast
  with empty show "readline maxlen pend rs = Some \<lparr>returned = 0, stored = [], terminated = False, left_pend = [], left_reads = []\<rparr>"
    using assms(2) by (cases ret) (auto simp: readline_def readline_loop.simps [of "Suc 0"])
next
  define s where "s = pend @ stream_of rs"
  assume "pend @ stream_of rs \<noteq> []"
  then obtain c s' where s: "s = c # s'" by (cases s) (auto simp: s_def)
  obtain k where k: "maxlen - 1 = Suc k" using assms(2) by (cases "maxlen - 1") auto
  obtain pend' rs' where r: "readline maxlen pend rs = Some
      \<lparr>returned = line_count 1 (line_of (maxlen - 1) s), stored = line_of (maxlen - 1) s, terminated = True,
       left_pend = pend', left_reads = rs'\<rparr>" "pend' @ stream_of rs' = drop (length (line_of (maxlen - 1) s)) s"
    using readline_loop_stream [OF assms(1), of 1 pend maxlen "[]"] \<open>pend @ stream_of rs \<noteq> []\<close>
    unfolding readline_def s_def by auto
  have "line_of (maxlen - 1) s \<noteq> []" using s k by simp
  moreover have "line_of (maxlen - 1) s @ pend' @ stream_of rs' = s"
    unfolding r(2) by (metis append_take_drop_id line_of_prefix)
  ultimately show "\<exists>r. Readline maxlen pend rs = Some (Inr r) \<and>
       stored r = line_of (maxlen - 1) (pend @ stream_of rs) \<and> terminated r \<and>
       stored r @ left_pend r @ stream_of (left_reads r) = pend @ stream_of rs \<and>
       returned r = int (length (stored r)) + (if last (stored r) = newline then 0 else 1)"
    using r(1) by (auto simp: Readline_def line_count_def s_def)
qed

lemma readline_line_witness:
  "\<exists>r. Readline 10 [] [Data [65, 66], Data []] = Some (Inr r) \<and> stored r = [65, 66] \<and> returned r = 3"
proof -
  have "\<exists>r. Readline 10 [] [Data [65, 66], Data []] = Some (Inr r) \<and>
       stored r = line_of (10 - 1) ([] @ stream_of [Data [65, 66], Data []]) \<and> terminated r \<and>
       stored r @ left_pend r @ stream_of (left_reads r) = [] @ stream_of [Data [65, 66], Data []] \<and>
       returned r = int (length (stored r)) + (if last (stored r) = newline then 0 else 1)"
    using readline_line [of "[Data [65, 66], Data []]" 10 "[]"] by simp
  moreover have "line_of 9 [65, 66] = [65, 66]" by code_simp
  ultimately show ?thesis by (auto simp: newline_def)
qed

text \<open>
  The static buffer belongs to no descriptor: a line left in it is returned whatever descriptor is read next.
\<close>

lemma readline_ignores_descriptor:
  "readline_loop n maxlen acc (cs @ newline # pend) rs =
     map_option (\<lambda>r. r\<lparr>left_reads := rs\<rparr>) (readline_loop n maxlen acc (cs @ newline # pend) [])"
proof (induction cs arbitrary: n acc)
  case Nil
  show ?case by (simp add: readline_loop.simps [of n])
next
  case (Cons c cs)
  then show ?case by (simp add: readline_loop.simps [of n])
qed

end
