(* ===== verification/Singletons.thy ===== *)
theory Singletons
  imports Prelude
begin

text \<open>
  The singletons of \<open>example/boost/concurrent/example04_singleton.cpp\<close>, used by any number of threads: with double
  checked locking (\<open>SinglePointer\<close>, \<open>SingleAuto\<close>, \<open>SingleAutoSafe\<close>), with \<open>std::call_once\<close> (\<open>SingleTonOnce\<close>,
  \<open>SingleTon<T>\<close>), and without any guard (\<open>Single2Hungry\<close>).  Every access to the static pointer, the mutex or the once
  flag is a step of its own.
\<close>

section \<open>State\<close>

datatype get_variant = Checked | Once | Unguarded

text \<open>
  A thread in \<open>GetInstance\<close>: at its first statement; before \<open>s_mutex.lock()\<close>; at the second test, which the
  mutex protects; before \<open>new\<close>; about to store the new object; about to unlock, or to leave the function of
  \<open>call_once\<close>; before the final \<open>return single\<close>; and returned.
\<close>

datatype inst_pc =
    Start | WaitLock | InLock | Creating | Storing nat | Leaving | Reading | Got "nat option"

text \<open>Objects are numbered as they are made; \<open>owner\<close> holds the mutex, or runs the function of \<open>call_once\<close>.\<close>

record single_sys =
  single :: "nat option"
  created :: nat
  owner :: "nat option"
  once_done :: bool
  inst_pcs :: "inst_pc list"

definition new_singles :: "nat \<Rightarrow> single_sys" where
  "new_singles n = \<lparr>single = None, created = 0, owner = None, once_done = False, inst_pcs = replicate n Start\<rparr>"

text \<open>\<open>Single2Hungry\<close> after the initialisation of its static member, which calls \<open>GetInstance\<close> before \<open>main\<close>.\<close>

definition hungry_singles :: "nat \<Rightarrow> single_sys" where
  "hungry_singles n = (new_singles n)\<lparr>single := Some 0, created := 1\<rparr>"

definition goto :: "nat \<Rightarrow> inst_pc \<Rightarrow> single_sys \<Rightarrow> single_sys" where
  "goto i pc st = st\<lparr>inst_pcs := (inst_pcs st)[i := pc]\<rparr>"

section \<open>GetInstance\<close>

text \<open>The statements that all variants have: \<open>new\<close>, the store, and the final read.\<close>

definition make_instance :: "nat \<Rightarrow> single_sys \<Rightarrow> single_sys" where
  "make_instance i st = (goto i (Storing (created st)) st)\<lparr>created := Suc (created st)\<rparr>"

definition store_instance :: "nat \<Rightarrow> nat \<Rightarrow> inst_pc \<Rightarrow> single_sys \<Rightarrow> single_sys" where
  "store_instance i k pc st = (goto i pc st)\<lparr>single := Some k\<rparr>"

definition checked_step :: "nat \<Rightarrow> single_sys \<Rightarrow> single_sys option" where
  "checked_step i st =
     (case inst_pcs st ! i of
        Start \<Rightarrow> Some (goto i (if single st \<noteq> None then Reading else WaitLock) st)
      | WaitLock \<Rightarrow> (if owner st = None then Some ((goto i InLock st)\<lparr>owner := Some i\<rparr>) else None)
      | InLock \<Rightarrow> Some (goto i (if single st \<noteq> None then Leaving else Creating) st)
      | Creating \<Rightarrow> Some (make_instance i st)
      | Storing k \<Rightarrow> Some (store_instance i k Leaving st)
      | Leaving \<Rightarrow> Some ((goto i Reading st)\<lparr>owner := None\<rparr>)
      | Reading \<Rightarrow> Some (goto i (Got (single st)) st)
      | Got r \<Rightarrow> None)"

definition once_step :: "nat \<Rightarrow> single_sys \<Rightarrow> single_sys option" where
  "once_step i st =
     (case inst_pcs st ! i of
        Start \<Rightarrow> (if once_done st then Some (goto i Reading st)
                  else if owner st = None then Some ((goto i Creating st)\<lparr>owner := Some i\<rparr>) else None)
      | Creating \<Rightarrow> Some (make_instance i st)
      | Storing k \<Rightarrow> Some (store_instance i k Leaving st)
      | Leaving \<Rightarrow> Some ((goto i Reading st)\<lparr>owner := None, once_done := True\<rparr>)
      | Reading \<Rightarrow> Some (goto i (Got (single st)) st)
      | _ \<Rightarrow> None)"

definition unguarded_step :: "nat \<Rightarrow> single_sys \<Rightarrow> single_sys option" where
  "unguarded_step i st =
     (case inst_pcs st ! i of
        Start \<Rightarrow> Some (goto i (if single st = None then Creating else Reading) st)
      | Creating \<Rightarrow> Some (make_instance i st)
      | Storing k \<Rightarrow> Some (store_instance i k Reading st)
      | Reading \<Rightarrow> Some (goto i (Got (single st)) st)
      | _ \<Rightarrow> None)"

definition GetInstance_step :: "get_variant \<Rightarrow> nat \<Rightarrow> single_sys \<Rightarrow> single_sys option" where
  "GetInstance_step v i st =
     (if i < length (inst_pcs st)
      then (case v of Checked \<Rightarrow> checked_step i st | Once \<Rightarrow> once_step i st | Unguarded \<Rightarrow> unguarded_step i st)
      else None)"

fun run_threads :: "get_variant \<Rightarrow> nat list \<Rightarrow> single_sys \<Rightarrow> single_sys option" where
  "run_threads v [] st = Some st"
| "run_threads v (i # is) st = (case GetInstance_step v i st of None \<Rightarrow> None | Some st' \<Rightarrow> run_threads v is st')"

inductive single_step :: "get_variant \<Rightarrow> single_sys \<Rightarrow> single_sys \<Rightarrow> bool" for v where
  single_stepI: "GetInstance_step v i st = Some st' \<Longrightarrow> single_step v st st'"

inductive_cases single_stepE: "single_step v st st'"

text \<open>
  A data race: a thread is about to store to the pointer while another is about to read or store it.  (Accesses
  under the mutex are ordered by it, and never meet.)
\<close>

fun touches :: "get_variant \<Rightarrow> inst_pc \<Rightarrow> bool" where
  "touches v Start \<longleftrightarrow> v \<noteq> Once"
| "touches v InLock \<longleftrightarrow> True"
| "touches v (Storing k) \<longleftrightarrow> True"
| "touches v Reading \<longleftrightarrow> True"
| "touches v pc \<longleftrightarrow> False"

definition data_race :: "get_variant \<Rightarrow> single_sys \<Rightarrow> bool" where
  "data_race v st \<longleftrightarrow> (\<exists>i < length (inst_pcs st). \<exists>j < length (inst_pcs st). i \<noteq> j \<and>
     (\<exists>k. inst_pcs st ! i = Storing k) \<and> touches v (inst_pcs st ! j))"

section \<open>Invariant\<close>

fun guarded_pc :: "inst_pc \<Rightarrow> bool" where
  "guarded_pc InLock \<longleftrightarrow> True"
| "guarded_pc Creating \<longleftrightarrow> True"
| "guarded_pc (Storing k) \<longleftrightarrow> True"
| "guarded_pc Leaving \<longleftrightarrow> True"
| "guarded_pc pc \<longleftrightarrow> False"

fun pc_ok :: "get_variant \<Rightarrow> single_sys \<Rightarrow> inst_pc \<Rightarrow> bool" where
  "pc_ok v st (Storing k) \<longleftrightarrow> k = 0 \<and> single st = None \<and> created st = 1"
| "pc_ok v st Creating \<longleftrightarrow> single st = None \<and> created st = 0"
| "pc_ok v st Leaving \<longleftrightarrow> single st = Some 0"
| "pc_ok v st Reading \<longleftrightarrow> single st = Some 0"
| "pc_ok v st (Got r) \<longleftrightarrow> single st = Some 0 \<and> r = Some 0"
| "pc_ok v st WaitLock \<longleftrightarrow> v = Checked"
| "pc_ok v st InLock \<longleftrightarrow> v = Checked \<and> (single st = None \<and> created st = 0 \<or> single st = Some 0)"
| "pc_ok v st Start \<longleftrightarrow> True"

definition single_inv :: "get_variant \<Rightarrow> single_sys \<Rightarrow> bool" where
  "single_inv v st \<longleftrightarrow>
     (\<forall>i < length (inst_pcs st). pc_ok v st (inst_pcs st ! i) \<and> (guarded_pc (inst_pcs st ! i) \<longleftrightarrow> owner st = Some i)) \<and>
     (\<forall>i. owner st = Some i \<longrightarrow> i < length (inst_pcs st)) \<and>
     (single st = None \<or> single st = Some 0 \<and> created st = 1) \<and>
     (owner st = None \<and> single st = None \<longrightarrow> created st = 0) \<and>
     (v = Once \<longrightarrow> (once_done st \<longrightarrow> single st = Some 0) \<and> (owner st = None \<and> \<not> once_done st \<longrightarrow> single st = None))"

lemma other_pc: "j < length (inst_pcs st) \<Longrightarrow> single_inv v st \<Longrightarrow> guarded_pc (inst_pcs st ! i) \<Longrightarrow> i < length (inst_pcs st) \<Longrightarrow>
    i \<noteq> j \<Longrightarrow> \<not> guarded_pc (inst_pcs st ! j)"
  by (auto simp: single_inv_def)

lemma pc_ok_same: "pc_ok v st q \<Longrightarrow> single st' = single st \<Longrightarrow> created st' = created st \<Longrightarrow> pc_ok v st' q"
  by (cases q) auto

lemma pc_ok_outside: "pc_ok v st q \<Longrightarrow> \<not> guarded_pc q \<Longrightarrow> single st = None \<Longrightarrow> pc_ok v st' q"
  by (cases q) auto

text \<open>
  A step that moves thread \<open>i\<close> to \<open>pc\<close> keeps the invariant when the new place fits the new state; it
  changes the pointer or the objects only inside the guarded region and before the pointer is set.
\<close>

lemma single_inv_goto:
  assumes "single_inv v st" "i < length (inst_pcs st)" "inst_pcs st' = (inst_pcs st)[i := pc]"
    and pc: "pc_ok v st' pc" "guarded_pc pc \<longleftrightarrow> owner st' = Some i"
    and owner: "owner st' = owner st \<or> owner st \<in> {None, Some i} \<and> owner st' \<in> {None, Some i}"
    and changes: "single st' = single st \<and> created st' = created st \<or> guarded_pc (inst_pcs st ! i) \<and> single st = None"
    and rest: "single st' = None \<or> single st' = Some 0 \<and> created st' = 1"
      "owner st' = None \<and> single st' = None \<longrightarrow> created st' = 0"
      "v = Once \<longrightarrow> (once_done st' \<longrightarrow> single st' = Some 0) \<and> (owner st' = None \<and> \<not> once_done st' \<longrightarrow> single st' = None)"
  shows "single_inv v st'"
proof -
  have "pc_ok v st' (inst_pcs st' ! j) \<and> (guarded_pc (inst_pcs st' ! j) \<longleftrightarrow> owner st' = Some j)"
    if j: "j < length (inst_pcs st')" for j
  proof (cases "j = i")
    case False
    have j': "inst_pcs st' ! j = inst_pcs st ! j" "j < length (inst_pcs st)" using assms(3) j False by auto
    have old: "pc_ok v st (inst_pcs st ! j)" "guarded_pc (inst_pcs st ! j) \<longleftrightarrow> owner st = Some j"
      using assms(1) j'(2) by (auto simp: single_inv_def)
    have "pc_ok v st' (inst_pcs st ! j)" using changes
    proof
      assume "guarded_pc (inst_pcs st ! i) \<and> single st = None"
      then show ?thesis using pc_ok_outside [OF old(1)] other_pc [OF j'(2) assms(1) _ assms(2)] False by blast
    qed (use pc_ok_same [OF old(1)] in blast)
    with old(2) owner j'(1) False show ?thesis by auto
  qed (use assms(2,3) pc in simp)
  moreover have "\<forall>j. owner st' = Some j \<longrightarrow> j < length (inst_pcs st')"
    using assms(1,2,3) owner by (auto simp: single_inv_def)
  ultimately show ?thesis using rest by (simp add: single_inv_def)
qed

lemmas get_simps = goto_def make_instance_def store_instance_def

lemma guarded_step_inv:
  assumes inv: "single_inv v st" and v: "v \<noteq> Unguarded" and step: "GetInstance_step v i st = Some st'"
  shows "single_inv v st'"
proof -
  have i: "i < length (inst_pcs st)" using step by (simp add: GetInstance_step_def split: if_splits)
  have pc: "pc_ok v st (inst_pcs st ! i)" "guarded_pc (inst_pcs st ! i) \<longleftrightarrow> owner st = Some i"
    "single st = None \<or> single st = Some 0 \<and> created st = 1" "owner st = None \<and> single st = None \<longrightarrow> created st = 0"
    "v = Once \<longrightarrow> (once_done st \<longrightarrow> single st = Some 0) \<and> (owner st = None \<and> \<not> once_done st \<longrightarrow> single st = None)"
    using inv i by (auto simp: single_inv_def)
  note go = single_inv_goto [OF inv i]
  show ?thesis
  proof (cases "inst_pcs st ! i")
    case Start
    show ?thesis
    proof (cases v)
      case Checked
      then have st': "st' = goto i (if single st \<noteq> None then Reading else WaitLock) st"
        using step Start by (simp add: GetInstance_step_def checked_step_def i)
      show ?thesis by (rule go [of _ "if single st \<noteq> None then Reading else WaitLock"])
          (use st' pc Start Checked in \<open>auto simp: goto_def\<close>)
    next
      case Once
      show ?thesis
      proof (cases "once_done st")
        case True
        then have st': "st' = goto i Reading st" using step Start Once by (simp add: GetInstance_step_def once_step_def i)
        show ?thesis by (rule go [of _ Reading]) (use st' pc Start Once True in \<open>auto simp: goto_def\<close>)
      next
        case False
        then have st': "st' = (goto i Creating st)\<lparr>owner := Some i\<rparr>" "owner st = None"
          using step Start Once by (auto simp: GetInstance_step_def once_step_def i split: if_splits)
        show ?thesis by (rule go [of _ Creating]) (use st' pc Start Once False in \<open>auto simp: goto_def\<close>)
      qed
    qed (use v in simp)
  next
    case WaitLock
    then have st': "st' = (goto i InLock st)\<lparr>owner := Some i\<rparr>" "owner st = None" "v = Checked"
      using step i v by (cases v; auto simp: GetInstance_step_def checked_step_def once_step_def split: if_splits)+
    show ?thesis by (rule go [of _ InLock]) (use st' pc WaitLock in \<open>auto simp: goto_def\<close>)
  next
    case InLock
    then have st': "st' = goto i (if single st \<noteq> None then Leaving else Creating) st" "v = Checked"
      using step i v by (cases v; auto simp: GetInstance_step_def checked_step_def once_step_def)+
    show ?thesis by (rule go [of _ "if single st \<noteq> None then Leaving else Creating"])
        (use st' pc InLock in \<open>auto simp: goto_def\<close>)
  next
    case Creating
    then have st': "st' = make_instance i st" using step i v by (cases v) (auto simp: GetInstance_step_def checked_step_def once_step_def)
    show ?thesis by (rule go [of _ "Storing 0"]) (use st' pc Creating in \<open>auto simp: get_simps\<close>)
  next
    case (Storing k)
    then have st': "st' = store_instance i k Leaving st" using step i v by (cases v) (auto simp: GetInstance_step_def checked_step_def once_step_def)
    show ?thesis by (rule go [of _ Leaving]) (use st' pc Storing in \<open>auto simp: get_simps\<close>)
  next
    case Leaving
    then have st': "st' = (goto i Reading st)\<lparr>owner := None, once_done := (v = Once \<or> once_done st)\<rparr>"
      using step i v by (cases v) (auto simp: GetInstance_step_def checked_step_def once_step_def goto_def)
    show ?thesis by (rule go [of _ Reading]) (use st' pc Leaving in \<open>auto simp: goto_def\<close>)
  next
    case Reading
    then have st': "st' = goto i (Got (single st)) st" using step i v by (cases v) (auto simp: GetInstance_step_def checked_step_def once_step_def)
    show ?thesis by (rule go [of _ "Got (single st)"]) (use st' pc Reading in \<open>auto simp: goto_def\<close>)
  qed (use step i v in \<open>cases v; simp add: GetInstance_step_def checked_step_def once_step_def\<close>)
qed

text \<open>Of the unguarded variant after its static initialisation, nothing but reads is left.\<close>

definition hungry_inv :: "single_sys \<Rightarrow> bool" where
  "hungry_inv st \<longleftrightarrow> single st = Some 0 \<and> created st = 1 \<and> set (inst_pcs st) \<subseteq> {Start, Reading, Got (Some 0)}"

lemma hungry_step: "hungry_inv st \<Longrightarrow> GetInstance_step Unguarded i st = Some st' \<Longrightarrow> hungry_inv st'"
proof -
  assume inv: "hungry_inv st" and step: "GetInstance_step Unguarded i st = Some st'"
  then have i: "i < length (inst_pcs st)" by (simp add: GetInstance_step_def split: if_splits)
  then have "inst_pcs st ! i \<in> {Start, Reading, Got (Some 0)}"
    using inv nth_mem [OF i] unfolding hungry_inv_def by blast
  then have "st' = goto i Reading st \<or> st' = goto i (Got (Some 0)) st"
    using inv step i by (auto simp: GetInstance_step_def unguarded_step_def hungry_inv_def)
  moreover have "set ((inst_pcs st)[i := pc]) \<subseteq> insert pc (set (inst_pcs st))" for pc by (rule set_update_subset_insert)
  ultimately show ?thesis using inv by (fastforce simp: hungry_inv_def goto_def)
qed

interpretation hungry: step_invariant "\<lambda>st. \<exists>n. st = hungry_singles n" "single_step Unguarded" hungry_inv
proof unfold_locales
  show "hungry_inv st'" if "hungry_inv st" "single_step Unguarded st st'" for st st'
    using that by (blast elim: single_stepE intro: hungry_step)
qed (auto simp: hungry_singles_def new_singles_def hungry_inv_def)

lemma guarded_invariant: "v \<noteq> Unguarded \<Longrightarrow> step_invariant (\<lambda>st. \<exists>n. st = new_singles n) (single_step v) (single_inv v)"
proof unfold_locales
  show "single_inv v st'" if "v \<noteq> Unguarded" "single_inv v st" "single_step v st st'" for st st'
    using that by (blast elim: single_stepE intro: guarded_step_inv)
qed (auto simp: single_inv_def new_singles_def)

interpretation checked: step_invariant "\<lambda>st. \<exists>n. st = new_singles n" "single_step Checked" "single_inv Checked"
  by (rule guarded_invariant) simp

interpretation once: step_invariant "\<lambda>st. \<exists>n. st = new_singles n" "single_step Once" "single_inv Once"
  by (rule guarded_invariant) simp

section \<open>Properties\<close>

lemma guarded_progress:
  assumes "single_inv v st" "v \<noteq> Unguarded" "i < length (inst_pcs st)" "\<forall>r. inst_pcs st ! i \<noteq> Got r"
  shows "\<exists>j. GetInstance_step v j st \<noteq> None"
proof (cases "owner st")
  case None
  then have "GetInstance_step v i st \<noteq> None"
    using assms by (cases v; cases "inst_pcs st ! i") (auto simp: GetInstance_step_def checked_step_def once_step_def single_inv_def)
  then show ?thesis by blast
next
  case (Some j)
  then have j: "j < length (inst_pcs st)" "guarded_pc (inst_pcs st ! j)" "pc_ok v st (inst_pcs st ! j)"
    using assms(1) by (auto simp: single_inv_def)
  then have "GetInstance_step v j st \<noteq> None"
    using assms(2) by (cases v; cases "inst_pcs st ! j") (auto simp: GetInstance_step_def checked_step_def once_step_def)
  then show ?thesis by blast
qed

lemma hungry_progress:
  assumes "hungry_inv st" "i < length (inst_pcs st)" "\<forall>r. inst_pcs st ! i \<noteq> Got r"
  shows "\<exists>j. GetInstance_step Unguarded j st \<noteq> None"
proof -
  have "inst_pcs st ! i \<in> {Start, Reading, Got (Some 0)}"
    using assms(1) nth_mem [OF assms(2)] unfolding hungry_inv_def by blast
  with assms have "GetInstance_step Unguarded i st \<noteq> None" by (auto simp: GetInstance_step_def unguarded_step_def)
  then show ?thesis by blast
qed

lemma once_no_race: "single_inv Once st \<Longrightarrow> \<not> data_race Once st"
proof
  assume inv: "single_inv Once st" and "data_race Once st"
  then obtain i j k where ij: "i < length (inst_pcs st)" "j < length (inst_pcs st)" "i \<noteq> j" "inst_pcs st ! i = Storing k"
      "touches Once (inst_pcs st ! j)" by (auto simp: data_race_def)
  then have "\<not> guarded_pc (inst_pcs st ! j)" "pc_ok Once st (inst_pcs st ! j)" "single st = None"
    using inv other_pc [OF ij(2) inv, of i] by (force simp: single_inv_def)+
  with ij(5) show False by (cases "inst_pcs st ! j") auto
qed

lemma hungry_no_race: "hungry_inv st \<Longrightarrow> \<not> data_race Unguarded st"
proof
  assume inv: "hungry_inv st" and "data_race Unguarded st"
  then obtain i k where "i < length (inst_pcs st)" "inst_pcs st ! i = Storing k" unfolding data_race_def by blast
  then have "Storing k \<in> set (inst_pcs st)" by (metis nth_mem)
  with inv show False by (auto simp: hungry_inv_def)
qed

text \<open>
  With double checked locking and with \<open>call_once\<close>, in every interleaving of any number of threads at most
  one object is made, every call that returns gives that object, and as long as a call is under way
  some thread can move.  The same holds for \<open>Single2Hungry\<close>, which takes no lock, because its pointer is set before \<open>main\<close>.
  With \<open>call_once\<close>, and for \<open>Single2Hungry\<close>, no two accesses to the pointer race.
\<close>

theorem singletons_unique:
  assumes "reachable (\<lambda>st. \<exists>n. st = (if v = Unguarded then hungry_singles n else new_singles n)) (single_step v) st"
  shows "created st \<le> 1 \<and>
    (\<forall>i < length (inst_pcs st). \<forall>r. inst_pcs st ! i = Got r \<longrightarrow> r = Some 0) \<and>
    ((\<exists>i < length (inst_pcs st). \<forall>r. inst_pcs st ! i \<noteq> Got r) \<longrightarrow> (\<exists>i st'. GetInstance_step v i st = Some st')) \<and>
    (v \<noteq> Checked \<longrightarrow> \<not> data_race v st)"
proof (cases "v = Unguarded")
  case True
  then have inv: "hungry_inv st" using assms hungry.reachable_inv by simp
  then have "inst_pcs st ! i \<in> {Start, Reading, Got (Some 0)}" if "i < length (inst_pcs st)" for i
    using nth_mem [OF that] unfolding hungry_inv_def by blast
  with inv True hungry_progress [OF inv] hungry_no_race [OF inv] show ?thesis
    by (fastforce simp: hungry_inv_def)
next
  case False
  then have inv: "single_inv v st" using assms step_invariant.reachable_inv [OF guarded_invariant] by simp
  have "created st \<le> 1"
  proof (cases "owner st")
    case (Some i)
    then have "i < length (inst_pcs st)" "guarded_pc (inst_pcs st ! i)" "pc_ok v st (inst_pcs st ! i)"
      "single st = None \<or> created st = 1" using inv by (auto simp: single_inv_def)
    then show ?thesis by (cases "inst_pcs st ! i") auto
  qed (use inv in \<open>auto simp: single_inv_def\<close>)
  moreover have "\<forall>i < length (inst_pcs st). \<forall>r. inst_pcs st ! i = Got r \<longrightarrow> r = Some 0"
    using inv by (fastforce simp: single_inv_def)
  moreover have "v \<noteq> Checked \<longrightarrow> \<not> data_race v st" using inv False once_no_race by (cases v) auto
  ultimately show ?thesis using guarded_progress [OF inv False] by blast
qed

lemma run_threads_reachable:
  "run_threads v is st = Some st' \<Longrightarrow> reachable init (single_step v) st \<Longrightarrow> reachable init (single_step v) st'"
proof (induction v "is" st rule: run_threads.induct)
  case (2 v i "is" st)
  then show ?case by (auto split: option.splits intro: reach_step single_stepI)
qed simp

lemma singletons_unique_witness:
  "\<exists>st :: single_sys. run_threads Checked [0, 0, 1, 0, 0, 0, 0, 1, 1, 1, 0, 1] (new_singles 2) = Some st \<and>
     created st \<le> 1 \<and> inst_pcs st = [Got (Some 0), Got (Some 0)]"
proof -
  have "case run_threads Checked [0, 0, 1, 0, 0, 0, 0, 1, 1, 1, 0, 1] (new_singles 2) of None \<Rightarrow> False
      | Some st \<Rightarrow> inst_pcs st = [Got (Some 0), Got (Some 0)]" by code_simp
  then obtain st :: single_sys where st: "run_threads Checked [0, 0, 1, 0, 0, 0, 0, 1, 1, 1, 0, 1] (new_singles 2) = Some st"
    "inst_pcs st = [Got (Some 0), Got (Some 0)]" by (auto dest: case_option_Some)
  have "reachable (\<lambda>st. \<exists>n. st = (if Checked = Unguarded then hungry_singles n else new_singles n)) (single_step Checked) st"
    by (rule run_threads_reachable [OF st(1)]) (auto intro: reach_init)
  from conjunct1 [OF singletons_unique [OF this]] st show ?thesis by blast
qed

text \<open>
  Double checked locking on a plain pointer has a data race: with two threads, one can be about to read the pointer
  without the mutex while the other is about to store it.  And without the static initialisation,
  \<open>Single2Hungry\<close> could make two objects and give each thread its own.
\<close>

theorem singletons_checked_race:
  "(\<exists>st. reachable (\<lambda>st. \<exists>n. st = new_singles n) (single_step Checked) st \<and> data_race Checked st) \<and>
   (\<exists>st. reachable (\<lambda>st. \<exists>n. st = new_singles n) (single_step Unguarded) st \<and>
      created st = 2 \<and> inst_pcs st = [Got (Some 0), Got (Some 1)])"
proof (rule conjI)
  have "case run_threads Checked [0, 0, 0, 0] (new_singles 2) of None \<Rightarrow> False
      | Some st \<Rightarrow> inst_pcs st = [Storing 0, Start]" by code_simp
  then obtain st :: single_sys where st: "run_threads Checked [0, 0, 0, 0] (new_singles 2) = Some st"
      "inst_pcs st = [Storing 0, Start]" by (auto dest: case_option_Some)
  have "data_race Checked st" unfolding data_race_def st(2) by (rule exI [of _ 0], simp, rule exI [of _ 1], simp)
  moreover have "reachable (\<lambda>st. \<exists>n. st = new_singles n) (single_step Checked) st"
    by (rule run_threads_reachable [OF st(1)]) (auto intro: reach_init)
  ultimately show "\<exists>st. reachable (\<lambda>st. \<exists>n. st = new_singles n) (single_step Checked) st \<and> data_race Checked st" by blast
next
  have "case run_threads Unguarded [0, 1, 0, 1, 0, 0, 1, 1] (new_singles 2) of None \<Rightarrow> False
      | Some st \<Rightarrow> created st = 2 \<and> inst_pcs st = [Got (Some 0), Got (Some 1)]" by code_simp
  then obtain st :: single_sys where st: "run_threads Unguarded [0, 1, 0, 1, 0, 0, 1, 1] (new_singles 2) = Some st"
      "created st = 2" "inst_pcs st = [Got (Some 0), Got (Some 1)]" by (auto dest: case_option_Some)
  have "reachable (\<lambda>st. \<exists>n. st = new_singles n) (single_step Unguarded) st"
    by (rule run_threads_reachable [OF st(1)]) (auto intro: reach_init)
  with st show "\<exists>st. reachable (\<lambda>st. \<exists>n. st = new_singles n) (single_step Unguarded) st \<and>
      created st = 2 \<and> inst_pcs st = [Got (Some 0), Got (Some 1)]" by blast
qed

end
