(* ===== verification/UniqueLocks.thy ===== *)
theory UniqueLocks
  imports Prelude
begin

text \<open>
  \<open>example/boost/concurrent/example03_uniquelock.cpp\<close>: functions that work on shared data under \<open>std::unique_lock\<close>
  objects, as lists of calls that threads interleave.  Mutex 0 is \<open>mtx\<close>, 1 and 2 are \<open>mtx1\<close> and \<open>mtx2\<close>; the lock
  objects of a function are numbered.
\<close>

named_theorems ul_progs "the functions as lists of calls"

section \<open>Calls on lock objects\<close>

text \<open>
  \<open>Incr\<close> is \<open>shared_data++\<close>, a load and a store; \<open>LogOwns\<close> tests \<open>owns_lock()\<close>; \<open>Leave l\<close> is the destructor
  of the object.  \<open>Spawn\<close> and \<open>Join\<close> name a thread of the system.
\<close>

datatype ul_call =
    NewLock nat nat | NewDefer nat nat | NewAdopt nat nat
  | MtxLock nat | StdLock "nat list" | StdLockObjs "nat list"
  | DoLock nat | DoUnlock nat | LogOwns nat | Leave nat
  | Incr | SwapAB | Spawn nat | Join nat

text \<open>A lock object: its number, its mutex, and whether it owns it.\<close>

type_synonym lock_objs = "(nat \<times> nat \<times> bool) list"

definition set_obj :: "nat \<Rightarrow> nat \<times> bool \<Rightarrow> lock_objs \<Rightarrow> lock_objs" where
  "set_obj l v ls = (l, v) # filter (\<lambda>p. fst p \<noteq> l) ls"

definition obj_mutex :: "lock_objs \<Rightarrow> nat \<Rightarrow> nat list" where
  "obj_mutex ls l = (case map_of ls l of None \<Rightarrow> [] | Some (m, owns) \<Rightarrow> [m])"

definition obj_owns :: "lock_objs \<Rightarrow> nat \<Rightarrow> bool" where
  "obj_owns ls l \<longleftrightarrow> (case map_of ls l of None \<Rightarrow> False | Some (m, owns) \<Rightarrow> owns)"

text \<open>The mutexes a call has to take, and those it gives back.\<close>

fun needs :: "ul_call \<Rightarrow> lock_objs \<Rightarrow> nat list" where
  "needs (NewLock l m) ls = [m]"
| "needs (MtxLock m) ls = [m]"
| "needs (StdLock ms) ls = ms"
| "needs (StdLockObjs os) ls = concat (map (obj_mutex ls) os)"
| "needs (DoLock l) ls = obj_mutex ls l"
| "needs c ls = []"

fun frees :: "ul_call \<Rightarrow> lock_objs \<Rightarrow> nat list" where
  "frees (DoUnlock l) ls = obj_mutex ls l"
| "frees (Leave l) ls = (if obj_owns ls l then obj_mutex ls l else [])"
| "frees c ls = []"

text \<open>
  Calls that throw \<open>system_error\<close> or are undefined: locking an object that owns its mutex, unlocking
  one that does not, adopting a mutex that is not held.
\<close>

fun misuse :: "ul_call \<Rightarrow> lock_objs \<Rightarrow> nat list \<Rightarrow> bool" where
  "misuse (DoLock l) ls held \<longleftrightarrow> obj_mutex ls l = [] \<or> obj_owns ls l"
| "misuse (DoUnlock l) ls held \<longleftrightarrow> \<not> obj_owns ls l"
| "misuse (StdLockObjs os) ls held \<longleftrightarrow> (\<exists>l\<in>set os. obj_mutex ls l = [] \<or> obj_owns ls l)"
| "misuse (NewAdopt l m) ls held \<longleftrightarrow> m \<notin> set held"
| "misuse c ls held \<longleftrightarrow> False"

fun objs_after :: "ul_call \<Rightarrow> lock_objs \<Rightarrow> lock_objs" where
  "objs_after (NewLock l m) ls = set_obj l (m, True) ls"
| "objs_after (NewDefer l m) ls = set_obj l (m, False) ls"
| "objs_after (NewAdopt l m) ls = set_obj l (m, True) ls"
| "objs_after (DoLock l) ls = fold (\<lambda>m. set_obj l (m, True)) (obj_mutex ls l) ls"
| "objs_after (DoUnlock l) ls = fold (\<lambda>m. set_obj l (m, False)) (obj_mutex ls l) ls"
| "objs_after (StdLockObjs os) ls = fold (\<lambda>l ls'. fold (\<lambda>m. set_obj l (m, True)) (obj_mutex ls l) ls') os ls"
| "objs_after (Leave l) ls = filter (\<lambda>p. fst p \<noteq> l) ls"
| "objs_after c ls = ls"

definition ul_held_after :: "ul_call \<Rightarrow> lock_objs \<Rightarrow> nat list \<Rightarrow> nat list" where
  "ul_held_after c ls held = needs c ls @ filter (\<lambda>m. m \<notin> set (frees c ls)) held"

section \<open>Threads\<close>

text \<open>
  \<open>loaded\<close> is the value an increment has read and not yet written back; \<open>threw\<close> says that the thread
  misused a lock, which ends the program, or incremented the \<open>int\<close> beyond its range, which is undefined.
\<close>

record ul_thread =
  code :: "ul_call list"
  objs :: lock_objs
  holds :: "nat list"
  loaded :: "int option"
  logs :: "bool list"
  running :: bool
  threw :: bool

record ul_sys =
  threads :: "ul_thread list"
  shared_data :: int
  var_a :: int
  var_b :: int

definition ul_thread_of :: "bool \<Rightarrow> ul_call list \<Rightarrow> ul_thread" where
  "ul_thread_of run cs = \<lparr>code = cs, objs = [], holds = [], loaded = None, logs = [], running = run, threw = False\<rparr>"

definition ul_start :: "ul_call list list \<Rightarrow> ul_sys" where
  "ul_start css = \<lparr>threads = map (ul_thread_of True) css, shared_data = 0, var_a = 10, var_b = 99\<rparr>"

definition is_free :: "nat \<Rightarrow> ul_sys \<Rightarrow> bool" where
  "is_free m st \<longleftrightarrow> list_all (\<lambda>th. m \<notin> set (holds th)) (threads st)"

definition put_thread :: "nat \<Rightarrow> ul_thread \<Rightarrow> ul_sys \<Rightarrow> ul_sys" where
  "put_thread i th st = st\<lparr>threads := (threads st)[i := th]\<rparr>"

text \<open>The thread after a call, apart from what the call does to shared data.\<close>

definition after_call :: "ul_call \<Rightarrow> ul_call list \<Rightarrow> ul_thread \<Rightarrow> ul_thread" where
  "after_call c cs th =
     th\<lparr>code := cs, objs := objs_after c (objs th), holds := ul_held_after c (objs th) (holds th), loaded := None,
        logs := logs th @ (case c of LogOwns l \<Rightarrow> [obj_owns (objs th) l] | _ \<Rightarrow> [])\<rparr>"

definition INT_MAX :: int where
  "INT_MAX = 2 ^ 31 - 1"

definition run_call :: "nat \<Rightarrow> ul_call \<Rightarrow> ul_call list \<Rightarrow> ul_thread \<Rightarrow> ul_sys \<Rightarrow> ul_sys option" where
  "run_call i c cs th st =
     (let done = put_thread i (after_call c cs th) st in
      if misuse c (objs th) (holds th) then Some (put_thread i (th\<lparr>code := [], threw := True\<rparr>) st)
      else if \<not> list_all (\<lambda>m. is_free m st) (needs c (objs th)) then None
      else case c of
        Incr \<Rightarrow> (case loaded th of
                   None \<Rightarrow> Some (put_thread i (th\<lparr>loaded := Some (shared_data st)\<rparr>) st)
                 | Some v \<Rightarrow> if v = INT_MAX then Some (put_thread i (th\<lparr>code := [], threw := True\<rparr>) st)
                             else Some (done\<lparr>shared_data := v + 1\<rparr>))
      | SwapAB \<Rightarrow> Some (done\<lparr>var_a := var_b st, var_b := var_a st\<rparr>)
      | Spawn j \<Rightarrow> (if j < length (threads st) then Some (put_thread j ((threads done ! j)\<lparr>running := True\<rparr>) done) else None)
      | Join j \<Rightarrow> (if j < length (threads st) \<and> running (threads st ! j) \<and> code (threads st ! j) = [] then Some done else None)
      | _ \<Rightarrow> Some done)"

definition ul_exec :: "nat \<Rightarrow> ul_sys \<Rightarrow> ul_sys option" where
  "ul_exec i st =
     (if i < length (threads st) \<and> running (threads st ! i) then
        (case code (threads st ! i) of [] \<Rightarrow> None | c # cs \<Rightarrow> run_call i c cs (threads st ! i) st)
      else None)"

inductive ul_step :: "ul_sys \<Rightarrow> ul_sys \<Rightarrow> bool" where
  ul_stepI: "ul_exec i st = Some st' \<Longrightarrow> ul_step st st'"

inductive_cases ul_stepE: "ul_step st st'"

section \<open>The functions\<close>

definition use_unique :: "ul_call list" where [ul_progs]:
  "use_unique = [NewLock 0 0, Incr, DoUnlock 0, Leave 0]"

definition owns_lock :: "ul_call list" where [ul_progs]:
  "owns_lock = [NewLock 0 0, Incr, LogOwns 0, DoUnlock 0, LogOwns 0, Leave 0]"

definition defer_lock :: "ul_call list" where [ul_progs]:
  "defer_lock = [NewDefer 0 0, DoLock 0, DoUnlock 0, Leave 0]"

definition use_own_adopt :: "ul_call list" where [ul_progs]:
  "use_own_adopt = [MtxLock 0, NewAdopt 0 0, LogOwns 0, DoUnlock 0, Leave 0]"

definition ul_safe_swap :: "ul_call list" where [ul_progs]:
  "ul_safe_swap = [StdLock [1, 2], NewAdopt 0 1, NewAdopt 1 2, SwapAB, Leave 1, Leave 0]"

definition ul_safe_swap2 :: "ul_call list" where [ul_progs]:
  "ul_safe_swap2 = [NewDefer 0 1, NewDefer 1 2, StdLockObjs [0, 1], SwapAB, Leave 1, Leave 0]"

text \<open>\<open>get_lock\<close> returns its lock object, which becomes the one of \<open>use_return\<close>.\<close>

definition use_return :: "ul_call list" where [ul_progs]:
  "use_return = [NewLock 0 0, Incr, Incr, Leave 0]"

definition precision_lock :: "ul_call list" where [ul_progs]:
  "precision_lock = [NewLock 0 0, Incr, DoUnlock 0, DoLock 0, Incr, Leave 0]"

definition ul_functions :: "ul_call list list" where
  "ul_functions = [use_unique, owns_lock, defer_lock, use_own_adopt, ul_safe_swap, ul_safe_swap2, use_return, precision_lock]"

text \<open>\<open>use_own_defer\<close>, and the thread it starts and joins.\<close>

definition use_own_defer :: "ul_call list" where [ul_progs]:
  "use_own_defer = [NewLock 0 0, LogOwns 0, Spawn 1, Join 1, Leave 0]"

definition own_defer_thread :: "ul_call list" where [ul_progs]:
  "own_defer_thread = [NewDefer 0 0, LogOwns 0, DoLock 0, LogOwns 0, DoUnlock 0, Leave 0]"

definition own_defer_start :: ul_sys where
  "own_defer_start =
     \<lparr>threads = [ul_thread_of True use_own_defer, ul_thread_of False own_defer_thread], shared_data = 0, var_a = 10, var_b = 99\<rparr>"

section \<open>The locking discipline\<close>

text \<open>
  Ownership, followed along the code: no misuse, shared data only under its mutex, nothing held while
  waiting for a mutex, nothing held at the end.
\<close>

fun ul_disciplined :: "ul_call list \<Rightarrow> lock_objs \<Rightarrow> nat list \<Rightarrow> bool" where
  "ul_disciplined [] ls held \<longleftrightarrow> held = []"
| "ul_disciplined (c # cs) ls held \<longleftrightarrow>
     \<not> misuse c ls held \<and> (needs c ls = [] \<or> held = []) \<and>
     (case c of Incr \<Rightarrow> 0 \<in> set held | SwapAB \<Rightarrow> 1 \<in> set held \<and> 2 \<in> set held | Spawn j \<Rightarrow> False | Join j \<Rightarrow> False | _ \<Rightarrow> True) \<and>
     ul_disciplined cs (objs_after c ls) (ul_held_after c ls held)"

lemma ul_functions_disciplined: "list_all (\<lambda>cs. ul_disciplined cs [] []) ul_functions"
  by code_simp

fun incrs_left :: "ul_thread list \<Rightarrow> nat" where
  "incrs_left [] = 0"
| "incrs_left (th # ths) = count_list (code th) Incr + incrs_left ths"

lemma incrs_left_update:
  "i < length ths \<Longrightarrow> incrs_left (ths[i := th]) + count_list (code (ths ! i)) Incr = incrs_left ths + count_list (code th) Incr"
proof (induction ths arbitrary: i)
  case (Cons t ths)
  then show ?case by (cases i) (auto simp: Cons.IH [of "i - 1"])
qed simp

text \<open>\<open>n\<close> is the number of increments in the code at the start.\<close>

definition thread_ok :: "int \<Rightarrow> ul_thread \<Rightarrow> bool" where
  "thread_ok d th \<longleftrightarrow> running th \<and> \<not> threw th \<and> ul_disciplined (code th) (objs th) (holds th) \<and>
     (loaded th = None \<or> loaded th = Some d \<and> (\<exists>cs. code th = Incr # cs))"

definition ul_inv :: "nat \<Rightarrow> ul_sys \<Rightarrow> bool" where
  "ul_inv n st \<longleftrightarrow>
     (\<forall>i < length (threads st). thread_ok (shared_data st) (threads st ! i)) \<and>
     (\<forall>i < length (threads st). \<forall>j < length (threads st).
        i \<noteq> j \<longrightarrow> set (holds (threads st ! i)) \<inter> set (holds (threads st ! j)) = {}) \<and>
     shared_data st + int (incrs_left (threads st)) = int n \<and> int n \<le> INT_MAX \<and>
     {var_a st, var_b st} = {10, 99}"

lemma held_after_subset: "set (ul_held_after c ls held) \<subseteq> set (needs c ls) \<union> set held"
  by (auto simp: ul_held_after_def)

lemma ul_inv_done:
  assumes inv: "ul_inv n st" and i: "i < length (threads st)" and th: "th = threads st ! i" "code th = c # cs"
    and free: "list_all (\<lambda>m. is_free m st) (needs c (objs th))"
    and st': "threads st' = (threads st)[i := after_call c cs th]"
      "shared_data st' = shared_data st + (if c = Incr then 1 else 0)" "{var_a st', var_b st'} = {10, 99}"
  shows "ul_inv n st'"
proof -
  have ok: "thread_ok (shared_data st) th" using inv i th(1) by (simp add: ul_inv_def)
  have apart: "set (holds th) \<inter> set (holds (threads st ! j)) = {}" if "j < length (threads st)" "j \<noteq> i" for j
    using inv i th(1) that by (auto simp: ul_inv_def)
  have needs_apart: "set (needs c (objs th)) \<inter> set (holds (threads st ! j)) = {}" if "j < length (threads st)" for j
    using free that by (auto simp: is_free_def list_all_iff)
  have unchanged: "shared_data st' = shared_data st \<or> loaded (threads st ! j) = None"
    if j: "j < length (threads st)" "j \<noteq> i" for j
  proof (cases "c = Incr")
    case True
    then have "0 \<in> set (holds th)" using ok th(2) by (simp add: thread_ok_def)
    then have "0 \<notin> set (holds (threads st ! j))" using apart [OF j] by blast
    moreover have "thread_ok (shared_data st) (threads st ! j)" using inv j by (simp add: ul_inv_def)
    ultimately show ?thesis by (auto simp: thread_ok_def)
  qed (simp add: st'(2))
  have "thread_ok (shared_data st') (threads st' ! j)" if j: "j < length (threads st')" for j
  proof (cases "j = i")
    case True
    then show ?thesis using ok th(2) i st'(1) by (simp add: thread_ok_def after_call_def)
  next
    case False
    then have "thread_ok (shared_data st) (threads st ! j)" using inv j st'(1) by (simp add: ul_inv_def)
    then show ?thesis using unchanged [of j] j False st'(1) by (auto simp: thread_ok_def)
  qed
  moreover have "set (holds (threads st' ! j)) \<inter> set (holds (threads st' ! k)) = {}"
    if jk: "j < length (threads st')" "k < length (threads st')" "j \<noteq> k" for j k
  proof -
    have new: "set (holds (after_call c cs th)) \<subseteq> set (needs c (objs th)) \<union> set (holds th)"
      using held_after_subset by (simp add: after_call_def)
    have "set (holds (after_call c cs th)) \<inter> set (holds (threads st ! l)) = {}" if "l < length (threads st)" "l \<noteq> i" for l
      using new apart [OF that] needs_apart [OF that(1)] by blast
    moreover have "set (holds (threads st ! j)) \<inter> set (holds (threads st ! k)) = {}"
      using inv jk st'(1) by (simp add: ul_inv_def)
    ultimately show ?thesis using jk st'(1) i by (cases "j = i"; cases "k = i") (auto simp: Int_commute)
  qed
  moreover have "shared_data st' + int (incrs_left (threads st')) = int n"
  proof -
    have "incrs_left (threads st') + count_list (c # cs) Incr = incrs_left (threads st) + count_list cs Incr"
      using incrs_left_update [OF i, of "after_call c cs th"] th st'(1) by (simp add: after_call_def)
    then show ?thesis using inv st'(2) by (auto simp: ul_inv_def split: if_splits)
  qed
  moreover have "int n \<le> INT_MAX" using inv by (simp add: ul_inv_def)
  ultimately show ?thesis using st'(3) by (simp add: ul_inv_def)
qed

lemma ul_inv_loads:
  assumes inv: "ul_inv n st" and i: "i < length (threads st)" and cs: "code (threads st ! i) = Incr # cs"
  shows "ul_inv n (put_thread i ((threads st ! i)\<lparr>loaded := Some (shared_data st)\<rparr>) st)"
proof -
  let ?th = "(threads st ! i)\<lparr>loaded := Some (shared_data st)\<rparr>"
  have "thread_ok (shared_data st) (threads st ! i)" using inv i by (simp add: ul_inv_def)
  then have "thread_ok (shared_data st) ?th" using cs by (simp add: thread_ok_def)
  moreover have "incrs_left ((threads st)[i := ?th]) = incrs_left (threads st)"
    using incrs_left_update [OF i, of ?th] by simp
  ultimately show ?thesis using inv i unfolding ul_inv_def put_thread_def by (auto simp: nth_list_update)
qed

lemma incrs_left_pos: "i < length ths \<Longrightarrow> code (ths ! i) = Incr # cs \<Longrightarrow> 0 < incrs_left ths"
  using incrs_left_update [of i ths "(ths ! i)\<lparr>code := cs\<rparr>"] by simp

lemma ul_exec_inv:
  assumes inv: "ul_inv n st" and step: "ul_exec i st = Some st'"
  shows "ul_inv n st'"
proof -
  have i: "i < length (threads st)" using step by (simp add: ul_exec_def split: if_splits)
  define th where "th = threads st ! i"
  obtain c cs where c: "code th = c # cs" and run: "run_call i c cs th st = Some st'"
    using step by (auto simp: ul_exec_def th_def split: if_splits list.splits)
  have ok: "thread_ok (shared_data st) th" using inv i by (simp add: ul_inv_def th_def)
  then have dis: "\<not> misuse c (objs th) (holds th)"
      "case c of Incr \<Rightarrow> 0 \<in> set (holds th) | SwapAB \<Rightarrow> 1 \<in> set (holds th) \<and> 2 \<in> set (holds th)
         | Spawn j \<Rightarrow> False | Join j \<Rightarrow> False | _ \<Rightarrow> True"
    using c by (simp_all add: thread_ok_def)
  then have free: "list_all (\<lambda>m. is_free m st) (needs c (objs th))" using run by (auto simp: run_call_def Let_def split: if_splits)
  note go = ul_inv_done [OF inv i th_def c free]
  show ?thesis
  proof (cases "c = Incr \<and> loaded th = None")
    case True
    then have "st' = put_thread i (th\<lparr>loaded := Some (shared_data st)\<rparr>) st"
      using run by (simp add: run_call_def Let_def)
    then show ?thesis using ul_inv_loads [OF inv i, of cs] c True by (simp add: th_def)
  next
    case False
    have vars: "{var_a st, var_b st} = {10, 99}" using inv by (simp add: ul_inv_def)
    consider "c = Incr" "loaded th = Some (shared_data st)" | "c = SwapAB" | "c \<noteq> Incr" "c \<noteq> SwapAB"
      using False ok by (auto simp: thread_ok_def)
    then show ?thesis
    proof cases
      case 1
      have "0 < incrs_left (threads st)" using incrs_left_pos [OF i, of cs] c 1(1) by (simp add: th_def)
      then have "shared_data st < INT_MAX" using inv by (simp add: ul_inv_def)
      with 1 have "st' = (put_thread i (after_call c cs th) st)\<lparr>shared_data := shared_data st + 1\<rparr>"
        using run dis(1) free by (simp add: run_call_def Let_def)
      then show ?thesis using vars 1 by (intro go) (simp_all add: put_thread_def)
    next
      case 2
      then have "st' = (put_thread i (after_call c cs th) st)\<lparr>var_a := var_b st, var_b := var_a st\<rparr>"
        using run dis(1) free by (simp add: run_call_def Let_def)
      then show ?thesis using vars 2 by (intro go) (auto simp: put_thread_def)
    next
      case 3
      then have "st' = put_thread i (after_call c cs th) st"
        using run dis free by (cases c) (simp_all add: run_call_def Let_def)
      then show ?thesis using vars 3 by (intro go) (simp_all add: put_thread_def)
    qed
  qed
qed

lemma ul_start_inv: "list_all (\<lambda>cs. ul_disciplined cs [] []) css \<Longrightarrow>
    int (incrs_left (map (ul_thread_of True) css)) \<le> INT_MAX \<Longrightarrow> ul_inv (incrs_left (map (ul_thread_of True) css)) (ul_start css)"
  by (auto simp: ul_inv_def ul_start_def thread_ok_def ul_thread_of_def list_all_iff)

lemma ul_progress:
  assumes inv: "ul_inv n st" and i: "i < length (threads st)" "code (threads st ! i) \<noteq> []"
  shows "\<exists>st'. ul_step st st'"
proof -
  have "\<exists>j < length (threads st). code (threads st ! j) \<noteq> [] \<and>
      list_all (\<lambda>m. is_free m st) (needs (hd (code (threads st ! j))) (objs (threads st ! j)))"
  proof (cases "\<exists>j < length (threads st). holds (threads st ! j) \<noteq> []")
    case True
    then obtain j where j: "j < length (threads st)" "holds (threads st ! j) \<noteq> []" by blast
    have "ul_disciplined (code (threads st ! j)) (objs (threads st ! j)) (holds (threads st ! j))"
      using inv j by (simp add: ul_inv_def thread_ok_def)
    with j show ?thesis by (cases "code (threads st ! j)") auto
  next
    case False
    then have "is_free m st" for m by (auto simp: is_free_def list_all_iff in_set_conv_nth)
    with i show ?thesis by (auto simp: list_all_iff)
  qed
  then obtain j c cs where j: "j < length (threads st)" "code (threads st ! j) = c # cs"
      "list_all (\<lambda>m. is_free m st) (needs c (objs (threads st ! j)))"
    by (metis hd_Cons_tl)
  have "thread_ok (shared_data st) (threads st ! j)" using inv j(1) by (simp add: ul_inv_def)
  then have "ul_exec j st \<noteq> None"
    using j by (cases c) (auto simp: ul_exec_def thread_ok_def run_call_def Let_def split: option.splits)
  then show ?thesis by (auto intro: ul_stepI)
qed

section \<open>Properties\<close>

text \<open>
  C28: Threads that run the functions of the file other than \<open>use_own_defer\<close> (which never returns, \<open>own_defer_deadlocks\<close>),
  with no more increments in all than an \<open>int\<close> holds, in any interleaving: \<open>shared_data\<close> does not overflow, no lock
  object is misused, no two threads hold a mutex together, no increment of \<open>shared_data\<close> is lost
  (what it has and the increments still to come are the increments there were), \<open>a\<close> and \<open>b\<close> only trade their values, and while
  a thread has code left some thread can move; at the end no mutex is held.
\<close>

theorem unique_locks_sound:
  assumes "set css \<subseteq> set ul_functions" "reachable (\<lambda>st. st = ul_start css) ul_step st"
    and "int (incrs_left (map (ul_thread_of True) css)) \<le> INT_MAX"
  shows "list_all (\<lambda>th. \<not> threw th) (threads st) \<and>
    (\<forall>i < length (threads st). \<forall>j < length (threads st). i \<noteq> j \<longrightarrow>
       set (holds (threads st ! i)) \<inter> set (holds (threads st ! j)) = {}) \<and>
    shared_data st + int (incrs_left (threads st)) = int (incrs_left (map (ul_thread_of True) css)) \<and>
    {var_a st, var_b st} = {10, 99} \<and>
    ((\<exists>i < length (threads st). code (threads st ! i) \<noteq> []) \<longrightarrow> (\<exists>st'. ul_step st st')) \<and>
    (list_all (\<lambda>th. code th = []) (threads st) \<longrightarrow> list_all (\<lambda>th. holds th = []) (threads st))"
proof -
  have dis: "list_all (\<lambda>cs. ul_disciplined cs [] []) css"
    using assms(1) ul_functions_disciplined by (auto simp: list_all_iff)
  have inv: "ul_inv (incrs_left (map (ul_thread_of True) css)) st" using assms(2)
    by (induction rule: reachable.induct) (auto simp: ul_start_inv [OF dis assms(3)] elim!: ul_stepE intro: ul_exec_inv)
  moreover have "list_all (\<lambda>th. \<not> threw th) (threads st)"
    using inv by (auto simp: ul_inv_def thread_ok_def list_all_length)
  moreover have "list_all (\<lambda>th. holds th = []) (threads st)" if "list_all (\<lambda>th. code th = []) (threads st)"
    using inv that by (auto simp: ul_inv_def thread_ok_def list_all_length)
  moreover have "(\<exists>i < length (threads st). code (threads st ! i) \<noteq> []) \<longrightarrow> (\<exists>st'. ul_step st st')"
    using ul_progress [OF inv] by blast
  ultimately show ?thesis unfolding ul_inv_def by blast
qed

lemma unique_locks_sound_witness:
  "\<exists>st. ul_step (ul_start [use_unique, ul_safe_swap]) st"
proof -
  have "set [use_unique, ul_safe_swap] \<subseteq> set ul_functions" by (simp add: ul_functions_def)
  moreover have "reachable (\<lambda>st. st = ul_start [use_unique, ul_safe_swap]) ul_step (ul_start [use_unique, ul_safe_swap])"
    by (rule reach_init) (rule refl)
  moreover have "int (incrs_left (map (ul_thread_of True) [use_unique, ul_safe_swap])) \<le> INT_MAX"
    by (simp add: ul_thread_of_def use_unique_def ul_safe_swap_def INT_MAX_def)
  ultimately have "(\<exists>i < length (threads (ul_start [use_unique, ul_safe_swap])).
      code (threads (ul_start [use_unique, ul_safe_swap]) ! i) \<noteq> []) \<longrightarrow> (\<exists>st'. ul_step (ul_start [use_unique, ul_safe_swap]) st')"
    using unique_locks_sound by blast
  moreover have "0 < length (threads (ul_start [use_unique, ul_safe_swap]))"
    "code (threads (ul_start [use_unique, ul_safe_swap]) ! 0) \<noteq> []"
    by (simp_all add: ul_start_def ul_thread_of_def use_unique_def)
  ultimately show ?thesis by blast
qed

text \<open>The states that \<open>use_own_defer\<close> goes through, alone with its thread.\<close>

fun ul_run :: "nat list \<Rightarrow> ul_sys \<Rightarrow> ul_sys list" where
  "ul_run [] st = [st]"
| "ul_run (i # is) st = st # (case ul_exec i st of None \<Rightarrow> [] | Some st' \<Rightarrow> ul_run is st')"

definition own_defer_states :: "ul_sys list" where
  "own_defer_states = ul_run [0, 0, 0, 1, 1] own_defer_start"

lemma own_defer_closed:
  "list_all (\<lambda>st. list_all (\<lambda>i. case ul_exec i st of None \<Rightarrow> True | Some st' \<Rightarrow> st' \<in> set own_defer_states) [0, 1] \<and>
     length (threads st) = 2 \<and> code (threads st ! 0) \<noteq> []) own_defer_states"
  by code_simp

text \<open>
  \<open>use_own_defer\<close> never returns: it joins a thread that locks \<open>mtx\<close> while it holds \<open>mtx\<close> itself.  In every reachable
  state the function has not ended, and after five steps no thread can move.  \<open>main\<close> calls it, so the calls
  after it are never made.
\<close>

theorem own_defer_deadlocks:
  "\<not> (\<exists>st. reachable (\<lambda>st. st = own_defer_start) ul_step st \<and> code (threads st ! 0) = []) \<and>
   length own_defer_states = 6 \<and>
   \<not> (\<exists>st'. ul_step (last own_defer_states) st')"
proof (intro conjI notI)
  have start: "own_defer_start \<in> set own_defer_states" by (simp add: own_defer_states_def)
  have closed: "st' \<in> set own_defer_states" if mem: "st \<in> set own_defer_states" and step: "ul_step st st'" for st st'
  proof -
    obtain i where i: "ul_exec i st = Some st'" using step by (auto elim: ul_stepE)
    have st: "list_all (\<lambda>i. case ul_exec i st of None \<Rightarrow> True | Some st' \<Rightarrow> st' \<in> set own_defer_states) [0, 1]"
        "length (threads st) = 2"
      using own_defer_closed mem by (auto simp: list_all_iff)
    moreover have "i < length (threads st)" using i by (simp add: ul_exec_def split: if_splits)
    ultimately have "i = 0 \<or> i = 1" by auto
    then show ?thesis using st(1) i by auto
  qed
  assume "\<exists>st. reachable (\<lambda>st. st = own_defer_start) ul_step st \<and> code (threads st ! 0) = []"
  then obtain st where st: "reachable (\<lambda>st. st = own_defer_start) ul_step st" "code (threads st ! 0) = []" by blast
  from st(1) have "st \<in> set own_defer_states" by (induction rule: reachable.induct) (auto simp: start intro: closed)
  with st(2) own_defer_closed show False by (auto simp: list_all_iff)
next
  show "length own_defer_states = 6" by code_simp
  have stuck: "ul_exec 0 (last own_defer_states) = None \<and> ul_exec 1 (last own_defer_states) = None \<and>
      length (threads (last own_defer_states)) = 2" by code_simp
  assume "\<exists>st'. ul_step (last own_defer_states) st'"
  then obtain i st' where i: "ul_exec i (last own_defer_states) = Some st'" by (auto elim: ul_stepE)
  then have "i < length (threads (last own_defer_states))" by (simp add: ul_exec_def split: if_splits)
  with stuck have "i = 0 \<or> i = 1" by auto
  with i stuck show False by auto
qed

end
