(* ===== verification/LockedMaps.thy ===== *)
theory LockedMaps
  imports Prelude
begin

text \<open>
  The two classes of \<open>example/boost/concurrent/example03_uniquelock.cpp\<close> that keep a map under a lock: \<open>DNService\<close>, whose
  lookups share the lock, and \<open>RecursiveDemo\<close>, whose \<open>AddScore\<close> calls \<open>QueryStudent\<close> while it holds its recursive
  mutex.
\<close>

section \<open>DNService\<close>

type_synonym dns_info = "string \<rightharpoonup> string"

definition QueryDNS :: "dns_info \<Rightarrow> string \<Rightarrow> string" where
  "QueryDNS dns dnsname = (case dns dnsname of Some e \<Rightarrow> e | None \<Rightarrow> '''')"

text \<open>\<open>insert\<close> leaves an entry that is there.\<close>

definition AddDnsInfo :: "string \<Rightarrow> string \<Rightarrow> dns_info \<Rightarrow> dns_info" where
  "AddDnsInfo dnsname dnsentry dns = (if dns dnsname = None then dns(dnsname \<mapsto> dnsentry) else dns)"

text \<open>
  The shared mutex: how many lookups hold it, and whether an \<open>AddDnsInfo\<close> does.  A thread is a call: waiting,
  inside, or back, with the answer of a lookup.
\<close>

datatype dns_call = Query string | Add string string

datatype dns_pc = Waiting | Inside | Back "string option"

record dns_sys =
  dns_map :: dns_info
  readers :: nat
  writer :: bool
  dns_threads :: "(dns_call \<times> dns_pc) list"
  adds :: "(string \<times> string) list"

definition dns_start :: "dns_call list \<Rightarrow> dns_sys" where
  "dns_start cs = \<lparr>dns_map = Map.empty, readers = 0, writer = False, dns_threads = map (\<lambda>c. (c, Waiting)) cs, adds = []\<rparr>"

definition dns_exec :: "nat \<Rightarrow> dns_sys \<Rightarrow> dns_sys option" where
  "dns_exec i st =
     (if i < length (dns_threads st) then
        (case dns_threads st ! i of
           (Query n, Waiting) \<Rightarrow>
             if writer st then None
             else Some (st\<lparr>readers := Suc (readers st), dns_threads := (dns_threads st)[i := (Query n, Inside)]\<rparr>)
         | (Query n, Inside) \<Rightarrow>
             Some (st\<lparr>readers := readers st - 1,
                      dns_threads := (dns_threads st)[i := (Query n, Back (Some (QueryDNS (dns_map st) n)))]\<rparr>)
         | (Add n e, Waiting) \<Rightarrow>
             if writer st \<or> readers st > 0 then None
             else Some (st\<lparr>writer := True, dns_threads := (dns_threads st)[i := (Add n e, Inside)]\<rparr>)
         | (Add n e, Inside) \<Rightarrow>
             Some (st\<lparr>writer := False, dns_map := AddDnsInfo n e (dns_map st), adds := adds st @ [(n, e)],
                      dns_threads := (dns_threads st)[i := (Add n e, Back None)]\<rparr>)
         | _ \<Rightarrow> None)
      else None)"

inductive dns_step :: "dns_sys \<Rightarrow> dns_sys \<Rightarrow> bool" where
  dns_stepI: "dns_exec i st = Some st' \<Longrightarrow> dns_step st st'"

fun is_query :: "dns_call \<times> dns_pc \<Rightarrow> bool" where
  "is_query (Query n, Inside) \<longleftrightarrow> True"
| "is_query p \<longleftrightarrow> False"

fun is_add :: "dns_call \<times> dns_pc \<Rightarrow> bool" where
  "is_add (Add n e, Inside) \<longleftrightarrow> True"
| "is_add p \<longleftrightarrow> False"

text \<open>The entry added first for a name.\<close>

definition first_entry :: "(string \<times> string) list \<Rightarrow> dns_info" where
  "first_entry es = map_of es"

lemma first_entry_add: "AddDnsInfo n e (first_entry es) = first_entry (es @ [(n, e)])"
  by (auto simp: AddDnsInfo_def first_entry_def map_of_append map_add_def fun_eq_iff split: option.splits)

definition dns_inv :: "dns_sys \<Rightarrow> bool" where
  "dns_inv st \<longleftrightarrow>
     readers st = how_many is_query (dns_threads st) \<and> (if writer st then 1 else 0) = how_many is_add (dns_threads st) \<and>
     (writer st \<longrightarrow> readers st = 0) \<and> dns_map st = first_entry (adds st) \<and>
     (\<forall>n r. (Query n, Back (Some r)) \<in> set (dns_threads st) \<longrightarrow>
        (\<exists>k \<le> length (adds st). r = QueryDNS (first_entry (take k (adds st))) n))"

lemma answers_grow:
  assumes "\<forall>n r. (Query n, Back (Some r)) \<in> set ths \<longrightarrow> (\<exists>k \<le> length as. r = QueryDNS (first_entry (take k as)) n)"
    "\<And>n r. x = (Query n, Back (Some r)) \<Longrightarrow> \<exists>k \<le> length (as @ bs). r = QueryDNS (first_entry (take k (as @ bs))) n"
  shows "\<forall>n r. (Query n, Back (Some r)) \<in> set (ths[i := x]) \<longrightarrow>
    (\<exists>k \<le> length (as @ bs). r = QueryDNS (first_entry (take k (as @ bs))) n)"
proof (intro allI impI)
  fix n r assume "(Query n, Back (Some r)) \<in> set (ths[i := x])"
  then have "(Query n, Back (Some r)) = x \<or> (Query n, Back (Some r)) \<in> set ths"
    using set_update_subset_insert [of ths i x] by blast
  then show "\<exists>k \<le> length (as @ bs). r = QueryDNS (first_entry (take k (as @ bs))) n"
  proof
    assume "(Query n, Back (Some r)) \<in> set ths"
    then obtain k where "k \<le> length as" "r = QueryDNS (first_entry (take k as)) n" using assms(1) by blast
    then show ?thesis by (intro exI [of _ k]) simp
  qed (use assms(2) in metis)
qed

lemma dns_exec_inv: "dns_inv st \<Longrightarrow> dns_exec i st = Some st' \<Longrightarrow> dns_inv st'"
proof -
  assume inv: "dns_inv st" and step: "dns_exec i st = Some st'"
  then have i: "i < length (dns_threads st)" by (simp add: dns_exec_def split: if_splits)
  obtain c pc where th: "dns_threads st ! i = (c, pc)" by fastforce
  note counts = how_many_update [OF i, of is_query] how_many_update [OF i, of is_add]
  have known: "\<forall>n r. (Query n, Back (Some r)) \<in> set (dns_threads st) \<longrightarrow>
      (\<exists>k \<le> length (adds st). r = QueryDNS (first_entry (take k (adds st))) n)" using inv by (simp add: dns_inv_def)
  show ?thesis
  proof (cases c)
    case (Query n)
    show ?thesis
    proof (cases pc)
      case Waiting
      then have "st' = st\<lparr>readers := Suc (readers st), dns_threads := (dns_threads st)[i := (Query n, Inside)]\<rparr>" "\<not> writer st"
        using step i th Query by (auto simp: dns_exec_def split: if_splits)
      then show ?thesis using inv counts [of "(Query n, Inside)"] th Query Waiting
          answers_grow [OF known, of "(Query n, Inside)" "[]" i]
        by (simp add: dns_inv_def)
    next
      case Inside
      then have st': "st' = st\<lparr>readers := readers st - 1,
          dns_threads := (dns_threads st)[i := (Query n, Back (Some (QueryDNS (dns_map st) n)))]\<rparr>"
        using step i th Query by (auto simp: dns_exec_def)
      have "dns_map st = first_entry (adds st)" using inv by (simp add: dns_inv_def)
      then have "\<exists>k \<le> length (adds st). QueryDNS (dns_map st) n = QueryDNS (first_entry (take k (adds st))) n"
        by (intro exI [of _ "length (adds st)"]) simp
      then have "\<forall>m r. (Query m, Back (Some r)) \<in> set (dns_threads st') \<longrightarrow>
          (\<exists>k \<le> length (adds st). r = QueryDNS (first_entry (take k (adds st))) m)"
        using answers_grow [OF known, of "(Query n, Back (Some (QueryDNS (dns_map st) n)))" "[]" i] st' by auto
      then show ?thesis using inv st' counts [of "(Query n, Back (Some (QueryDNS (dns_map st) n)))"] th Query Inside
        by (auto simp: dns_inv_def)
    qed (use step i th Query in \<open>simp add: dns_exec_def\<close>)
  next
    case (Add n e)
    show ?thesis
    proof (cases pc)
      case Waiting
      then have "st' = st\<lparr>writer := True, dns_threads := (dns_threads st)[i := (Add n e, Inside)]\<rparr>"
          "\<not> writer st" "readers st = 0"
        using step i th Add by (auto simp: dns_exec_def split: if_splits)
      then show ?thesis using inv counts [of "(Add n e, Inside)"] th Add Waiting
          answers_grow [OF known, of "(Add n e, Inside)" "[]" i]
        by (simp add: dns_inv_def)
    next
      case Inside
      then have st': "st' = st\<lparr>writer := False, dns_map := AddDnsInfo n e (dns_map st), adds := adds st @ [(n, e)],
          dns_threads := (dns_threads st)[i := (Add n e, Back None)]\<rparr>"
        using step i th Add by (auto simp: dns_exec_def)
      have "how_many is_add (dns_threads st) > 0" using th Add Inside i by (intro how_many_pos [of "(Add n e, Inside)"])
          (auto simp: in_set_conv_nth)
      then have "writer st" "how_many is_add (dns_threads st) = 1" using inv by (auto simp: dns_inv_def split: if_splits)
      then show ?thesis using inv st' counts [of "(Add n e, Back None)"] th Add Inside
          answers_grow [OF known, of "(Add n e, Back None)" "[(n, e)]" i]
        by (simp add: dns_inv_def first_entry_add)
    qed (use step i th Add in \<open>simp add: dns_exec_def\<close>)
  qed
qed

interpretation dns: step_invariant "\<lambda>st. \<exists>cs. st = dns_start cs" dns_step dns_inv
proof unfold_locales
  show "dns_inv st" if "\<exists>cs. st = dns_start cs" for st
    using that by (auto simp: dns_inv_def dns_start_def first_entry_def how_many_def filter_empty_conv)
  show "dns_inv st'" if "dns_inv st" "dns_step st st'" for st st'
    using that by (auto elim!: dns_step.cases intro: dns_exec_inv)
qed

text \<open>
  \<open>DNService\<close> under any number of concurrent calls: a call of \<open>AddDnsInfo\<close> is alone inside, lookups share; the map
  holds for every name the entry added first; and every answer is the one that some point in the history
  of the additions gives, the empty string when there was no entry.
\<close>

theorem dns_service:
  assumes "reachable (\<lambda>st. \<exists>cs. st = dns_start cs) dns_step st"
  shows "how_many is_add (dns_threads st) \<le> 1 \<and>
    (0 < how_many is_add (dns_threads st) \<longrightarrow> how_many is_query (dns_threads st) = 0) \<and>
    dns_map st = map_of (adds st) \<and>
    (\<forall>n r. (Query n, Back (Some r)) \<in> set (dns_threads st) \<longrightarrow>
      (\<exists>k \<le> length (adds st). r = (case map_of (take k (adds st)) n of Some e \<Rightarrow> e | None \<Rightarrow> '''')))"
  using dns.reachable_inv [OF assms] by (auto simp: dns_inv_def first_entry_def QueryDNS_def split: if_splits)

lemma dns_service_witness:
  "\<exists>st. dns_map st = [''a'' \<mapsto> ''1''] \<and> adds st = [(''a'', ''1'')] \<and> reachable (\<lambda>st. \<exists>cs. st = dns_start cs) dns_step st"
proof -
  define st1 where "st1 = (dns_start [Add ''a'' ''1''])\<lparr>writer := True, dns_threads := [(Add ''a'' ''1'', Inside)]\<rparr>"
  define st2 where "st2 = st1\<lparr>writer := False, dns_map := [''a'' \<mapsto> ''1''], adds := [(''a'', ''1'')],
    dns_threads := [(Add ''a'' ''1'', Back None)]\<rparr>"
  have "dns_exec 0 (dns_start [Add ''a'' ''1'']) = Some st1" by (simp add: dns_exec_def dns_start_def st1_def)
  moreover have "dns_exec 0 st1 = Some st2"
    by (simp add: dns_exec_def dns_start_def st1_def st2_def AddDnsInfo_def)
  ultimately have "reachable (\<lambda>st. \<exists>cs. st = dns_start cs) dns_step st2"
    by (intro reach_step [OF reach_step [OF reach_init]] dns_stepI) auto
  with dns_service [OF this] show ?thesis by (intro exI [of _ st2]) (simp add: st2_def)
qed

section \<open>RecursiveDemo\<close>

text \<open>The scores, and how deep the caller holds \<open>_recursive_mtx\<close>.\<close>

record recursive_demo =
  students :: "string \<rightharpoonup> int"
  depth :: nat

text \<open>\<open>int\<close> addition overflows outside 32 bits.\<close>

definition int_add :: "int \<Rightarrow> int \<Rightarrow> int cxx" where
  "int_add a b = (if - (2 ^ 31) \<le> a + b \<and> a + b < 2 ^ 31 then Ok (a + b) else UB)"

definition guard_enter :: "recursive_demo \<Rightarrow> recursive_demo" where
  "guard_enter st = st\<lparr>depth := Suc (depth st)\<rparr>"

definition guard_leave :: "recursive_demo \<Rightarrow> recursive_demo" where
  "guard_leave st = st\<lparr>depth := depth st - 1\<rparr>"

definition QueryStudent :: "string \<Rightarrow> recursive_demo \<Rightarrow> bool \<times> recursive_demo" where
  "QueryStudent name st = (let st1 = guard_enter st in (students st1 name \<noteq> None, guard_leave st1))"

text \<open>\<open>_students_info[name]\<close> makes an entry 0 when there is none.\<close>

definition AddScore :: "string \<Rightarrow> int \<Rightarrow> recursive_demo \<Rightarrow> recursive_demo cxx" where
  "AddScore name score st =
     (let st1 = guard_enter st; (found, st2) = QueryStudent name st1 in
      if \<not> found then Ok (guard_leave (st2\<lparr>students := (students st2)(name \<mapsto> score)\<rparr>))
      else cxx_bind (int_add (case students st2 name of Some s \<Rightarrow> s | None \<Rightarrow> 0) score)
        (\<lambda>s. Ok (guard_leave (st2\<lparr>students := (students st2)(name \<mapsto> s)\<rparr>))))"

definition AddScoreAtomic :: "string \<Rightarrow> int \<Rightarrow> recursive_demo \<Rightarrow> recursive_demo cxx" where
  "AddScoreAtomic name score st =
     (let st1 = guard_enter st in
      case students st1 name of
        None \<Rightarrow> Ok (guard_leave (st1\<lparr>students := (students st1)(name \<mapsto> score)\<rparr>))
      | Some s \<Rightarrow> cxx_bind (int_add s score) (\<lambda>s'. Ok (guard_leave (st1\<lparr>students := (students st1)(name \<mapsto> s')\<rparr>))))"

lemma AddScore_eq: "AddScore name score st = AddScoreAtomic name score st"
  by (auto simp: AddScore_def AddScoreAtomic_def QueryStudent_def guard_enter_def guard_leave_def Let_def split: option.splits)

definition score_of :: "string \<Rightarrow> (string \<times> int) list \<Rightarrow> int" where
  "score_of name es = sum_list (map snd (filter (\<lambda>p. fst p = name) es))"

text \<open>Scores that stay within an \<open>int\<close> as they are added up.\<close>

definition scores_fit :: "(string \<times> int) list \<Rightarrow> bool" where
  "scores_fit es \<longleftrightarrow> (\<forall>k \<le> length es. \<forall>name. - (2 ^ 31) \<le> score_of name (take k es) \<and> score_of name (take k es) < 2 ^ 31)"

lemma score_of_snoc: "score_of name (es @ [(n, s)]) = score_of name es + (if n = name then s else 0)"
  by (simp add: score_of_def)

lemma scores_fit_snoc: "scores_fit (es @ [e]) \<Longrightarrow> scores_fit es \<and> (\<forall>name. - (2 ^ 31) \<le> score_of name (es @ [e]) \<and> score_of name (es @ [e]) < 2 ^ 31)"
proof
  assume fit: "scores_fit (es @ [e])"
  then have all: "- (2 ^ 31) \<le> score_of name (take k (es @ [e])) \<and> score_of name (take k (es @ [e])) < 2 ^ 31"
    if "k \<le> Suc (length es)" for k name using that unfolding scores_fit_def by simp
  show "scores_fit es" unfolding scores_fit_def
  proof (intro allI impI)
    fix k name assume "k \<le> length es"
    then show "- (2 ^ 31) \<le> score_of name (take k es) \<and> score_of name (take k es) < 2 ^ 31" using all [of k name] by simp
  qed
  show "\<forall>name. - (2 ^ 31) \<le> score_of name (es @ [e]) \<and> score_of name (es @ [e]) < 2 ^ 31"
    using all [of "Suc (length es)"] by simp
qed

text \<open>
  \<open>AddScore\<close>, which queries under its own lock, does exactly what \<open>AddScoreAtomic\<close> does, overflow included, and gives the
  recursive mutex back as deep as it was.  After any scores that fit an \<open>int\<close>, each student
  has the sum of the scores added for him, and only students that were given a score have one.
\<close>

theorem recursive_demo_scores:
  "AddScore name score st = AddScoreAtomic name score st \<and>
   (scores_fit es \<longrightarrow> (\<exists>st'. cxx_fold (\<lambda>s (n, x). AddScore n x s) \<lparr>students = Map.empty, depth = d\<rparr> es = Ok st' \<and>
      depth st' = d \<and>
      students st' = (\<lambda>n. if n \<in> fst ` set es then Some (score_of n es) else None)))"
proof (rule conjI [OF AddScore_eq], rule impI)
  assume "scores_fit es"
  then show "\<exists>st'. cxx_fold (\<lambda>s (n, x). AddScore n x s) \<lparr>students = Map.empty, depth = d\<rparr> es = Ok st' \<and>
      depth st' = d \<and> students st' = (\<lambda>n. if n \<in> fst ` set es then Some (score_of n es) else None)"
  proof (induction es rule: rev_induct)
    case (snoc e es)
    obtain n x where e: "e = (n, x)" by fastforce
    from snoc scores_fit_snoc obtain st1 where st1: "cxx_fold (\<lambda>s (n, x). AddScore n x s) \<lparr>students = Map.empty, depth = d\<rparr> es = Ok st1"
      "depth st1 = d" "students st1 = (\<lambda>n. if n \<in> fst ` set es then Some (score_of n es) else None)" by blast
    have range: "- (2 ^ 31) \<le> score_of n es + x \<and> score_of n es + x < 2 ^ 31"
      using conjunct2 [OF scores_fit_snoc [OF snoc.prems], rule_format, of n] by (simp add: e score_of_snoc)
    have none: "score_of m es = 0" if "m \<notin> fst ` set es" for m
    proof -
      have "filter (\<lambda>p. fst p = m) es = []" using that by (auto simp: filter_empty_conv)
      then show ?thesis by (simp add: score_of_def)
    qed
    show ?case
      using st1 range none
      by (auto simp: cxx_fold_append cxx_simps e AddScore_eq AddScoreAtomic_def guard_enter_def guard_leave_def int_add_def
          score_of_snoc fun_eq_iff)
  qed simp
qed

lemma recursive_demo_scores_witness:
  "\<exists>st. cxx_fold (\<lambda>s (n, x). AddScore n x s) \<lparr>students = Map.empty, depth = 0\<rparr> [(''a'', 2), (''a'', 3)] = Ok st \<and> students st ''a'' = Some 5"
proof -
  have "scores_fit [(''a'', 2), (''a'', 3)]"
    by (auto simp: scores_fit_def score_of_def le_Suc_eq numeral_2_eq_2)
  then have "\<exists>st'. cxx_fold (\<lambda>s (n, x). AddScore n x s) \<lparr>students = Map.empty, depth = 0\<rparr> [(''a'', 2), (''a'', 3)] = Ok st' \<and>
      depth st' = 0 \<and> students st' = (\<lambda>n. if n \<in> fst ` set [(''a'', 2 :: int), (''a'', 3)] then Some (score_of n [(''a'', 2), (''a'', 3)]) else None)"
    using recursive_demo_scores by blast
  then show ?thesis by (auto simp: score_of_def)
qed

end
