(* ===== verification/ThreadHandles.thy ===== *)
theory ThreadHandles
  imports Prelude "HOL-Library.Multiset"
begin

text \<open>
  Thread objects in \<open>example/boost/concurrent/example01_thread.cpp\<close>: moving, joining, detaching and destroying
  \<open>std::thread\<close> objects (\<open>dagerous_use\<close>), the wrapper \<open>Joining_thread\<close>, and the functions that give a thread a
  reference to a local variable (\<open>oops\<close>, \<open>use_join\<close>, \<open>catch_exeption\<close>, \<open>auto_guard\<close>).
\<close>

section \<open>std::thread\<close>

text \<open>
  \<open>objs\<close> maps the number of an object to the thread it stands for, if any; a dead object has no entry.  Threads are
  numbered as they are started.  \<open>joins\<close> and \<open>detaches\<close> are the threads that were joined and detached, in order.
\<close>

record thread_sys =
  thread_objs :: "(nat \<times> nat option) list"
  started :: nat
  joins :: "nat list"
  detaches :: "nat list"

definition no_threads :: thread_sys where
  "no_threads = \<lparr>thread_objs = [], started = 0, joins = [], detaches = []\<rparr>"

text \<open>
  A statement is carried out, ends the program in \<open>std::terminate\<close>, throws, or uses an object that is not there.
  A join of a thread that runs for ever never returns; \<open>ends\<close> says which threads end.
\<close>

datatype 'a stmt_result = Fine 'a | Terminates | Throws | NoObject | Hangs

fun then_do :: "'a stmt_result \<Rightarrow> ('a \<Rightarrow> 'b stmt_result) \<Rightarrow> 'b stmt_result" where
  "then_do (Fine x) f = f x"
| "then_do Terminates f = Terminates"
| "then_do Throws f = Throws"
| "then_do NoObject f = NoObject"
| "then_do Hangs f = Hangs"

lemma then_do_Fine: "then_do r f = Fine y \<longleftrightarrow> (\<exists>x. r = Fine x \<and> f x = Fine y)"
  by (cases r) auto

definition put_obj :: "nat \<Rightarrow> nat option \<Rightarrow> thread_sys \<Rightarrow> thread_sys" where
  "put_obj t v st = st\<lparr>thread_objs := (t, v) # filter (\<lambda>p. fst p \<noteq> t) (thread_objs st)\<rparr>"

definition with_obj :: "nat \<Rightarrow> thread_sys \<Rightarrow> (nat option \<Rightarrow> 'a stmt_result) \<Rightarrow> 'a stmt_result" where
  "with_obj t st f = (case map_of (thread_objs st) t of None \<Rightarrow> NoObject | Some v \<Rightarrow> f v)"

text \<open>The constructors make an object that is not there yet: with no thread, with a new one, with that of another object.\<close>

definition thread_default :: "nat \<Rightarrow> thread_sys \<Rightarrow> thread_sys stmt_result" where
  "thread_default t st = (if map_of (thread_objs st) t = None then Fine (put_obj t None st) else NoObject)"

definition thread_new :: "nat \<Rightarrow> thread_sys \<Rightarrow> thread_sys stmt_result" where
  "thread_new t st =
     (if map_of (thread_objs st) t = None then Fine ((put_obj t (Some (started st)) st)\<lparr>started := Suc (started st)\<rparr>)
      else NoObject)"

definition thread_move_new :: "nat \<Rightarrow> nat \<Rightarrow> thread_sys \<Rightarrow> thread_sys stmt_result" where
  "thread_move_new t u st =
     (if map_of (thread_objs st) t = None then with_obj u st (\<lambda>v. Fine (put_obj t v (put_obj u None st))) else NoObject)"

definition thread_move_assign :: "nat \<Rightarrow> nat \<Rightarrow> thread_sys \<Rightarrow> thread_sys stmt_result" where
  "thread_move_assign t u st =
     with_obj t st (\<lambda>old. with_obj u st (\<lambda>v. if old \<noteq> None then Terminates else Fine (put_obj t v (if t = u then st else put_obj u None st))))"

definition thread_join :: "(nat \<Rightarrow> bool) \<Rightarrow> nat \<Rightarrow> thread_sys \<Rightarrow> thread_sys stmt_result" where
  "thread_join ends t st =
     with_obj t st (\<lambda>v. case v of
       None \<Rightarrow> Throws
     | Some k \<Rightarrow> if ends k then Fine ((put_obj t None st)\<lparr>joins := joins st @ [k]\<rparr>) else Hangs)"

definition thread_detach :: "nat \<Rightarrow> thread_sys \<Rightarrow> thread_sys stmt_result" where
  "thread_detach t st =
     with_obj t st (\<lambda>v. case v of
       None \<Rightarrow> Throws
     | Some k \<Rightarrow> Fine ((put_obj t None st)\<lparr>detaches := detaches st @ [k]\<rparr>))"

definition thread_swap :: "nat \<Rightarrow> nat \<Rightarrow> thread_sys \<Rightarrow> thread_sys stmt_result" where
  "thread_swap t u st =
     with_obj t st (\<lambda>v. with_obj u st (\<lambda>w. Fine (put_obj t w (put_obj u v st))))"

definition thread_destroy :: "nat \<Rightarrow> thread_sys \<Rightarrow> thread_sys stmt_result" where
  "thread_destroy t st =
     with_obj t st (\<lambda>v. if v \<noteq> None then Terminates
       else Fine (st\<lparr>thread_objs := filter (\<lambda>p. fst p \<noteq> t) (thread_objs st)\<rparr>))"

definition thread_joinable :: "nat \<Rightarrow> thread_sys \<Rightarrow> bool" where
  "thread_joinable t st \<longleftrightarrow> (case map_of (thread_objs st) t of Some (Some k) \<Rightarrow> True | _ \<Rightarrow> False)"

text \<open>\<open>dagerous_use\<close>: objects 1, 2, 3 are \<open>t1\<close>, \<open>t2\<close>, \<open>t3\<close>; 4 is the temporary of the assignment.\<close>

definition dagerous_use :: "thread_sys \<Rightarrow> thread_sys stmt_result" where
  "dagerous_use st =
     then_do (thread_new 1 st) (\<lambda>st. then_do (thread_move_new 2 1 st) (\<lambda>st. then_do (thread_new 4 st) (\<lambda>st.
     then_do (thread_move_assign 1 4 st) (\<lambda>st. then_do (thread_destroy 4 st) (\<lambda>st. then_do (thread_default 3 st) (\<lambda>st.
     then_do (thread_move_assign 3 2 st) (\<lambda>st. thread_move_assign 1 3 st)))))))"

section \<open>Joining_thread\<close>

definition join_if_joinable :: "(nat \<Rightarrow> bool) \<Rightarrow> nat \<Rightarrow> thread_sys \<Rightarrow> thread_sys stmt_result" where
  "join_if_joinable ends t st = (if thread_joinable t st then thread_join ends t st else Fine st)"

definition jt_move_assign :: "(nat \<Rightarrow> bool) \<Rightarrow> nat \<Rightarrow> nat \<Rightarrow> thread_sys \<Rightarrow> thread_sys stmt_result" where
  "jt_move_assign ends t u st =
     (if map_of (thread_objs st) t = None \<or> map_of (thread_objs st) u = None then NoObject
      else then_do (join_if_joinable ends t st) (thread_move_assign t u))"

definition jt_destroy :: "(nat \<Rightarrow> bool) \<Rightarrow> nat \<Rightarrow> thread_sys \<Rightarrow> thread_sys stmt_result" where
  "jt_destroy ends t st = then_do (join_if_joinable ends t st) (thread_destroy t)"

text \<open>
  What a user of \<open>Joining_thread\<close> can do; \<open>JAssignThread\<close> takes a \<open>std::thread\<close> by value, which is a new object that is
  destroyed, empty, at the end.
\<close>

datatype jt_op =
    JDefault nat | JNew nat | JMoveNew nat nat | JMoveAssign nat nat | JAssignThread nat nat
  | JSwap nat nat | JJoin nat | JDetach nat | JDestroy nat

fun jt_exec :: "(nat \<Rightarrow> bool) \<Rightarrow> jt_op \<Rightarrow> thread_sys \<Rightarrow> thread_sys stmt_result" where
  "jt_exec ends (JDefault t) st = thread_default t st"
| "jt_exec ends (JNew t) st = thread_new t st"
| "jt_exec ends (JMoveNew t u) st = thread_move_new t u st"
| "jt_exec ends (JMoveAssign t u) st = jt_move_assign ends t u st"
| "jt_exec ends (JAssignThread t u) st =
     (if map_of (thread_objs st) t = None then NoObject
      else then_do (thread_new u st) (\<lambda>st. then_do (jt_move_assign ends t u st) (thread_destroy u)))"
| "jt_exec ends (JSwap t u) st = thread_swap t u st"
| "jt_exec ends (JJoin t) st = thread_join ends t st"
| "jt_exec ends (JDetach t) st = thread_detach t st"
| "jt_exec ends (JDestroy t) st = jt_destroy ends t st"

fun jt_run :: "(nat \<Rightarrow> bool) \<Rightarrow> jt_op list \<Rightarrow> thread_sys \<Rightarrow> thread_sys stmt_result" where
  "jt_run ends [] st = Fine st"
| "jt_run ends (op # ops) st = then_do (jt_exec ends op st) (jt_run ends ops)"

text \<open>\<open>use_jointhread\<close>: three objects, a move assignment, and the destructors in reverse order.\<close>

definition use_jointhread :: "jt_op list" where
  "use_jointhread = [JNew 1, JNew 2, JNew 3, JMoveAssign 1 3, JDestroy 3, JDestroy 2, JDestroy 1]"

section \<open>Ownership\<close>

text \<open>The threads that objects stand for.\<close>

definition owned :: "thread_sys \<Rightarrow> nat list" where
  "owned st = List.map_filter snd (thread_objs st)"

text \<open>
  Well-formed states: an object has one entry, and every thread that was started is owned by one object, or was
  joined, or detached, exactly one of these.
\<close>

definition thread_wf :: "thread_sys \<Rightarrow> bool" where
  "thread_wf st \<longleftrightarrow> distinct (map fst (thread_objs st)) \<and>
     mset (owned st @ joins st @ detaches st) = mset [0..<started st]"

definition obj_threads :: "nat option \<Rightarrow> nat list" where
  "obj_threads v = (case v of None \<Rightarrow> [] | Some k \<Rightarrow> [k])"

lemma obj_threads_simps [simp]: "obj_threads None = []" "obj_threads (Some k) = [k]"
  by (simp_all add: obj_threads_def)

definition others :: "nat \<Rightarrow> (nat \<times> nat option) list \<Rightarrow> nat list" where
  "others t objs = List.map_filter snd (filter (\<lambda>p. fst p \<noteq> t) objs)"

lemma map_filter_Cons: "List.map_filter snd (p # ps) = obj_threads (snd p) @ List.map_filter snd ps"
  by (cases "snd p") (auto simp: map_filter_simps)

lemma owned_split:
  "distinct (map fst objs) \<Longrightarrow> map_of objs t = Some v \<Longrightarrow>
     mset (List.map_filter snd objs) = mset (obj_threads v) + mset (others t objs)"
proof (induction objs)
  case (Cons p ps)
  then show ?case
  proof (cases "fst p = t")
    case True
    have "fst p \<notin> fst ` set ps" using Cons.prems(1) by simp
    then have "filter (\<lambda>q. fst q \<noteq> t) ps = ps" unfolding True filter_id_conv by (metis imageI)
    then show ?thesis using True Cons.prems by (cases p; cases v) (simp_all add: map_filter_Cons others_def map_filter_simps)
  next
    case False
    then show ?thesis using Cons by (cases p; cases "snd p") (simp_all add: others_def map_filter_simps)
  qed
qed simp

lemma owned_put: "owned (put_obj t v st) = obj_threads v @ others t (thread_objs st)"
  by (cases v) (simp_all add: owned_def put_obj_def map_filter_Cons others_def map_filter_simps)

lemma put_obj_simps [simp]:
  "started (put_obj t v st) = started st" "joins (put_obj t v st) = joins st" "detaches (put_obj t v st) = detaches st"
  "map_of (thread_objs (put_obj t v st)) u = (if u = t then Some v else map_of (thread_objs st) u)"
proof -
  have "map_of (filter (\<lambda>p. fst p \<noteq> t) ps) u = map_of ps u" if "u \<noteq> t" for ps :: "(nat \<times> nat option) list"
    using that by (induction ps) auto
  then show "map_of (thread_objs (put_obj t v st)) u = (if u = t then Some v else map_of (thread_objs st) u)"
    by (simp add: put_obj_def)
qed (simp_all add: put_obj_def)

lemma distinct_put: "distinct (map fst (thread_objs st)) \<Longrightarrow> distinct (map fst (thread_objs (put_obj t v st)))"
  by (auto simp: put_obj_def distinct_map_filter)

lemma others_new: "map_of objs t = None \<Longrightarrow> others t objs = List.map_filter snd objs"
proof -
  assume "map_of objs t = None"
  then have "filter (\<lambda>p. fst p \<noteq> t) objs = objs" by (auto simp: filter_id_conv map_of_eq_None_iff)
  then show ?thesis by (simp add: others_def)
qed

text \<open>How an update of one object changes what is owned.\<close>

lemma owned_put_known:
  "distinct (map fst (thread_objs st)) \<Longrightarrow> map_of (thread_objs st) t = Some old \<Longrightarrow>
     mset (owned (put_obj t v st)) + mset (obj_threads old) = mset (owned st) + mset (obj_threads v)"
  using owned_split [of "thread_objs st" t old] unfolding owned_put owned_def [of st] by simp

lemma owned_put_new:
  "map_of (thread_objs st) t = None \<Longrightarrow> mset (owned (put_obj t v st)) = mset (owned st) + mset (obj_threads v)"
  unfolding owned_put by (simp add: owned_def others_new)

subsection \<open>Every statement keeps the threads accounted for\<close>

lemma wf_distinct: "thread_wf st \<Longrightarrow> distinct (map fst (thread_objs st))"
  by (simp add: thread_wf_def)

lemma wf_balance:
  assumes "thread_wf st" "distinct (map fst (thread_objs st'))"
    "mset (owned st' @ joins st' @ detaches st') + mset [0..<started st] = mset (owned st @ joins st @ detaches st) + mset [0..<started st']"
  shows "thread_wf st'"
  using assms by (simp add: thread_wf_def)

lemma thread_default_wf: "thread_wf st \<Longrightarrow> thread_default t st = Fine st' \<Longrightarrow> thread_wf st'"
  by (rule wf_balance [of st])
    (auto simp: thread_default_def wf_distinct distinct_put owned_put_new split: if_splits)

lemma owned_started [simp]: "owned (st\<lparr>started := n\<rparr>) = owned st" "owned (st\<lparr>joins := js\<rparr>) = owned st"
  "owned (st\<lparr>detaches := js\<rparr>) = owned st"
  by (simp_all add: owned_def)

lemma thread_new_wf: "thread_wf st \<Longrightarrow> thread_new t st = Fine st' \<Longrightarrow> thread_wf st'"
  by (rule wf_balance [of st])
    (auto simp: thread_new_def wf_distinct distinct_put owned_put_new simp del: mset_upt split: if_splits)

lemma with_obj_Fine: "with_obj t st f = Fine r \<longleftrightarrow> (\<exists>v. map_of (thread_objs st) t = Some v \<and> f v = Fine r)"
  by (auto simp: with_obj_def split: option.splits)

lemma move_owned:
  assumes "distinct (map fst (thread_objs st))" "map_of (thread_objs st) u = Some v" "t \<noteq> u"
    "map_of (thread_objs st) t = None \<or> map_of (thread_objs st) t = Some None"
  shows "mset (owned (put_obj t v (put_obj u None st))) = mset (owned st)"
proof -
  have "mset (owned (put_obj u None st)) + mset (obj_threads v) = mset (owned st)"
    using owned_put_known [OF assms(1,2), of None] by simp
  moreover have "mset (owned (put_obj t v (put_obj u None st))) = mset (owned (put_obj u None st)) + mset (obj_threads v)"
    using owned_put_known [OF distinct_put [OF assms(1)], of u None t None v] owned_put_new [of "put_obj u None st" t v] assms(3,4)
    by auto
  ultimately show ?thesis by simp
qed

lemma thread_move_new_wf: "thread_wf st \<Longrightarrow> thread_move_new t u st = Fine st' \<Longrightarrow> thread_wf st'"
proof -
  assume wf: "thread_wf st" and run: "thread_move_new t u st = Fine st'"
  then obtain v where v: "map_of (thread_objs st) t = None" "map_of (thread_objs st) u = Some v"
      "st' = put_obj t v (put_obj u None st)"
    unfolding thread_move_new_def with_obj_Fine by (metis stmt_result.distinct(5) with_obj_Fine stmt_result.inject)
  moreover from v have "t \<noteq> u" by auto
  ultimately have "mset (owned st') = mset (owned st)" using move_owned [OF wf_distinct [OF wf] v(2), of t] by simp
  then show ?thesis using wf v(3) by (intro wf_balance [OF wf]) (auto simp: wf_distinct distinct_put)
qed

lemma thread_move_assign_wf: "thread_wf st \<Longrightarrow> thread_move_assign t u st = Fine st' \<Longrightarrow> thread_wf st'"
proof -
  assume wf: "thread_wf st" and run: "thread_move_assign t u st = Fine st'"
  then obtain v where v: "map_of (thread_objs st) t = Some None" "map_of (thread_objs st) u = Some v"
      "st' = put_obj t v (if t = u then st else put_obj u None st)"
    by (auto simp: thread_move_assign_def with_obj_Fine split: if_splits)
  have "mset (owned st') = mset (owned st)"
  proof (cases "t = u")
    case True
    then show ?thesis using v owned_put_known [OF wf_distinct [OF wf] v(1), of None] by simp
  qed (use v move_owned [OF wf_distinct [OF wf] v(2), of t] in simp)
  then show ?thesis using wf v by (intro wf_balance [OF wf]) (auto simp: wf_distinct distinct_put)
qed

lemma thread_join_wf: "thread_wf st \<Longrightarrow> thread_join ends t st = Fine st' \<Longrightarrow> thread_wf st'"
proof -
  assume wf: "thread_wf st" and run: "thread_join ends t st = Fine st'"
  then obtain k where k: "map_of (thread_objs st) t = Some (Some k)" "st' = (put_obj t None st)\<lparr>joins := joins st @ [k]\<rparr>"
    by (auto simp: thread_join_def with_obj_Fine split: option.splits if_splits)
  have "mset (owned (put_obj t None st)) + {#k#} = mset (owned st)"
    using owned_put_known [OF wf_distinct [OF wf] k(1), of None] by simp
  then show ?thesis using k(2) wf
    by (intro wf_balance [OF wf]) (auto simp: wf_distinct distinct_put ac_simps)
qed

lemma thread_detach_wf: "thread_wf st \<Longrightarrow> thread_detach t st = Fine st' \<Longrightarrow> thread_wf st'"
proof -
  assume wf: "thread_wf st" and run: "thread_detach t st = Fine st'"
  then obtain k where k: "map_of (thread_objs st) t = Some (Some k)" "st' = (put_obj t None st)\<lparr>detaches := detaches st @ [k]\<rparr>"
    by (auto simp: thread_detach_def with_obj_Fine split: option.splits if_splits)
  have "mset (owned (put_obj t None st)) + {#k#} = mset (owned st)"
    using owned_put_known [OF wf_distinct [OF wf] k(1), of None] by simp
  then show ?thesis using k(2) wf
    by (intro wf_balance [OF wf]) (auto simp: wf_distinct distinct_put ac_simps)
qed

lemma thread_swap_wf: "thread_wf st \<Longrightarrow> thread_swap t u st = Fine st' \<Longrightarrow> thread_wf st'"
proof -
  assume wf: "thread_wf st" and run: "thread_swap t u st = Fine st'"
  then obtain v w where vw: "map_of (thread_objs st) t = Some v" "map_of (thread_objs st) u = Some w"
      "st' = put_obj t w (put_obj u v st)"
    by (auto simp: thread_swap_def with_obj_Fine)
  have d: "distinct (map fst (thread_objs st))" using wf by (rule wf_distinct)
  have "mset (owned (put_obj u v st)) + mset (obj_threads w) = mset (owned st) + mset (obj_threads v)"
    using owned_put_known [OF d vw(2)] .
  moreover have "mset (owned (put_obj t w (put_obj u v st))) + mset (obj_threads v)
      = mset (owned (put_obj u v st)) + mset (obj_threads w)"
    using vw(1) by (intro owned_put_known [OF distinct_put [OF d]]) simp
  ultimately have "mset (owned st') = mset (owned st)" using vw(3) by simp
  then show ?thesis using wf vw(3) by (intro wf_balance [OF wf]) (auto simp: wf_distinct distinct_put)
qed

lemma thread_destroy_wf: "thread_wf st \<Longrightarrow> thread_destroy t st = Fine st' \<Longrightarrow> thread_wf st'"
proof -
  assume wf: "thread_wf st" and run: "thread_destroy t st = Fine st'"
  then have t: "map_of (thread_objs st) t = Some None"
      "st' = st\<lparr>thread_objs := filter (\<lambda>p. fst p \<noteq> t) (thread_objs st)\<rparr>"
    by (auto simp: thread_destroy_def with_obj_Fine split: if_splits)
  have "mset (owned st') = mset (owned st)"
    using owned_split [OF wf_distinct [OF wf] t(1)] t(2) by (simp add: owned_def others_def)
  then show ?thesis using wf t(2) by (intro wf_balance [OF wf]) (auto simp: wf_distinct distinct_map_filter)
qed

lemma join_if_joinable_wf: "thread_wf st \<Longrightarrow> join_if_joinable ends t st = Fine st' \<Longrightarrow> thread_wf st'"
  by (auto simp: join_if_joinable_def thread_join_wf split: if_splits)

lemma join_if_joinable_empty:
  "join_if_joinable ends t st = Fine st' \<Longrightarrow> map_of (thread_objs st) t \<noteq> None \<Longrightarrow>
     map_of (thread_objs st') t = Some None \<and> (\<forall>u. map_of (thread_objs st) u \<noteq> None \<longrightarrow> map_of (thread_objs st') u \<noteq> None)"
  by (auto simp: join_if_joinable_def thread_join_def thread_joinable_def with_obj_Fine split: if_splits option.splits)

lemmas thread_wfs = thread_default_wf thread_new_wf thread_move_new_wf thread_move_assign_wf thread_join_wf
  thread_detach_wf thread_swap_wf thread_destroy_wf join_if_joinable_wf

lemma jt_move_assign_wf: "thread_wf st \<Longrightarrow> jt_move_assign ends t u st = Fine st' \<Longrightarrow> thread_wf st'"
  by (auto simp: jt_move_assign_def then_do_Fine intro: thread_wfs split: if_splits)

lemma jt_exec_wf: "thread_wf st \<Longrightarrow> jt_exec ends op st = Fine st' \<Longrightarrow> thread_wf st'"
proof (induction op)
  case (JMoveAssign t u)
  then show ?case using jt_move_assign_wf [of st ends t u st'] by simp
next
  case (JAssignThread t u)
  then obtain st1 st2 where "thread_new u st = Fine st1" "jt_move_assign ends t u st1 = Fine st2" "thread_destroy u st2 = Fine st'"
    by (auto simp: then_do_Fine split: if_splits)
  then show ?case using JAssignThread.prems(1) thread_new_wf jt_move_assign_wf thread_destroy_wf by blast
next
  case (JDestroy t)
  then obtain st1 where "join_if_joinable ends t st = Fine st1" "thread_destroy t st1 = Fine st'"
    by (auto simp: jt_destroy_def then_do_Fine)
  then show ?case using JDestroy.prems(1) join_if_joinable_wf thread_destroy_wf by blast
next
  case (JDefault t)
  then show ?case using thread_default_wf [of st t st'] by simp
next
  case (JNew t)
  then show ?case using thread_new_wf [of st t st'] by simp
next
  case (JMoveNew t u)
  then show ?case using thread_move_new_wf [of st t u st'] by simp
next
  case (JSwap t u)
  then show ?case using thread_swap_wf [of st t u st'] by simp
next
  case (JJoin t)
  then show ?case using thread_join_wf [of st ends t st'] by simp
next
  case (JDetach t)
  then show ?case using thread_detach_wf [of st t st'] by simp
qed

lemma no_terminate_simple:
  "thread_join ends t st \<noteq> Terminates" "thread_detach t st \<noteq> Terminates" "thread_default t st \<noteq> Terminates"
  "thread_new t st \<noteq> Terminates" "thread_move_new t u st \<noteq> Terminates" "thread_swap t u st \<noteq> Terminates"
  by (auto simp: thread_join_def thread_detach_def thread_default_def thread_new_def thread_move_new_def thread_swap_def
      with_obj_def split: option.splits)

lemma jt_move_assign_no_terminate: "jt_move_assign ends t u st \<noteq> Terminates"
proof (cases "join_if_joinable ends t st")
  case (Fine st1)
  then show ?thesis using join_if_joinable_empty [OF Fine]
    by (auto simp: jt_move_assign_def thread_move_assign_def with_obj_def split: option.splits)
qed (use no_terminate_simple(1) in \<open>auto simp: jt_move_assign_def join_if_joinable_def split: if_splits\<close>)

lemma jt_destroy_no_terminate: "jt_destroy ends t st \<noteq> Terminates"
proof (cases "join_if_joinable ends t st")
  case (Fine st1)
  then show ?thesis
  proof (cases "map_of (thread_objs st) t")
    case None
    then have "st1 = st" using Fine by (simp add: join_if_joinable_def thread_joinable_def)
    then show ?thesis using None Fine by (simp add: jt_destroy_def thread_destroy_def with_obj_def)
  qed (use Fine join_if_joinable_empty [OF Fine] in \<open>simp add: jt_destroy_def thread_destroy_def with_obj_def\<close>)
qed (use no_terminate_simple(1) in \<open>auto simp: jt_destroy_def join_if_joinable_def split: if_splits\<close>)

text \<open>After an assignment the source is empty.\<close>

lemma jt_move_assign_empties: "jt_move_assign ends t u st = Fine st' \<Longrightarrow> t \<noteq> u \<Longrightarrow> map_of (thread_objs st') u = Some None"
  by (auto simp: jt_move_assign_def then_do_Fine thread_move_assign_def with_obj_Fine split: if_splits)

lemma jt_exec_no_terminate: "jt_exec ends op st \<noteq> Terminates"
proof (cases op)
  case (JAssignThread t u)
  show ?thesis
  proof (cases "thread_new u st")
    case (Fine st1)
    show ?thesis
    proof (cases "jt_move_assign ends t u st1")
      fix st2 assume assign: "jt_move_assign ends t u st1 = Fine st2"
      have "map_of (thread_objs st) u = None" using Fine by (simp add: thread_new_def split: if_splits)
      then consider "map_of (thread_objs st) t = None" | "t \<noteq> u" by fastforce
      then show ?thesis
      proof cases
        case 2
        then have "thread_destroy u st2 \<noteq> Terminates"
          using jt_move_assign_empties [OF assign] by (simp add: thread_destroy_def with_obj_def)
        then show ?thesis using JAssignThread Fine assign by simp
      qed (use JAssignThread in simp)
    qed (use JAssignThread Fine jt_move_assign_no_terminate in auto)
  qed (use JAssignThread no_terminate_simple in auto)
qed (use no_terminate_simple jt_move_assign_no_terminate jt_destroy_no_terminate in auto)

section \<open>Properties\<close>

text \<open>
  \<open>Joining_thread\<close> never ends the program in \<open>std::terminate\<close>: in no sequence of its operations, destructors included, is a
  thread that is still owned overwritten or dropped.  Every operation keeps the ownership well-formed: each
  thread that was started belongs to one object, or was joined, or was detached, and only one of these; so once all
  objects are destroyed, every thread was joined or detached.
\<close>

theorem joining_thread_owns:
  "jt_run ends ops no_threads \<noteq> Terminates \<and>
   (\<forall>st. jt_run ends ops no_threads = Fine st \<longrightarrow> thread_wf st \<and>
      (thread_objs st = [] \<longrightarrow> mset (joins st @ detaches st) = mset [0..<started st]))"
proof -
  have "jt_run ends ops st \<noteq> Terminates" for st
  proof (induction ops arbitrary: st)
    case (Cons op ops)
    then show ?case using jt_exec_no_terminate [of ends op st] by (cases "jt_exec ends op st") auto
  qed simp
  moreover have "thread_wf st \<Longrightarrow> jt_run ends ops st = Fine st' \<Longrightarrow> thread_wf st'" for st st'
  proof (induction ops arbitrary: st)
    case (Cons op ops)
    then obtain st1 where "jt_exec ends op st = Fine st1" "jt_run ends ops st1 = Fine st'" by (auto simp: then_do_Fine)
    then show ?case using Cons.IH [OF jt_exec_wf [OF Cons.prems(1)]] by blast
  qed simp
  moreover have "thread_wf no_threads" by (simp add: thread_wf_def no_threads_def owned_def map_filter_simps)
  moreover have "mset (joins st @ detaches st) = mset [0..<started st]" if "thread_wf st" "thread_objs st = []" for st
    using that by (simp add: thread_wf_def owned_def map_filter_simps)
  ultimately show ?thesis by blast
qed

lemma joining_thread_owns_witness:
  "\<exists>st. jt_run (\<lambda>k. True) use_jointhread no_threads = Fine st \<and> joins st = [0, 1, 2] \<and> mset (joins st @ detaches st) = {#0, 1, 2#}"
proof -
  have "case jt_run (\<lambda>k. True) use_jointhread no_threads of Fine st \<Rightarrow> thread_objs st = [] \<and> joins st = [0, 1, 2] \<and> started st = 3 | _ \<Rightarrow> False"
    by code_simp
  then obtain st where st: "jt_run (\<lambda>k. True) use_jointhread no_threads = Fine st" "thread_objs st = []"
      "joins st = [0, 1, 2]" "started st = 3"
    by (auto split: stmt_result.splits)
  moreover have "mset (joins st @ detaches st) = mset [0..<3]"
    using conjunct2 [OF joining_thread_owns, rule_format, OF st(1)] st(2,4) by simp
  ultimately show ?thesis by (auto simp: eval_nat_numeral)
qed

text \<open>
  \<open>dagerous_use\<close> ends the program in \<open>std::terminate\<close>, at its last assignment: the target still owns the second
  thread.
\<close>

theorem dagerous_use_terminates: "dagerous_use no_threads = Terminates"
  by code_simp


section \<open>References to a local variable\<close>

text \<open>
  A function has a local variable, starts a thread on \<open>func\<close> with a reference to it, and ends.  \<open>func\<close> writes 0, 1 and
  2.  The statements are in the order they are carried out, destructors included: that of \<open>thread_guard\<close>, that of the
  thread object, and the end of the local variable.
\<close>

datatype scope_stmt = StartFunc | JoinIt | DetachIt | GuardDtor | ThreadDtor | FrameEnd

record scope_sys =
  todo :: "scope_stmt list"
  joinable :: bool
  func_left :: "int list"
  local_state :: int
  local_alive :: bool
  dangling :: bool
  ended_in_terminate :: bool

definition scope_start :: "scope_stmt list \<Rightarrow> scope_sys" where
  "scope_start ss = \<lparr>todo = ss, joinable = False, func_left = [], local_state = 0, local_alive = True, dangling = False,
     ended_in_terminate = False\<rparr>"

definition oops_fun :: "scope_stmt list" where
  "oops_fun = [StartFunc, DetachIt, ThreadDtor, FrameEnd]"

definition use_join :: "scope_stmt list" where
  "use_join = [StartFunc, JoinIt, ThreadDtor, FrameEnd]"

text \<open>The handler joins before it rethrows, and the normal path joins: the statements are the same.\<close>

definition catch_exeption :: "scope_stmt list" where
  "catch_exeption = [StartFunc, JoinIt, ThreadDtor, FrameEnd]"

definition auto_guard :: "scope_stmt list" where
  "auto_guard = [StartFunc, GuardDtor, ThreadDtor, FrameEnd]"

text \<open>A join returns when \<open>func\<close> has made its last write.\<close>

definition scope_main :: "scope_sys \<Rightarrow> scope_sys option" where
  "scope_main st =
     (case todo st of
        [] \<Rightarrow> None
      | StartFunc # ss \<Rightarrow> Some (st\<lparr>todo := ss, joinable := True, func_left := [0, 1, 2]\<rparr>)
      | JoinIt # ss \<Rightarrow> if func_left st = [] then Some (st\<lparr>todo := ss, joinable := False\<rparr>) else None
      | DetachIt # ss \<Rightarrow> Some (st\<lparr>todo := ss, joinable := False\<rparr>)
      | GuardDtor # ss \<Rightarrow> if \<not> joinable st then Some (st\<lparr>todo := ss\<rparr>)
          else if func_left st = [] then Some (st\<lparr>todo := ss, joinable := False\<rparr>) else None
      | ThreadDtor # ss \<Rightarrow> if joinable st then Some (st\<lparr>todo := [], ended_in_terminate := True\<rparr>) else Some (st\<lparr>todo := ss\<rparr>)
      | FrameEnd # ss \<Rightarrow> Some (st\<lparr>todo := ss, local_alive := False\<rparr>))"

definition func_write :: "scope_sys \<Rightarrow> scope_sys option" where
  "func_write st =
     (case func_left st of
        [] \<Rightarrow> None
      | v # vs \<Rightarrow> Some (if local_alive st then st\<lparr>func_left := vs, local_state := v\<rparr> else st\<lparr>func_left := vs, dangling := True\<rparr>))"

inductive scope_step :: "scope_sys \<Rightarrow> scope_sys \<Rightarrow> bool" where
  scope_mainI: "scope_main st = Some st' \<Longrightarrow> scope_step st st'"
| scope_funcI: "func_write st = Some st' \<Longrightarrow> scope_step st st'"

fun scope_run :: "bool list \<Rightarrow> scope_sys \<Rightarrow> scope_sys option" where
  "scope_run [] st = Some st"
| "scope_run (b # bs) st =
     (case if b then scope_main st else func_write st of None \<Rightarrow> None | Some st' \<Rightarrow> scope_run bs st')"

lemma scope_run_reachable:
  "scope_run bs st = Some st' \<Longrightarrow> reachable init scope_step st \<Longrightarrow> reachable init scope_step st'"
proof (induction bs arbitrary: st)
  case (Cons b bs)
  then obtain st1 where "(if b then scope_main st else func_write st) = Some st1" "scope_run bs st1 = Some st'"
    by (auto split: option.splits)
  moreover from this(1) have "scope_step st st1" by (cases b) (auto intro: scope_step.intros)
  ultimately show ?case using Cons.IH [of st1] reach_step [OF Cons.prems(2)] by simp
qed simp

text \<open>Where a function that joins can be.\<close>

definition left_ok :: "scope_sys \<Rightarrow> bool" where
  "left_ok st \<longleftrightarrow> func_left st = [0, 1, 2] \<or> func_left st = [1, 2] \<or> func_left st = [2] \<or> func_left st = [] \<and> local_state st = 2"

definition scope_inv :: "scope_sys \<Rightarrow> bool" where
  "scope_inv st \<longleftrightarrow> \<not> dangling st \<and> \<not> ended_in_terminate st \<and>
     (case todo st of
        [] \<Rightarrow> func_left st = [] \<and> local_state st = 2
      | StartFunc # ss \<Rightarrow> (ss = [JoinIt, ThreadDtor, FrameEnd] \<or> ss = [GuardDtor, ThreadDtor, FrameEnd]) \<and>
          func_left st = [] \<and> local_alive st
      | JoinIt # ss \<Rightarrow> ss = [ThreadDtor, FrameEnd] \<and> joinable st \<and> local_alive st \<and> left_ok st
      | GuardDtor # ss \<Rightarrow> ss = [ThreadDtor, FrameEnd] \<and> joinable st \<and> local_alive st \<and> left_ok st
      | ThreadDtor # ss \<Rightarrow> ss = [FrameEnd] \<and> \<not> joinable st \<and> func_left st = [] \<and> local_state st = 2
      | FrameEnd # ss \<Rightarrow> ss = [] \<and> func_left st = [] \<and> local_state st = 2
      | DetachIt # ss \<Rightarrow> False)"

lemma scope_main_inv: "scope_inv st \<Longrightarrow> scope_main st = Some st' \<Longrightarrow> scope_inv st'"
  by (cases "todo st"; cases "hd (todo st)") (auto simp: scope_inv_def scope_main_def left_ok_def split: if_splits)

lemma func_write_inv: "scope_inv st \<Longrightarrow> func_write st = Some st' \<Longrightarrow> scope_inv st'"
  by (cases "todo st"; cases "hd (todo st)") (auto simp: scope_inv_def func_write_def left_ok_def split: if_splits)

lemma scope_inv_progress: "scope_inv st \<Longrightarrow> todo st \<noteq> [] \<Longrightarrow> \<exists>st'. scope_step st st'"
proof -
  assume "scope_inv st" "todo st \<noteq> []"
  then have "scope_main st \<noteq> None \<or> func_write st \<noteq> None"
    by (cases "todo st"; cases "hd (todo st)") (auto simp: scope_inv_def scope_main_def func_write_def left_ok_def)
  then show ?thesis by (auto intro: scope_step.intros)
qed

interpretation scope: step_invariant
  "\<lambda>st. \<exists>p \<in> set [use_join, catch_exeption, auto_guard]. st = scope_start p" scope_step scope_inv
proof unfold_locales
  show "scope_inv st" if "\<exists>p \<in> set [use_join, catch_exeption, auto_guard]. st = scope_start p" for st
    using that by (auto simp: scope_inv_def scope_start_def use_join_def catch_exeption_def auto_guard_def)
  show "scope_inv st'" if "scope_inv st" "scope_step st st'" for st st'
    using that(2) by (rule scope_step.cases) (metis scope_main_inv that(1), metis func_write_inv that(1))
qed

text \<open>
  In \<open>use_join\<close>, \<open>catch_exeption\<close> and \<open>auto_guard\<close> the thread never writes to the local variable after its end, the program
  never ends in \<open>std::terminate\<close>, some statement can always be carried out until the function has returned, and
  then the thread has made all its writes.  In \<open>oops\<close>, which detaches the thread, it can write to the dead variable.
\<close>

theorem thread_scopes:
  "\<not> (\<exists>st. reachable (\<lambda>st. \<exists>p \<in> set [use_join, catch_exeption, auto_guard]. st = scope_start p) scope_step st \<and>
       (dangling st \<or> ended_in_terminate st \<or> todo st = [] \<and> \<not> (local_state st = 2 \<and> func_left st = []) \<or>
        todo st \<noteq> [] \<and> \<not> (\<exists>st'. scope_step st st'))) \<and>
   (\<exists>st. reachable (\<lambda>st. st = scope_start oops_fun) scope_step st \<and> dangling st)"
proof (intro conjI notI)
  assume "\<exists>st. reachable (\<lambda>st. \<exists>p \<in> set [use_join, catch_exeption, auto_guard]. st = scope_start p) scope_step st \<and>
       (dangling st \<or> ended_in_terminate st \<or> todo st = [] \<and> \<not> (local_state st = 2 \<and> func_left st = []) \<or>
        todo st \<noteq> [] \<and> \<not> (\<exists>st'. scope_step st st'))"
  then obtain st where "reachable (\<lambda>st. \<exists>p \<in> set [use_join, catch_exeption, auto_guard]. st = scope_start p) scope_step st"
      and bad: "dangling st \<or> ended_in_terminate st \<or> todo st = [] \<and> \<not> (local_state st = 2 \<and> func_left st = []) \<or>
        todo st \<noteq> [] \<and> \<not> (\<exists>st'. scope_step st st')" by blast
  then have inv: "scope_inv st" using scope.reachable_inv by blast
  have "todo st \<noteq> [] \<Longrightarrow> \<exists>st'. scope_step st st'" by (rule scope_inv_progress [OF inv])
  moreover have "todo st = [] \<Longrightarrow> local_state st = 2 \<and> func_left st = []" "\<not> dangling st" "\<not> ended_in_terminate st"
    using inv by (simp_all add: scope_inv_def)
  ultimately show False using bad by blast
next
  have "case scope_run [True, True, True, True, False] (scope_start oops_fun) of None \<Rightarrow> False | Some st \<Rightarrow> dangling st"
    by code_simp
  then obtain st where st: "scope_run [True, True, True, True, False] (scope_start oops_fun) = Some st" "dangling st"
    by (auto dest: case_option_Some)
  have "reachable (\<lambda>st. st = scope_start oops_fun) scope_step st"
    by (rule scope_run_reachable [OF st(1)]) (rule reach_init, rule refl)
  with st(2) show "\<exists>st. reachable (\<lambda>st. st = scope_start oops_fun) scope_step st \<and> dangling st" by blast
qed

end
