(* ===== verification/Futures.thy ===== *)
theory Futures
  imports Prelude
begin

text \<open>
  \<open>example/boost/concurrent/example06_futurepromise.cpp\<close>: results passed between threads through \<open>std::async\<close>,
  \<open>std::packaged_task\<close>, promises, futures and shared futures.  A function is a list of threads, a thread the
  list of its calls on the shared state of one promise; the calls behave as the standard documents them,
  and \<open>get\<close> on a handle without a state throws \<open>future_error\<close> (\<open>no_state\<close>), which it recommends and which
  \<open>threadFunction\<close> catches.
\<close>

section \<open>The shared state of a promise\<close>

datatype fvalue = IntV int | StrV string | VoidV

datatype fresult = FValue fvalue | FExn string

text \<open>
  \<open>FGet h shared caught\<close>: \<open>get\<close> on handle \<open>h\<close>, which a \<open>std::future\<close> gives up; \<open>caught\<close> when the call is in
  a \<open>try\<close> block.  \<open>FDrop\<close> is the destructor of the promise, \<open>FJoin t\<close> the join of a thread.
\<close>

datatype fcall = FWork | FSet fresult | FDrop | FGet nat bool bool | FJoin nat

datatype flog = Got fvalue | Caught string

record fstate =
  fresult :: "fresult option"
  valid :: "bool list"
  scripts :: "fcall list list"
  logs :: "flog list list"
  terminated :: bool

definition no_state :: string where
  "no_state = ''no_state''"

definition broken_promise :: string where
  "broken_promise = ''broken_promise''"

definition already_satisfied :: string where
  "already_satisfied = ''promise_already_satisfied''"

definition flog_to :: "nat \<Rightarrow> flog \<Rightarrow> fstate \<Rightarrow> fstate" where
  "flog_to t e st = st\<lparr>logs := (logs st)[t := logs st ! t @ [e]]\<rparr>"

text \<open>An exception that reaches the end of a thread calls \<open>std::terminate\<close>.\<close>

definition throw_in :: "nat \<Rightarrow> bool \<Rightarrow> string \<Rightarrow> fstate \<Rightarrow> fstate" where
  "throw_in t caught e st = (if caught then flog_to t (Caught e) st else st\<lparr>terminated := True\<rparr>)"

text \<open>
  \<open>get\<close> on a handle without a state (\<open>valid ()\<close> false) is undefined in the standard, which recommends an exception;
  it is the exception \<open>no_state\<close> here, as the libraries of the compilers throw it.
\<close>

definition future_get :: "nat \<Rightarrow> nat \<Rightarrow> bool \<Rightarrow> bool \<Rightarrow> fstate \<Rightarrow> fstate option" where
  "future_get t h shared caught st =
     (if \<not> valid st ! h then Some (throw_in t caught no_state st)
      else case fresult st of
        None \<Rightarrow> None
      | Some r \<Rightarrow> (let st' = (if shared then st else st\<lparr>valid := (valid st)[h := False]\<rparr>)
          in Some (case r of FValue v \<Rightarrow> flog_to t (Got v) st' | FExn e \<Rightarrow> throw_in t caught e st')))"

definition fexec_call :: "nat \<Rightarrow> fcall \<Rightarrow> fstate \<Rightarrow> fstate option" where
  "fexec_call t c st =
     (case c of
        FWork \<Rightarrow> Some st
      | FSet r \<Rightarrow> Some (if fresult st = None then st\<lparr>fresult := Some r\<rparr> else throw_in t False already_satisfied st)
      | FDrop \<Rightarrow> Some (if fresult st = None then st\<lparr>fresult := Some (FExn broken_promise)\<rparr> else st)
      | FGet h shared caught \<Rightarrow> future_get t h shared caught st
      | FJoin u \<Rightarrow> if scripts st ! u = [] then Some st else None)"

definition fstep :: "nat \<Rightarrow> fstate \<Rightarrow> fstate option" where
  "fstep t st =
     (if terminated st \<or> t \<ge> length (scripts st) then None
      else case scripts st ! t of
        [] \<Rightarrow> None
      | c # cs \<Rightarrow> map_option (\<lambda>st'. st'\<lparr>scripts := (scripts st)[t := cs]\<rparr>) (fexec_call t c st))"

fun frun :: "nat list \<Rightarrow> fstate \<Rightarrow> fstate option" where
  "frun [] st = Some st"
| "frun (t # ts) st = Option.bind (fstep t st) (frun ts)"

section \<open>The functions\<close>

text \<open>Thread 0 is the caller; it starts the others at once.\<close>

definition ffunction :: "bool list \<Rightarrow> fcall list list \<Rightarrow> fstate" where
  "ffunction handles ts = \<lparr>fresult = None, valid = handles, scripts = ts, logs = map (\<lambda>_. []) ts, terminated = False\<rparr>"

definition fetchDataFromDB :: "string \<Rightarrow> string" where
  "fetchDataFromDB query = ''Data : '' @ query"

text \<open>What the runtime does with a function given to \<open>std::async\<close> or a \<open>packaged_task\<close>.\<close>

definition run_task :: "fresult \<Rightarrow> fcall list" where
  "run_task r = [FWork, FSet r, FDrop]"

definition use_async :: fstate where
  "use_async = ffunction [True] [[FWork, FGet 0 False False], run_task (FValue (StrV (fetchDataFromDB ''Data'')))]"

definition my_task :: int where
  "my_task = 42"

definition use_package :: fstate where
  "use_package = ffunction [True] [[FWork, FGet 0 False False], run_task (FValue (IntV my_task))]"

definition myFunction :: "fcall list" where
  "myFunction = [FWork, FSet (FValue (IntV 41)), FWork, FDrop]"

definition threadFunction :: "nat \<Rightarrow> fcall list" where
  "threadFunction h = [FGet h True True]"

definition use_shared_future :: fstate where
  "use_shared_future = ffunction [True, True]
     [[FJoin 1, FJoin 2, FJoin 3], myFunction, threadFunction 0, threadFunction 1]"

text \<open>The second \<open>std::move(future)\<close> moves from a handle that the first has emptied.\<close>

definition use_shared_future_error :: fstate where
  "use_shared_future_error = ffunction [True, False]
     [[FJoin 1, FJoin 2, FJoin 3], myFunction, threadFunction 0, threadFunction 1]"

definition set_value_thread :: "fcall list" where
  "set_value_thread = [FWork, FSet (FValue (IntV 10)), FWork, FDrop]"

definition use_promise :: fstate where
  "use_promise = ffunction [True] [[FGet 0 False False, FJoin 1], set_value_thread]"

definition set_exception_thread :: "fcall list" where
  "set_exception_thread = [FSet (FExn ''An error occurred !''), FDrop]"

definition use_promise_exception :: fstate where
  "use_promise_exception = ffunction [True] [[FGet 0 False True, FJoin 1], set_exception_thread]"

text \<open>The promise is moved into the thread before the block ends, so its end destroys an empty one.\<close>

definition use_promise_destruct :: fstate where
  "use_promise_destruct = ffunction [True] [[FGet 0 False False, FJoin 1], set_value_thread]"

definition use_future_exception :: fstate where
  "use_future_exception = ffunction [True] [[FGet 0 False True], run_task (FExn ''Oops, something went wrong!'')]"

section \<open>All interleavings\<close>

definition threads :: "fstate \<Rightarrow> nat list" where
  "threads st = [0..<length (scripts st)]"

definition stopped :: "fstate \<Rightarrow> bool" where
  "stopped st \<longleftrightarrow> list_all (\<lambda>t. fstep t st = None) (threads st)"

text \<open>The states in which no thread can go on, after at most \<open>n\<close> steps.\<close>

fun ends :: "nat \<Rightarrow> fstate \<Rightarrow> fstate list" where
  "ends 0 st = [st]"
| "ends (Suc n) st =
     (let next = List.map_filter (\<lambda>t. fstep t st) (threads st)
      in if next = [] then [st] else remdups (concat (map (ends n) next)))"

definition calls_left :: "fstate \<Rightarrow> nat" where
  "calls_left st = sum_list (map length (scripts st))"

lemma fexec_call_scripts: "fexec_call t c st = Some st' \<Longrightarrow> scripts st' = scripts st"
  by (auto simp: fexec_call_def future_get_def throw_in_def flog_to_def Let_def split: fcall.splits if_splits option.splits fresult.splits)

lemma fstep_calls_left: "fstep t st = Some st' \<Longrightarrow> Suc (calls_left st') = calls_left st"
proof -
  assume s: "fstep t st = Some st'"
  then obtain c cs st1 where c: "t < length (scripts st)" "scripts st ! t = c # cs" "st' = st1\<lparr>scripts := (scripts st)[t := cs]\<rparr>"
    by (auto simp: fstep_def split: if_splits list.splits)
  have "sum_list (map length (scripts st)) \<ge> length (scripts st ! t)"
    using c(1) by (metis elem_le_sum_list length_map nth_map)
  then show ?thesis using c by (simp add: calls_left_def map_update sum_list_update)
qed

lemma fstep_thread: "fstep t st = Some st' \<Longrightarrow> t \<in> set (threads st)"
  by (auto simp: fstep_def threads_def split: if_splits)

lemma stopped_iff: "stopped st \<longleftrightarrow> (\<forall>t. fstep t st = None)"
  using fstep_thread [of _ st] by (auto simp: stopped_def list_all_iff) (metis not_None_eq)

lemma frun_ends:
  "frun ts st = Some st' \<Longrightarrow> stopped st' \<Longrightarrow> calls_left st \<le> n \<Longrightarrow> st' \<in> set (ends n st)"
proof (induction n arbitrary: ts st)
  case 0
  then have "fstep t st = None" for t using fstep_calls_left [of t st] by (cases "fstep t st") auto
  then show ?case using 0 by (cases ts) auto
next
  case (Suc n)
  show ?case
  proof (cases ts)
    case Nil
    then show ?thesis using Suc.prems by (auto simp: stopped_iff map_filter_def)
  next
    case (Cons t us)
    then obtain s where s: "fstep t st = Some s" "frun us s = Some st'"
      using Suc.prems(1) by (auto simp: bind_eq_Some_conv)
    have "st' \<in> set (ends n s)" using Suc.IH [OF s(2) Suc.prems(2)] fstep_calls_left [OF s(1)] Suc.prems(3) by simp
    moreover have "s \<in> set (List.map_filter (\<lambda>t. fstep t st) (threads st))"
      using s(1) fstep_thread [OF s(1)] by (force simp: map_filter_def)
    ultimately show ?thesis by (auto simp: Let_def)
  qed
qed

lemma frun_length: "frun ts st = Some st' \<Longrightarrow> length ts + calls_left st' = calls_left st"
proof (induction ts arbitrary: st)
  case (Cons t ts)
  then show ?case using fstep_calls_left by (fastforce simp: bind_eq_Some_conv)
qed simp

definition outcome :: "fstate \<Rightarrow> flog list list \<times> bool" where
  "outcome st = (logs st, terminated st \<or> list_ex (\<lambda>s. s \<noteq> []) (scripts st))"

lemma frun_outcome:
  assumes "list_all (\<lambda>e. outcome e = r) (ends (calls_left st) st)" "frun ts st = Some st'" "stopped st'"
  shows "outcome st' = r"
  using frun_ends [OF assms(2,3) order_refl] assms(1) by (simp add: list_all_iff)

section \<open>What the functions log\<close>

definition logged :: "(fstate \<times> flog list list) list" where
  "logged =
     [(use_async, [[Got (StrV ''Data : Data'')], []]),
      (use_package, [[Got (IntV 42)], []]),
      (use_shared_future, [[], [], [Got (IntV 41)], [Got (IntV 41)]]),
      (use_shared_future_error, [[], [], [Got (IntV 41)], [Caught no_state]]),
      (use_promise, [[Got (IntV 10)], []]),
      (use_promise_exception, [[Caught ''An error occurred !''], []]),
      (use_promise_destruct, [[Got (IntV 10)], []]),
      (use_future_exception, [[Caught ''Oops, something went wrong!''], []])]"

lemma logged_ends: "list_all (\<lambda>(p, r). list_all (\<lambda>e. outcome e = (r, False)) (ends (calls_left p) p)) logged"
  by code_simp

text \<open>
  C38: Every interleaving of every function of the example ends with all its calls made and no call of
  \<open>std::terminate\<close>, and logs the same: the value of the task, of the promise or of both shared handles, the
  exception that the thread stored, and for the handle that was moved twice the error of a future without
  a state.
\<close>

theorem futures_deliver:
  assumes "(p, r) \<in> set logged" "frun ts p = Some st"
  shows "length ts \<le> calls_left p \<and> (stopped st \<longrightarrow> outcome st = (r, False) \<and> length ts = calls_left p)"
proof -
  have e: "list_all (\<lambda>e. outcome e = (r, False)) (ends (calls_left p) p)"
    using logged_ends assms(1) by (auto simp: list_all_iff)
  have l: "length ts + calls_left st = calls_left p" by (rule frun_length [OF assms(2)])
  moreover have "outcome st = (r, False)" if "stopped st" by (rule frun_outcome [OF e assms(2) that])
  moreover have "calls_left st = 0" if "outcome st = (r, False)"
    using that by (auto simp: outcome_def calls_left_def list_ex_iff)
  ultimately show ?thesis by auto
qed

lemma futures_deliver_witness:
  "\<exists>st. frun [1, 1, 1, 0] use_future_exception = Some st \<and> logs st = [[Caught ''Oops, something went wrong!''], []]"
proof -
  let ?m = "''Oops, something went wrong!''"
  have "case frun [1, 1, 1, 0] use_future_exception of None \<Rightarrow> False | Some st \<Rightarrow> stopped st" by code_simp
  from case_option_Some [OF this] obtain st where st: "frun [1, 1, 1, 0] use_future_exception = Some st" "stopped st" by blast
  have "(use_future_exception, [[Caught ?m], []]) \<in> set logged" by (simp add: logged_def)
  from futures_deliver [OF this st(1)] st have "logs st = [[Caught ?m], []]" by (simp add: outcome_def)
  with st(1) show ?thesis by auto
qed

end
