(* ===== verification/CStrings.thy ===== *)
theory CStrings
  imports Prelude
begin

text \<open>
  What the programs use of the C library on strings: strings that end at a 0, decimal numbers written
  (\<open>std::to_string\<close>, \<open>%ld\<close>) and read (\<open>atoi\<close>, \<open>atol\<close>).
\<close>

definition NUL :: char where
  "NUL = CHR 0x00"

definition NL :: char where
  "NL = CHR 0x0A"

definition c_string :: "string \<Rightarrow> string" where
  "c_string = takeWhile (\<lambda>c. c \<noteq> NUL)"

text \<open>\<open>std::atoi\<close>: white space, a sign, digits; outside the range of \<open>int\<close> it is undefined.\<close>

definition digit_value :: "char \<Rightarrow> int" where
  "digit_value c = of_char c - 48"

fun atoi_digits :: "int \<Rightarrow> string \<Rightarrow> int" where
  "atoi_digits acc [] = acc"
| "atoi_digits acc (c # cs) =
     (if 0 \<le> digit_value c \<and> digit_value c \<le> 9 then atoi_digits (10 * acc + digit_value c) cs else acc)"

definition is_space :: "char \<Rightarrow> bool" where
  "is_space c \<longleftrightarrow> c = CHR '' '' \<or> (9 \<le> (of_char c :: int) \<and> (of_char c :: int) \<le> 13)"

definition atoi :: "string \<Rightarrow> int cxx" where
  "atoi s = (let v = (case dropWhile is_space s of
       CHR ''-'' # ds \<Rightarrow> - atoi_digits 0 ds
     | CHR ''+'' # ds \<Rightarrow> atoi_digits 0 ds
     | ds \<Rightarrow> atoi_digits 0 ds)
   in if - (2 ^ 31) \<le> v \<and> v < 2 ^ 31 then Ok v else UB)"

text \<open>The decimal digits of a number.\<close>

fun show_nat :: "nat \<Rightarrow> string" where
  "show_nat n = (if n < 10 then [char_of (48 + n)] else show_nat (n div 10) @ [char_of (48 + n mod 10)])"

declare show_nat.simps [simp del]

lemma digit_values: "list_all (\<lambda>d. digit_value (char_of (48 + d)) = int d) [0..<10]"
  by code_simp

lemma digit_value_char: "d < 10 \<Longrightarrow> digit_value (char_of (48 + d)) = int d"
  using digit_values by (simp only: list_all_iff atLeastLessThan_upt [symmetric]) auto

lemma atoi_digits_append: "list_all (\<lambda>c. 0 \<le> digit_value c \<and> digit_value c \<le> 9) ds \<Longrightarrow>
    atoi_digits acc (ds @ e) = atoi_digits (atoi_digits acc ds) e"
  by (induction ds arbitrary: acc) auto

lemma show_nat_digits: "list_all (\<lambda>c. 0 \<le> digit_value c \<and> digit_value c \<le> 9) (show_nat n)"
proof (induction n rule: show_nat.induct)
  case (1 n)
  have "n mod 10 < 10" by simp
  then show ?case using 1 digit_value_char [of n] digit_value_char [of "n mod 10"]
    by (subst show_nat.simps) auto
qed

lemma atoi_show_nat: "atoi_digits 0 (show_nat n) = int n"
proof (induction n rule: show_nat.induct)
  case (1 n)
  show ?case
  proof (cases "n < 10")
    case True
    then show ?thesis using digit_value_char [of n] by (subst show_nat.simps) simp
  next
    case False
    have "n mod 10 < 10" "10 * int (n div 10) + int (n mod 10) = int n" by (simp, presburger)
    with False 1 show ?thesis using digit_value_char [of "n mod 10"] show_nat_digits [of "n div 10"]
      by (subst show_nat.simps) (simp add: atoi_digits_append)
  qed
qed

lemma show_nat_plain: "c \<in> set (show_nat n) \<Longrightarrow> c \<noteq> CHR '' '' \<and> c \<noteq> NUL"
  using show_nat_digits [of n] by (auto simp: list_all_iff digit_value_def NUL_def)

end
