(* ===== verification/DdsEntities.thy ===== *)
theory DdsEntities
  imports CStrings
begin

text \<open>
  The publishers and subscribers of \<open>example/fastdds\<close> (\<open>HelloWorldExample\<close>, \<open>-DataSharing\<close>,
  \<open>-SharedMem\<close>, \<open>ZeroCopyExample\<close>): how they create and delete their DDS entities, and with which QoS.
  Fast DDS itself is a parameter: \<open>ans\<close> says what each create call returns (a handle, or \<open>nullptr\<close>),
  \<open>dw\<close> and \<open>dr\<close> are its default QoS of a writer and of a reader.  The calls made are recorded, and
  checked against the rules of the DDS interface: an entity is created on a live owner, and deleted
  once, through its owner, and not before the entities that depend on it.
\<close>

section \<open>Entities, QoS and calls\<close>

datatype entity = Participant | Publisher | Subscriber | Topic | DataWriter | DataReader

type_synonym handle = nat

text \<open>The kinds of the reliability and of the durability policy, in the order of what they offer.\<close>

datatype reliability_kind = BEST_EFFORT | RELIABLE

datatype durability_kind = VOLATILE | TRANSIENT_LOCAL

instantiation reliability_kind :: linorder
begin

definition less_eq_reliability_kind :: "reliability_kind \<Rightarrow> reliability_kind \<Rightarrow> bool" where
  "less_eq_reliability_kind r w \<longleftrightarrow> (r = RELIABLE \<longrightarrow> w = RELIABLE)"

definition less_reliability_kind :: "reliability_kind \<Rightarrow> reliability_kind \<Rightarrow> bool" where
  "less_reliability_kind r w \<longleftrightarrow> r = BEST_EFFORT \<and> w = RELIABLE"

instance
proof
  fix r w v :: reliability_kind
  show "(r < w) = (r \<le> w \<and> \<not> w \<le> r)" and "r \<le> w \<or> w \<le> r"
    by (cases r; cases w; simp add: less_eq_reliability_kind_def less_reliability_kind_def)+
  show "r \<le> w \<Longrightarrow> w \<le> r \<Longrightarrow> r = w"
    by (cases r; cases w; simp add: less_eq_reliability_kind_def)
qed (simp_all add: less_eq_reliability_kind_def)

end

instantiation durability_kind :: linorder
begin

definition less_eq_durability_kind :: "durability_kind \<Rightarrow> durability_kind \<Rightarrow> bool" where
  "less_eq_durability_kind r w \<longleftrightarrow> (r = TRANSIENT_LOCAL \<longrightarrow> w = TRANSIENT_LOCAL)"

definition less_durability_kind :: "durability_kind \<Rightarrow> durability_kind \<Rightarrow> bool" where
  "less_durability_kind r w \<longleftrightarrow> r = VOLATILE \<and> w = TRANSIENT_LOCAL"

instance
proof
  fix r w v :: durability_kind
  show "(r < w) = (r \<le> w \<and> \<not> w \<le> r)" and "r \<le> w \<or> w \<le> r"
    by (cases r; cases w; simp add: less_eq_durability_kind_def less_durability_kind_def)+
  show "r \<le> w \<Longrightarrow> w \<le> r \<Longrightarrow> r = w"
    by (cases r; cases w; simp add: less_eq_durability_kind_def)
qed (simp_all add: less_eq_durability_kind_def)

end

lemmas kind_order = less_eq_reliability_kind_def less_eq_durability_kind_def

record qos =
  reliability :: reliability_kind
  durability :: durability_kind
  history_depth :: nat
  max_samples :: nat
  allocated_samples :: nat
  async_publish :: bool
  data_sharing_auto :: bool
  heartbeat :: "nat \<times> nat"

text \<open>\<open>Create e parents result\<close>: the first parent is the object the call is made on.\<close>

datatype dds_call =
    Create entity "(entity \<times> handle) list" "handle option"
  | RegisterType handle
  | Run entity handle
  | Delete entity "(entity \<times> handle) list" "handle option"

record dds_object =
  participant_ptr :: "handle option"
  group_ptr :: "handle option"
  topic_ptr :: "handle option"
  endpoint_ptr :: "handle option"
  topic_name :: string
  type_name :: string
  used_qos :: "qos option"
  calls :: "dds_call list"

definition dds_new :: dds_object where
  "dds_new = \<lparr>participant_ptr = None, group_ptr = None, topic_ptr = None, endpoint_ptr = None,
     topic_name = [], type_name = [], used_qos = None, calls = []\<rparr>"

text \<open>A member call through a pointer that may be null.\<close>

definition deref :: "'a option \<Rightarrow> ('a \<Rightarrow> 'b cxx) \<Rightarrow> 'b cxx" where
  "deref p f = (case p of None \<Rightarrow> UB | Some h \<Rightarrow> f h)"

lemma deref_Some [simp]: "deref (Some h) f = f h"
  by (simp add: deref_def)

definition log_call :: "dds_call \<Rightarrow> dds_object \<Rightarrow> dds_object" where
  "log_call c st = st\<lparr>calls := calls st @ [c]\<rparr>"

definition create_participant :: "(entity \<Rightarrow> handle option) \<Rightarrow> dds_object \<Rightarrow> dds_object" where
  "create_participant ans st = log_call (Create Participant [] (ans Participant)) (st\<lparr>participant_ptr := ans Participant\<rparr>)"

definition register_type :: "dds_object \<Rightarrow> dds_object cxx" where
  "register_type st = deref (participant_ptr st) (\<lambda>p. Ok (log_call (RegisterType p) st))"

definition create_group :: "entity \<Rightarrow> (entity \<Rightarrow> handle option) \<Rightarrow> dds_object \<Rightarrow> dds_object cxx" where
  "create_group grp ans st = deref (participant_ptr st) (\<lambda>p.
     Ok (log_call (Create grp [(Participant, p)] (ans grp)) (st\<lparr>group_ptr := ans grp\<rparr>)))"

definition create_topic :: "string \<Rightarrow> string \<Rightarrow> (entity \<Rightarrow> handle option) \<Rightarrow> dds_object \<Rightarrow> dds_object cxx" where
  "create_topic name type ans st = deref (participant_ptr st) (\<lambda>p.
     Ok (log_call (Create Topic [(Participant, p)] (ans Topic))
       (st\<lparr>topic_ptr := ans Topic, topic_name := name, type_name := type\<rparr>)))"

definition create_endpoint :: "entity \<Rightarrow> entity \<Rightarrow> qos \<Rightarrow> (entity \<Rightarrow> handle option) \<Rightarrow> dds_object \<Rightarrow> dds_object cxx" where
  "create_endpoint grp ep q ans st = deref (group_ptr st) (\<lambda>g. deref (topic_ptr st) (\<lambda>t.
     Ok (log_call (Create ep [(grp, g), (Topic, t)] (ans ep)) (st\<lparr>endpoint_ptr := ans ep, used_qos := Some q\<rparr>))))"

section \<open>init and the destructors\<close>

definition init_chain ::
  "entity \<Rightarrow> entity \<Rightarrow> string \<Rightarrow> string \<Rightarrow> qos \<Rightarrow> (entity \<Rightarrow> handle option) \<Rightarrow> dds_object \<Rightarrow> (bool \<times> dds_object) cxx" where
  "init_chain grp ep name type q ans st =
     (let st = create_participant ans st in
      if participant_ptr st = None then Ok (False, st)
      else cxx_bind (register_type st) (\<lambda>st.
        cxx_bind (create_group grp ans st) (\<lambda>st.
        if group_ptr st = None then Ok (False, st)
        else cxx_bind (create_topic name type ans st) (\<lambda>st.
        if topic_ptr st = None then Ok (False, st)
        else cxx_bind (create_endpoint grp ep q ans st) (\<lambda>st.
        if endpoint_ptr st = None then Ok (False, st)
        else Ok (True, st))))))"

definition delete_endpoint :: "entity \<Rightarrow> entity \<Rightarrow> dds_object \<Rightarrow> dds_object cxx" where
  "delete_endpoint grp ep st =
     (if endpoint_ptr st \<noteq> None
      then deref (group_ptr st) (\<lambda>g. Ok (log_call (Delete ep [(grp, g)] (endpoint_ptr st)) st)) else Ok st)"

definition delete_group :: "entity \<Rightarrow> dds_object \<Rightarrow> dds_object cxx" where
  "delete_group grp st =
     (if group_ptr st \<noteq> None
      then deref (participant_ptr st) (\<lambda>p. Ok (log_call (Delete grp [(Participant, p)] (group_ptr st)) st)) else Ok st)"

definition delete_topic :: "dds_object \<Rightarrow> dds_object cxx" where
  "delete_topic st =
     (if topic_ptr st \<noteq> None
      then deref (participant_ptr st) (\<lambda>p. Ok (log_call (Delete Topic [(Participant, p)] (topic_ptr st)) st)) else Ok st)"

definition delete_participant :: "dds_object \<Rightarrow> dds_object" where
  "delete_participant st = log_call (Delete Participant [] (participant_ptr st)) st"

definition pub_destroy :: "dds_object \<Rightarrow> dds_object cxx" where
  "pub_destroy st =
     cxx_bind (delete_endpoint Publisher DataWriter st) (\<lambda>st.
     cxx_bind (delete_group Publisher st) (\<lambda>st.
     cxx_bind (delete_topic st) (\<lambda>st. Ok (delete_participant st))))"

definition sub_destroy :: "dds_object \<Rightarrow> dds_object cxx" where
  "sub_destroy st =
     cxx_bind (delete_endpoint Subscriber DataReader st) (\<lambda>st.
     cxx_bind (delete_topic st) (\<lambda>st.
     cxx_bind (delete_group Subscriber st) (\<lambda>st. Ok (delete_participant st))))"

section \<open>The four examples\<close>

definition hello_pub_init :: "qos \<Rightarrow> (entity \<Rightarrow> handle option) \<Rightarrow> dds_object \<Rightarrow> (bool \<times> dds_object) cxx" where
  "hello_pub_init dw = init_chain Publisher DataWriter ''HelloWorldTopic'' ''HelloWorld'' dw"

definition hello_sub_init :: "qos \<Rightarrow> (entity \<Rightarrow> handle option) \<Rightarrow> dds_object \<Rightarrow> (bool \<times> dds_object) cxx" where
  "hello_sub_init dr = init_chain Subscriber DataReader ''HelloWorldTopic'' ''HelloWorld'' (dr\<lparr>reliability := RELIABLE\<rparr>)"

definition sharing_pub_init :: "qos \<Rightarrow> (entity \<Rightarrow> handle option) \<Rightarrow> dds_object \<Rightarrow> (bool \<times> dds_object) cxx" where
  "sharing_pub_init dw = init_chain Publisher DataWriter ''HelloWorldTopic'' ''HelloWorld''
     (dw\<lparr>reliability := BEST_EFFORT, history_depth := 10, data_sharing_auto := True\<rparr>)"

definition sharing_sub_init :: "qos \<Rightarrow> (entity \<Rightarrow> handle option) \<Rightarrow> dds_object \<Rightarrow> (bool \<times> dds_object) cxx" where
  "sharing_sub_init dr = init_chain Subscriber DataReader ''HelloWorldTopic'' ''HelloWorld''
     (dr\<lparr>reliability := BEST_EFFORT, durability := VOLATILE, data_sharing_auto := True\<rparr>)"

definition shm_pub_init :: "qos \<Rightarrow> (entity \<Rightarrow> handle option) \<Rightarrow> dds_object \<Rightarrow> (bool \<times> dds_object) cxx" where
  "shm_pub_init dw = init_chain Publisher DataWriter ''HelloWorldTopic'' ''HelloWorld''
     (dw\<lparr>history_depth := 30, max_samples := 50, allocated_samples := 20,
        heartbeat := (2, 200 * 1000 * 1000), reliability := RELIABLE, async_publish := True\<rparr>)"

definition shm_sub_init :: "qos \<Rightarrow> (entity \<Rightarrow> handle option) \<Rightarrow> dds_object \<Rightarrow> (bool \<times> dds_object) cxx" where
  "shm_sub_init dr = init_chain Subscriber DataReader ''HelloWorldTopic'' ''HelloWorld''
     (dr\<lparr>history_depth := 30, max_samples := 50, allocated_samples := 20, reliability := RELIABLE, durability := TRANSIENT_LOCAL\<rparr>)"

text \<open>\<open>LoanableHelloWorldPublisher::init\<close> fills in a QoS and then creates the writer with the default one.\<close>

definition loan_writer_qos :: "qos \<Rightarrow> qos" where
  "loan_writer_qos dw = dw\<lparr>history_depth := 10, durability := TRANSIENT_LOCAL, data_sharing_auto := True\<rparr>"

definition loan_pub_init :: "qos \<Rightarrow> (entity \<Rightarrow> handle option) \<Rightarrow> dds_object \<Rightarrow> (bool \<times> dds_object) cxx" where
  "loan_pub_init dw = (let wqos = loan_writer_qos dw in
     init_chain Publisher DataWriter ''LoanableHelloWorldTopic'' ''LoanableHelloWorld'' dw)"

definition loan_sub_init :: "qos \<Rightarrow> (entity \<Rightarrow> handle option) \<Rightarrow> dds_object \<Rightarrow> (bool \<times> dds_object) cxx" where
  "loan_sub_init dr = init_chain Subscriber DataReader ''LoanableHelloWorldTopic'' ''LoanableHelloWorld''
     (dr\<lparr>history_depth := 10, reliability := RELIABLE, durability := TRANSIENT_LOCAL, data_sharing_auto := True\<rparr>)"

text \<open>One case of the \<open>switch\<close> of \<open>main\<close>: construct, \<open>init\<close>, \<open>run\<close> when it succeeded, destroy.\<close>

definition run_program ::
  "entity \<Rightarrow> (dds_object \<Rightarrow> (bool \<times> dds_object) cxx) \<Rightarrow> (dds_object \<Rightarrow> dds_object cxx) \<Rightarrow> dds_object cxx" where
  "run_program ep ini destroy =
     cxx_bind (ini dds_new) (\<lambda>(ok, st).
       cxx_bind (if ok then deref (endpoint_ptr st) (\<lambda>h. Ok (log_call (Run ep h) st)) else Ok st) destroy)"

definition pub_programs :: "qos \<Rightarrow> (entity \<Rightarrow> handle option) \<Rightarrow> dds_object cxx list" where
  "pub_programs dw ans =
     map (\<lambda>ini. run_program DataWriter (ini ans) pub_destroy) [hello_pub_init dw, sharing_pub_init dw, shm_pub_init dw, loan_pub_init dw]"

definition sub_programs :: "qos \<Rightarrow> (entity \<Rightarrow> handle option) \<Rightarrow> dds_object cxx list" where
  "sub_programs dr ans =
     map (\<lambda>ini. run_program DataReader (ini ans) sub_destroy) [hello_sub_init dr, sharing_sub_init dr, shm_sub_init dr, loan_sub_init dr]"

section \<open>The rules of the interface\<close>

type_synonym live = "(entity \<times> handle \<times> (entity \<times> handle) list) list"

definition is_live :: "live \<Rightarrow> entity \<times> handle \<Rightarrow> bool" where
  "is_live l eh = list_ex (\<lambda>(e, h, ps). (e, h) = eh) l"

fun lifecycle_step :: "live \<Rightarrow> dds_call \<Rightarrow> live option" where
  "lifecycle_step l (Create e ps r) =
     (if \<not> list_all (is_live l) ps then None
      else case r of None \<Rightarrow> Some l | Some h \<Rightarrow> if is_live l (e, h) then None else Some ((e, h, ps) # l))"
| "lifecycle_step l (RegisterType p) = (if is_live l (Participant, p) then Some l else None)"
| "lifecycle_step l (Run e h) = (if is_live l (e, h) then Some l else None)"
| "lifecycle_step l (Delete e caller None) = Some l"
| "lifecycle_step l (Delete e caller (Some h)) =
     (if list_ex (\<lambda>(e', h', ps). e' = e \<and> h' = h \<and> take 1 ps = caller) l \<and>
         \<not> list_ex (\<lambda>(e', h', ps). (e, h) \<in> set ps) l
      then Some (filter (\<lambda>(e', h', ps). (e', h') \<noteq> (e, h)) l) else None)"

fun lifecycle :: "live \<Rightarrow> dds_call list \<Rightarrow> live option" where
  "lifecycle l [] = Some l"
| "lifecycle l (c # cs) = (case lifecycle_step l c of None \<Rightarrow> None | Some l' \<Rightarrow> lifecycle l' cs)"

text \<open>No rule broken, and nothing left at the end.\<close>

definition clean_run :: "dds_call list \<Rightarrow> bool" where
  "clean_run cs \<longleftrightarrow> lifecycle [] cs = Some []"

definition ran :: "dds_call list \<Rightarrow> bool" where
  "ran = list_ex (\<lambda>c. case c of Run e h \<Rightarrow> True | _ \<Rightarrow> False)"

lemmas entity_ops = create_participant_def register_type_def create_group_def create_topic_def create_endpoint_def
  delete_endpoint_def delete_group_def delete_topic_def delete_participant_def log_call_def dds_new_def cxx_simps

text \<open>
  How a program must end: without undefined behaviour, with a clean list of calls, and having called
  \<open>run\<close> exactly when all the entities \<open>es\<close> could be created.
\<close>

definition program_clean :: "(entity \<Rightarrow> handle option) \<Rightarrow> entity list \<Rightarrow> dds_object cxx \<Rightarrow> bool" where
  "program_clean ans es r \<longleftrightarrow>
     (case r of Ok st \<Rightarrow> clean_run (calls st) \<and> (ran (calls st) \<longleftrightarrow> list_all (\<lambda>e. ans e \<noteq> None) es) | _ \<Rightarrow> False)"

lemmas run_simps = run_program_def init_chain_def pub_destroy_def sub_destroy_def entity_ops
  program_clean_def clean_run_def is_live_def ran_def Let_def

lemma pub_program_clean:
  "program_clean ans [Participant, Publisher, Topic, DataWriter]
     (run_program DataWriter (init_chain Publisher DataWriter name type q ans) pub_destroy)"
  by (cases "ans Participant"; cases "ans Publisher"; cases "ans Topic"; cases "ans DataWriter") (simp_all add: run_simps)

lemma sub_program_clean:
  "program_clean ans [Participant, Subscriber, Topic, DataReader]
     (run_program DataReader (init_chain Subscriber DataReader name type q ans) sub_destroy)"
  by (cases "ans Participant"; cases "ans Subscriber"; cases "ans Topic"; cases "ans DataReader") (simp_all add: run_simps)

lemmas program_inits = hello_pub_init_def sharing_pub_init_def shm_pub_init_def loan_pub_init_def
  hello_sub_init_def sharing_sub_init_def shm_sub_init_def loan_sub_init_def Let_def

text \<open>
  C8: Whatever the create calls return, each of the eight programs runs without using a null pointer, deletes every
  entity it created exactly once, through its owner and after the entities that depend on it, and calls \<open>run\<close>
  exactly when every create call has succeeded.
\<close>

theorem dds_lifecycle:
  "list_all (program_clean ans [Participant, Publisher, Topic, DataWriter]) (pub_programs dw ans) \<and>
   list_all (program_clean ans [Participant, Subscriber, Topic, DataReader]) (sub_programs dr ans)"
  by (simp add: pub_programs_def sub_programs_def program_inits pub_program_clean sub_program_clean)

section \<open>Do reader and writer match\<close>

text \<open>
  The rule of DDS: the topic and type are the same, and the writer offers at least the reliability and the
  durability that the reader asks for.
\<close>

definition qos_compatible :: "qos \<Rightarrow> qos \<Rightarrow> bool" where
  "qos_compatible w r \<longleftrightarrow> reliability r \<le> reliability w \<and> durability r \<le> durability w"

definition endpoints_match :: "dds_object cxx \<Rightarrow> dds_object cxx \<Rightarrow> bool" where
  "endpoints_match p s = (case (p, s) of
     (Ok p, Ok s) \<Rightarrow> topic_name p = topic_name s \<and> type_name p = type_name s \<and>
       (case (used_qos p, used_qos s) of (Some w, Some r) \<Rightarrow> qos_compatible w r | _ \<Rightarrow> False)
   | _ \<Rightarrow> False)"

definition matching :: "qos \<Rightarrow> qos \<Rightarrow> (entity \<Rightarrow> handle option) \<Rightarrow> bool list list" where
  "matching dw dr ans = map (\<lambda>p. map (endpoints_match p) (sub_programs dr ans)) (pub_programs dw ans)"

lemma pub_program_endpoint:
  "list_all (\<lambda>e. ans e \<noteq> None) [Participant, Publisher, Topic, DataWriter] \<Longrightarrow>
     \<exists>st. run_program DataWriter (init_chain Publisher DataWriter name type q ans) pub_destroy = Ok st \<and>
       topic_name st = name \<and> type_name st = type \<and> used_qos st = Some q"
  by (auto simp: run_program_def init_chain_def pub_destroy_def entity_ops Let_def)

lemma sub_program_endpoint:
  "list_all (\<lambda>e. ans e \<noteq> None) [Participant, Subscriber, Topic, DataReader] \<Longrightarrow>
     \<exists>st. run_program DataReader (init_chain Subscriber DataReader name type q ans) sub_destroy = Ok st \<and>
       topic_name st = name \<and> type_name st = type \<and> used_qos st = Some q"
  by (auto simp: run_program_def init_chain_def sub_destroy_def entity_ops Let_def)

lemma endpoints_match_chains:
  assumes "list_all (\<lambda>e. ans e \<noteq> None) [Participant, Publisher, Subscriber, Topic, DataWriter, DataReader]"
  shows "endpoints_match (run_program DataWriter (init_chain Publisher DataWriter name type w ans) pub_destroy)
           (run_program DataReader (init_chain Subscriber DataReader name' type' r ans) sub_destroy) \<longleftrightarrow>
         name = name' \<and> type = type' \<and> qos_compatible w r"
proof -
  obtain p where "run_program DataWriter (init_chain Publisher DataWriter name type w ans) pub_destroy = Ok p"
      "topic_name p = name" "type_name p = type" "used_qos p = Some w"
    using pub_program_endpoint [of ans name type w] assms by auto
  moreover obtain s where "run_program DataReader (init_chain Subscriber DataReader name' type' r ans) sub_destroy = Ok s"
      "topic_name s = name'" "type_name s = type'" "used_qos s = Some r"
    using sub_program_endpoint [of ans name' type' r] assms by auto
  ultimately show ?thesis by (simp add: endpoints_match_def)
qed

text \<open>
  When every create call succeeds, which writer matches which reader (rows: \<open>HelloWorldExample\<close>, \<open>DataSharing\<close>,
  \<open>SharedMem\<close>, \<open>ZeroCopy\<close> writers; columns: their readers), as a function of the writer defaults of the library.
  The readers of \<open>SharedMem\<close> and \<open>ZeroCopy\<close> ask for transient-local data, and no writer sets it: these two
  examples work only because of the library's default.
\<close>

theorem dds_matching:
  assumes "list_all (\<lambda>e. ans e \<noteq> None) [Participant, Publisher, Subscriber, Topic, DataWriter, DataReader]"
    and "durability dr = VOLATILE"
  shows "matching dw dr ans =
    (let rel = (RELIABLE \<le> reliability dw); loc = (TRANSIENT_LOCAL \<le> durability dw) in
     [[rel, True, rel \<and> loc, False],
      [False, True, False, False],
      [True, True, loc, False],
      [False, False, False, rel \<and> loc]])"
  using assms(2) by (simp add: matching_def pub_programs_def sub_programs_def program_inits
    endpoints_match_chains [OF assms(1)] qos_compatible_def kind_order Let_def)

lemma dds_matching_witness:
  "matching \<lparr>reliability = RELIABLE, durability = VOLATILE, history_depth = 1, max_samples = 5000, allocated_samples = 100,
       async_publish = False, data_sharing_auto = True, heartbeat = (3, 0)\<rparr>
     \<lparr>reliability = BEST_EFFORT, durability = VOLATILE, history_depth = 1, max_samples = 5000, allocated_samples = 100,
       async_publish = False, data_sharing_auto = True, heartbeat = (3, 0)\<rparr> (\<lambda>e. Some 7) ! 3 ! 3 = False"
  by (subst dds_matching) (simp_all add: kind_order)

section \<open>The command lines\<close>

text \<open>What \<open>main\<close> starts: \<open>RunPublisher samples sleep\<close> with the arguments as \<open>uint32_t\<close>.\<close>

datatype start = StartPublisher | RunPublisher "32 word" "32 word" | StartSubscriber | Usage

definition hello_main :: "string list \<Rightarrow> start list" where
  "hello_main argv =
     (if length argv = 2 then
        if argv ! 1 = ''publisher'' then [StartPublisher]
        else if argv ! 1 = ''subscriber'' then [StartSubscriber] else [Usage]
      else [Usage])"

definition loan_main :: "string list \<Rightarrow> start list" where
  "loan_main argv =
     (if length argv = 2 then
        if argv ! 1 = ''publisher'' then [RunPublisher 1000 100]
        else if argv ! 1 = ''subscriber'' then [StartSubscriber] else [Usage]
      else [Usage])"

definition pub_arguments :: "string list \<Rightarrow> (int \<times> int) cxx" where
  "pub_arguments argv =
     (if length argv \<ge> 3 then
        cxx_bind (atoi (argv ! 2)) (\<lambda>count.
        if length argv = 4 then cxx_bind (atoi (argv ! 3)) (\<lambda>sleep. Ok (count, sleep)) else Ok (count, 100))
      else Ok (1000, 100))"

definition sharing_main :: "string list \<Rightarrow> start list cxx" where
  "sharing_main argv =
     (if length argv > 1 then
        if argv ! 1 = ''publisher'' then
          cxx_bind (pub_arguments argv) (\<lambda>(count, sleep). Ok [RunPublisher (word_of_int count) (word_of_int sleep)])
        else if argv ! 1 = ''subscriber'' then Ok [StartSubscriber] else Ok [Usage]
      else Ok [Usage])"

text \<open>In \<open>SharedMem\<close> the type is 1 from the start: an unknown word runs the publisher; \<open>both\<close> starts two threads.\<close>

definition shm_main :: "string list \<Rightarrow> start list cxx" where
  "shm_main argv =
     (if length argv > 1 then
        if argv ! 1 = ''publisher'' then
          cxx_bind (pub_arguments argv) (\<lambda>(count, sleep). Ok [RunPublisher (word_of_int count) (word_of_int sleep)])
        else if argv ! 1 = ''subscriber'' then Ok [StartSubscriber]
        else if argv ! 1 = ''both'' then Ok [StartSubscriber, RunPublisher 1000 100]
        else Ok [RunPublisher 1000 100]
      else Ok [Usage])"

lemma command_lines:
  "shm_main [''prog'', ''publsher''] = Ok [RunPublisher 1000 100]"
  "sharing_main [''prog'', ''publisher'', ''-1''] = Ok [RunPublisher (2 ^ 32 - 1) 100]"
  "sharing_main [''prog'', ''publisher'', ''ten''] = Ok [RunPublisher 0 100]"
  "loan_main [''prog'', ''publisher'', ''10''] = [Usage]"
  by code_simp+

end
