(* ===== verification/DdsPublish.thy ===== *)
theory DdsPublish
  imports DdsEntities
begin

text \<open>
  The publishing loop of \<open>example/fastdds\<close>: the listener that counts matched readers, \<open>publish\<close>,
  \<open>runThread\<close> and \<open>run\<close> of the three publishers that have them, as steps of the listener thread, of the
  publishing thread and of the user, in any order; and the interactive \<open>run\<close> of the others.  What a call
  of \<open>writer_->write\<close> hands over is appended to \<open>written\<close>.
\<close>

section \<open>Samples\<close>

record sample =
  sample_index :: "32 word"
  text_data :: "byte list"

text \<open>\<open>std::to_string\<close> of an unsigned number, and string literals as bytes.\<close>

definition digit :: "nat \<Rightarrow> byte" where
  "digit d = word_of_nat (48 + d)"

fun to_string :: "nat \<Rightarrow> byte list" where
  "to_string n = (if n < 10 then [digit n] else to_string (n div 10) @ [digit (n mod 10)])"

declare to_string.simps [simp del]

definition bytes_of :: "string \<Rightarrow> byte list" where
  "bytes_of s = map of_char s"

lemma to_string_length: "n < 10 ^ Suc k \<Longrightarrow> length (to_string n) \<le> Suc k"
proof (induction k arbitrary: n)
  case (Suc k)
  then show ?case using Suc.IH [of "n div 10"] by (subst to_string.simps) (auto simp: less_mult_imp_div_less mult.commute)
qed (subst to_string.simps, simp)

lemma digit_nonzero: "d < 10 \<Longrightarrow> digit d \<noteq> 0"
proof -
  assume "d < 10"
  then have "unat (digit d) = 48 + d" unfolding digit_def by (subst unat_of_nat) simp
  then show ?thesis by auto
qed

section \<open>State of a publisher\<close>

record publisher =
  matched :: int
  first_connected :: bool
  hello :: sample
  stop :: bool
  loop_i :: "32 word"
  thread_done :: bool
  written :: "sample list"
  readers_now :: nat
  readers_ever :: nat

record match_info =
  total_count :: int
  current_count_change :: int

text \<open>The listeners; \<open>DataSharing\<close> also remembers the first match.\<close>

definition on_publication_matched :: "match_info \<Rightarrow> publisher \<Rightarrow> publisher" where
  "on_publication_matched info st =
     (if current_count_change info = 1 then st\<lparr>matched := total_count info\<rparr>
      else if current_count_change info = - 1 then st\<lparr>matched := total_count info\<rparr>
      else st)"

definition sharing_on_publication_matched :: "match_info \<Rightarrow> publisher \<Rightarrow> publisher" where
  "sharing_on_publication_matched info st =
     (if current_count_change info = 1 then st\<lparr>matched := total_count info, first_connected := True\<rparr>
      else if current_count_change info = - 1 then st\<lparr>matched := total_count info\<rparr>
      else st)"

section \<open>publish\<close>

definition next_index :: "publisher \<Rightarrow> publisher" where
  "next_index st = st\<lparr>hello := (hello st)\<lparr>sample_index := sample_index (hello st) + 1\<rparr>\<rparr>"

definition write_hello :: "publisher \<Rightarrow> publisher" where
  "write_hello st = st\<lparr>written := written st @ [hello st]\<rparr>"

definition sharing_publish :: "bool \<Rightarrow> publisher \<Rightarrow> (bool \<times> publisher) cxx" where
  "sharing_publish wait_for_listener st =
     (if first_connected st \<or> \<not> wait_for_listener \<or> matched st > 0
      then Ok (True, write_hello (next_index st)) else Ok (False, st))"

text \<open>\<open>strcpy\<close> of a string at an offset: the bytes and the terminating 0, inside the buffer or undefined.\<close>

definition strcpy_at :: "byte list \<Rightarrow> nat \<Rightarrow> byte list \<Rightarrow> byte list cxx" where
  "strcpy_at dst off s = memcpy_at dst (int off) (s @ [0]) (length s + 1)"

definition shm_publish :: "bool \<Rightarrow> publisher \<Rightarrow> (bool \<times> publisher) cxx" where
  "shm_publish wait_for_listener st =
     (if first_connected st \<or> \<not> wait_for_listener \<or> matched st > 0
      then let st = next_index st;
               data_size = length (text_data (hello st));
               s = bytes_of ''BigData'' @ to_string (unat (sample_index (hello st) mod 10))
           in cxx_bind (strcpy_at (text_data (hello st)) (size_sub (size_sub data_size (int (length s))) 1) s)
                (\<lambda>d. Ok (True, write_hello (st\<lparr>hello := (hello st)\<lparr>text_data := d\<rparr>\<rparr>)))
      else Ok (False, st))"

definition loan_publish :: "bool \<Rightarrow> publisher \<Rightarrow> (bool \<times> publisher) cxx" where
  "loan_publish wait_for_listener st =
     (if \<not> wait_for_listener \<or> matched st > 0
      then let st = next_index st;
               s = bytes_of ''LoanableHelloWorld'' @ to_string (unat (sample_index (hello st)))
           in cxx_bind (memcpy_at (text_data (hello st)) 0 (s @ [0]) (length s + 1))
                (\<lambda>d. Ok (True, write_hello (st\<lparr>hello := (hello st)\<lparr>text_data := d\<rparr>\<rparr>)))
      else Ok (False, st))"

section \<open>runThread and run\<close>

text \<open>
  One round of the loop of \<open>runThread\<close>: with \<open>samples\<close> 0 until \<open>stop\<close>, otherwise the \<open>for\<close> loop with
  its \<open>--i\<close> after a failed \<open>publish\<close>.
\<close>

definition run_round ::
  "(bool \<Rightarrow> publisher \<Rightarrow> (bool \<times> publisher) cxx) \<Rightarrow> 32 word \<Rightarrow> publisher \<Rightarrow> publisher cxx" where
  "run_round publish samples st =
     (if samples = 0 then
        if \<not> stop st then cxx_bind (publish False st) (\<lambda>(ok, st). Ok st)
        else Ok (st\<lparr>thread_done := True\<rparr>)
      else if loop_i st < samples then
        cxx_bind (publish True st) (\<lambda>(ok, st).
          let st = (if \<not> ok then st\<lparr>loop_i := loop_i st - 1\<rparr> else st)
          in Ok (st\<lparr>loop_i := loop_i st + 1\<rparr>))
      else Ok (st\<lparr>thread_done := True\<rparr>))"

text \<open>
  The DDS side of a match: \<open>total_count\<close> counts every reader ever matched (OMG DDS, \<open>PublicationMatchedStatus\<close>).
  \<open>PressEnter\<close> is the main thread in \<open>run\<close> when \<open>samples\<close> is 0.
\<close>

datatype pub_action = ReaderJoins | ReaderLeaves | Round | PressEnter

definition pub_exec ::
  "(match_info \<Rightarrow> publisher \<Rightarrow> publisher) \<Rightarrow> (bool \<Rightarrow> publisher \<Rightarrow> (bool \<times> publisher) cxx) \<Rightarrow> 32 word \<Rightarrow>
   pub_action \<Rightarrow> publisher \<Rightarrow> publisher cxx" where
  "pub_exec on_matched publish samples a st = (case a of
     ReaderJoins \<Rightarrow> Ok (on_matched \<lparr>total_count = int (readers_ever st) + 1, current_count_change = 1\<rparr>
       (st\<lparr>readers_now := readers_now st + 1, readers_ever := readers_ever st + 1\<rparr>))
   | ReaderLeaves \<Rightarrow>
       if readers_now st = 0 then Ok st
       else Ok (on_matched \<lparr>total_count = int (readers_ever st), current_count_change = - 1\<rparr>
         (st\<lparr>readers_now := readers_now st - 1\<rparr>))
   | Round \<Rightarrow> if thread_done st then Ok st else run_round publish samples st
   | PressEnter \<Rightarrow> if samples = 0 then Ok (st\<lparr>stop := True\<rparr>) else Ok st)"

definition pub_run ::
  "(match_info \<Rightarrow> publisher \<Rightarrow> publisher) \<Rightarrow> (bool \<Rightarrow> publisher \<Rightarrow> (bool \<times> publisher) cxx) \<Rightarrow> 32 word \<Rightarrow>
   pub_action list \<Rightarrow> publisher \<Rightarrow> publisher cxx" where
  "pub_run on_matched publish samples acts st = cxx_fold (\<lambda>st a. pub_exec on_matched publish samples a st) st acts"

text \<open>The state after \<open>init\<close>, when \<open>run\<close> has set \<open>stop = false\<close>; the \<open>n\<close> bytes are those of the type's array.\<close>

definition pub_start :: "nat \<Rightarrow> publisher" where
  "pub_start n = \<lparr>matched = 0, first_connected = False, hello = \<lparr>sample_index = 0, text_data = replicate n 0\<rparr>,
     stop = False, loop_i = 0, thread_done = False, written = [], readers_now = 0, readers_ever = 0\<rparr>"

definition sharing_pub :: "32 word \<Rightarrow> pub_action list \<Rightarrow> publisher cxx" where
  "sharing_pub samples acts = pub_run sharing_on_publication_matched sharing_publish samples acts (pub_start (1024 * 1024))"

definition shm_pub :: "32 word \<Rightarrow> pub_action list \<Rightarrow> publisher cxx" where
  "shm_pub samples acts = pub_run on_publication_matched shm_publish samples acts (pub_start (1024 * 1024))"

text \<open>The array of the loanable type, with its first message.\<close>

definition loan_pub :: "32 word \<Rightarrow> pub_action list \<Rightarrow> publisher cxx" where
  "loan_pub samples acts = pub_run on_publication_matched loan_publish samples acts
     ((pub_start 256)\<lparr>hello := \<lparr>sample_index = 0,
        text_data = bytes_of ''Hello Loan World Zero Copy'' @ replicate (256 - 26) 0\<rparr>\<rparr>)"

section \<open>What the three publishers share\<close>

text \<open>One successful \<open>publish\<close>; \<open>nt k d\<close> is the text of sample \<open>k\<close> when the buffer holds \<open>d\<close>.\<close>

definition emit :: "(32 word \<Rightarrow> byte list \<Rightarrow> byte list) \<Rightarrow> publisher \<Rightarrow> publisher" where
  "emit nt st = (let k = sample_index (hello st) + 1; s = \<lparr>sample_index = k, text_data = nt k (text_data (hello st))\<rparr>
     in st\<lparr>hello := s, written := written st @ [s]\<rparr>)"

definition numbered :: "publisher \<Rightarrow> bool" where
  "numbered st \<longleftrightarrow> sample_index (hello st) = of_nat (length (written st)) \<and>
     map sample_index (written st) = map of_nat [1..<Suc (length (written st))]"

lemma emit_simps [simp]:
  "length (written (emit nt st)) = Suc (length (written st))" "matched (emit nt st) = matched st"
  "first_connected (emit nt st) = first_connected st" "stop (emit nt st) = stop st" "loop_i (emit nt st) = loop_i st"
  "thread_done (emit nt st) = thread_done st" "readers_ever (emit nt st) = readers_ever st"
  "text_data (hello (emit nt st)) = nt (sample_index (hello st) + 1) (text_data (hello st))"
  by (simp_all add: emit_def Let_def)

lemma numbered_emit: "numbered st \<Longrightarrow> numbered (emit nt st)"
  by (auto simp: numbered_def emit_def Let_def)

definition count_ok :: "bool \<Rightarrow> 32 word \<Rightarrow> publisher \<Rightarrow> bool" where
  "count_ok latch samples st \<longleftrightarrow>
     matched st = int (readers_ever st) \<and> (first_connected st \<longrightarrow> latch \<and> 0 < readers_ever st) \<and> numbered st \<and>
     (if samples = 0 then thread_done st \<longrightarrow> stop st
      else unat (loop_i st) = length (written st) \<and> length (written st) \<le> unat samples \<and>
        (thread_done st \<longrightarrow> length (written st) = unat samples) \<and> (readers_ever st = 0 \<longrightarrow> written st = []))"

text \<open>
  What a run of a publisher has done: samples 1, 2, 3, \<open>...\<close> with the right text.  With \<open>samples\<close> = 0 one for each
  round before the user pressed Enter; otherwise one for each round after the first reader matched, and
  \<open>samples\<close> in all; the thread ends in the next round.
\<close>

definition publishes :: "(32 word \<Rightarrow> byte list \<Rightarrow> bool) \<Rightarrow> 32 word \<Rightarrow> pub_action list \<Rightarrow> publisher cxx \<Rightarrow> bool" where
  "publishes text_ok samples acts r \<longleftrightarrow> (case r of
     Ok st \<Rightarrow> map sample_index (written st) = map of_nat [1..<Suc (length (written st))] \<and>
       list_all (\<lambda>s. text_ok (sample_index s) (text_data s)) (written st) \<and>
       (if samples = 0
        then length (written st) = count_list (takeWhile (\<lambda>a. a \<noteq> PressEnter) acts) Round \<and>
          (thread_done st \<longleftrightarrow> Round \<in> set (dropWhile (\<lambda>a. a \<noteq> PressEnter) acts))
        else let r = count_list (dropWhile (\<lambda>a. a \<noteq> ReaderJoins) acts) Round in
          length (written st) = min (unat samples) r \<and> (thread_done st \<longleftrightarrow> unat samples < r))
   | _ \<Rightarrow> False)"

locale publishing =
  fixes on_matched :: "match_info \<Rightarrow> publisher \<Rightarrow> publisher"
    and publish :: "bool \<Rightarrow> publisher \<Rightarrow> (bool \<times> publisher) cxx"
    and latch :: bool
    and wf :: "byte list \<Rightarrow> bool"
    and shows_index :: "32 word \<Rightarrow> byte list \<Rightarrow> bool"
    and nt :: "32 word \<Rightarrow> byte list \<Rightarrow> byte list"
  assumes on_matched_sets: "current_count_change info = 1 \<or> current_count_change info = - 1 \<Longrightarrow>
      on_matched info st = st\<lparr>matched := total_count info,
        first_connected := (latch \<and> current_count_change info = 1 \<or> first_connected st)\<rparr>"
    and publish_when: "wf (text_data (hello st)) \<Longrightarrow> (first_connected st \<Longrightarrow> latch) \<Longrightarrow>
      publish w st = (if first_connected st \<or> \<not> w \<or> 0 < matched st then Ok (True, emit nt st) else Ok (False, st))"
    and text_kept: "wf d \<Longrightarrow> wf (nt k d) \<and> shows_index k (nt k d)"
begin

definition pub_inv :: "32 word \<Rightarrow> publisher \<Rightarrow> bool" where
  "pub_inv samples st \<longleftrightarrow> count_ok latch samples st \<and> wf (text_data (hello st)) \<and>
     list_all (\<lambda>s. shows_index (sample_index s) (text_data s)) (written st)"

abbreviation exec :: "32 word \<Rightarrow> pub_action \<Rightarrow> publisher \<Rightarrow> publisher cxx" where
  "exec \<equiv> pub_exec on_matched publish"

lemma emit_inv_text: "wf (text_data (hello st)) \<Longrightarrow> list_all (\<lambda>s. shows_index (sample_index s) (text_data s)) (written st) \<Longrightarrow>
    list_all (\<lambda>s. shows_index (sample_index s) (text_data s)) (written (emit nt st))"
  using text_kept by (simp add: emit_def Let_def)

lemma joins_exec: "exec samples ReaderJoins st = Ok (st\<lparr>readers_now := readers_now st + 1, readers_ever := readers_ever st + 1,
    matched := int (readers_ever st) + 1, first_connected := (latch \<or> first_connected st)\<rparr>)"
  by (simp add: pub_exec_def on_matched_sets)

lemma leaves_exec: "exec samples ReaderLeaves st = (if readers_now st = 0 then Ok st
    else Ok (st\<lparr>readers_now := readers_now st - 1, matched := int (readers_ever st)\<rparr>))"
  by (simp add: pub_exec_def on_matched_sets)

lemma press_exec: "exec samples PressEnter st = Ok (if samples = 0 then st\<lparr>stop := True\<rparr> else st)"
  by (simp add: pub_exec_def)

lemma round_exec:
  assumes "pub_inv samples st"
  shows "exec samples Round st = Ok (if thread_done st then st
    else if samples = 0 then (if stop st then st\<lparr>thread_done := True\<rparr> else emit nt st)
    else if loop_i st < samples then (if 0 < readers_ever st then (emit nt st)\<lparr>loop_i := loop_i st + 1\<rparr> else st)
    else st\<lparr>thread_done := True\<rparr>)"
proof -
  have "publish w st = (if first_connected st \<or> \<not> w \<or> 0 < matched st then Ok (True, emit nt st) else Ok (False, st))" for w
    using assms by (intro publish_when) (auto simp: pub_inv_def count_ok_def)
  moreover have "first_connected st \<or> 0 < matched st \<longleftrightarrow> 0 < readers_ever st"
    using assms by (auto simp: pub_inv_def count_ok_def)
  ultimately show ?thesis by (auto simp: pub_exec_def run_round_def cxx_simps Let_def)
qed

lemma unat_next: "unat i = n \<Longrightarrow> i < m \<Longrightarrow> unat (i + 1) = Suc n \<and> Suc n \<le> unat m" for i m :: "32 word"
proof -
  assume a: "unat i = n" "i < m"
  then have "i \<noteq> - 1" by (auto simp: word_less_nat_alt) (metis a(2) linorder_not_less word_n1_ge)
  then have "unat (i + 1) = Suc (unat i)" by (metis add.commute add_eq_0_iff unatSuc)
  with a show ?thesis by (simp add: word_less_nat_alt)
qed

lemma exec_inv: "pub_inv samples st \<Longrightarrow> \<exists>st'. exec samples a st = Ok st' \<and> pub_inv samples st'"
proof (cases a)
  case Round
  assume inv: "pub_inv samples st"
  have "pub_inv samples (emit nt st)" if "samples = 0" "\<not> stop st"
    using inv that text_kept by (simp add: pub_inv_def count_ok_def numbered_emit emit_inv_text)
  moreover have "pub_inv samples ((emit nt st)\<lparr>loop_i := loop_i st + 1\<rparr>)"
    if "samples \<noteq> 0" "loop_i st < samples" "0 < readers_ever st" "\<not> thread_done st"
  proof -
    have "numbered ((emit nt st)\<lparr>loop_i := loop_i st + 1\<rparr>)"
      using inv numbered_emit [of st nt] by (simp add: pub_inv_def count_ok_def numbered_def)
    then show ?thesis using inv that text_kept unat_next [of "loop_i st" "length (written st)" samples] emit_inv_text
      by (simp add: pub_inv_def count_ok_def)
  qed
  moreover have "pub_inv samples (st\<lparr>thread_done := True\<rparr>)" if "samples = 0 \<and> stop st \<or> samples \<noteq> 0 \<and> \<not> loop_i st < samples"
    using inv that by (auto simp: pub_inv_def count_ok_def numbered_def word_less_nat_alt split: if_splits)
  ultimately show ?thesis using inv Round by (cases "samples = 0") (auto simp: round_exec)
qed (auto simp: joins_exec leaves_exec press_exec pub_inv_def count_ok_def numbered_def split: if_splits)

text \<open>With \<open>samples\<close> > 0: the rounds before the first reader do nothing, and each later one writes, up to \<open>samples\<close>.\<close>

lemma run_counts:
  assumes "samples \<noteq> 0" "pub_inv samples st"
  shows "\<exists>st'. pub_run on_matched publish samples acts st = Ok st' \<and> pub_inv samples st' \<and>
    (let r = length (written st) + count_list (if 0 < readers_ever st then acts else dropWhile (\<lambda>a. a \<noteq> ReaderJoins) acts) Round in
     length (written st') = min (unat samples) r \<and> (thread_done st' \<longleftrightarrow> thread_done st \<or> unat samples < r))"
  using assms(2)
proof (induction acts arbitrary: st)
  case Nil
  then show ?case using assms(1) by (auto simp: pub_run_def pub_inv_def count_ok_def)
next
  case (Cons a acts)
  obtain st1 where st1: "exec samples a st = Ok st1" "pub_inv samples st1" using exec_inv [OF Cons.prems] by blast
  have n: "length (written st) \<le> unat samples" "thread_done st \<Longrightarrow> length (written st) = unat samples"
      "unat (loop_i st) = length (written st)" "readers_ever st = 0 \<Longrightarrow> written st = []" "0 < unat samples"
    using Cons.prems assms(1) by (auto simp: pub_inv_def count_ok_def unat_gt_0)
  have run: "pub_run on_matched publish samples (a # acts) st = pub_run on_matched publish samples acts st1"
    using st1(1) by (simp add: pub_run_def cxx_simps)
  show ?case unfolding run using Cons.IH [OF st1(2)] st1(1) n assms(1)
    by (cases a; cases "thread_done st")
      (auto simp: joins_exec leaves_exec round_exec [OF Cons.prems] Let_def word_less_nat_alt press_exec split: if_splits)
qed

text \<open>With \<open>samples\<close> = 0: every round writes until the user has pressed Enter.\<close>

lemma run_counts_0:
  assumes "pub_inv 0 st"
  shows "\<exists>st'. pub_run on_matched publish 0 acts st = Ok st' \<and> pub_inv 0 st' \<and>
     length (written st') = length (written st) +
       (if stop st then 0 else count_list (takeWhile (\<lambda>a. a \<noteq> PressEnter) acts) Round) \<and>
     (thread_done st' \<longleftrightarrow> thread_done st \<or> Round \<in> set (if stop st then acts else dropWhile (\<lambda>a. a \<noteq> PressEnter) acts))"
  using assms
proof (induction acts arbitrary: st)
  case Nil
  then show ?case by (auto simp: pub_run_def)
next
  case (Cons a acts)
  obtain st1 where st1: "exec 0 a st = Ok st1" "pub_inv 0 st1" using exec_inv [OF Cons.prems] by blast
  have d: "thread_done st \<Longrightarrow> stop st" using Cons.prems by (auto simp: pub_inv_def count_ok_def)
  have run: "pub_run on_matched publish 0 (a # acts) st = pub_run on_matched publish 0 acts st1"
    using st1(1) by (simp add: pub_run_def cxx_simps)
  show ?case unfolding run using Cons.IH [OF st1(2)] st1(1) d
    by (cases a; cases "thread_done st"; cases "stop st")
      (auto simp: joins_exec leaves_exec round_exec [OF Cons.prems] press_exec split: if_splits)
qed

text \<open>From the start, for every order of the actions.\<close>

lemma run_from_start:
  assumes "wf (text_data (hello st))" "matched st = 0" "first_connected st = False" "stop st = False" "loop_i st = 0"
    "thread_done st = False" "written st = []" "readers_ever st = 0" "sample_index (hello st) = 0"
  shows "publishes shows_index samples acts (pub_run on_matched publish samples acts st)"
proof -
  have inv: "pub_inv samples st" using assms by (simp add: pub_inv_def count_ok_def numbered_def)
  have out: "map sample_index (written st') = map of_nat [1..<Suc (length (written st'))]"
      "list_all (\<lambda>s. shows_index (sample_index s) (text_data s)) (written st')" if "pub_inv samples st'" for st'
    using that by (simp_all add: pub_inv_def count_ok_def numbered_def del: upt_Suc)
  show ?thesis
  proof (cases "samples = 0")
    case True
    then obtain st' where "pub_run on_matched publish samples acts st = Ok st'" "pub_inv samples st'"
        "length (written st') = count_list (takeWhile (\<lambda>a. a \<noteq> PressEnter) acts) Round"
        "thread_done st' \<longleftrightarrow> Round \<in> set (dropWhile (\<lambda>a. a \<noteq> PressEnter) acts)"
      using run_counts_0 [of st acts] inv assms by auto
    then show ?thesis using out [of st'] True by (simp add: publishes_def del: upt_Suc)
  next
    case False
    then obtain st' where "pub_run on_matched publish samples acts st = Ok st'" "pub_inv samples st'"
        "length (written st') = min (unat samples) (count_list (dropWhile (\<lambda>a. a \<noteq> ReaderJoins) acts) Round)"
        "thread_done st' \<longleftrightarrow> unat samples < count_list (dropWhile (\<lambda>a. a \<noteq> ReaderJoins) acts) Round"
      using run_counts [OF False inv, of acts] assms by (auto simp: Let_def)
    then show ?thesis using out [of st'] False by (simp add: publishes_def Let_def del: upt_Suc)
  qed
qed

end

section \<open>The three publishers\<close>

text \<open>What a reader finds at an offset of the text: the bytes up to the first 0, if there is one.\<close>

definition cstring_at :: "byte list \<Rightarrow> nat \<Rightarrow> byte list cxx" where
  "cstring_at d off = (if 0 \<in> set (drop off d) then Ok (takeWhile (\<lambda>b. b \<noteq> 0) (drop off d)) else UB)"

lemma cstring_at_prefix:
  "drop off d = s @ 0 # rest \<Longrightarrow> 0 \<notin> set s \<Longrightarrow> cstring_at d off = Ok s"
  by (auto simp: cstring_at_def takeWhile_append)

text \<open>The end of the data, as \<open>on_data_available\<close> of the \<open>SharedMem\<close> subscriber logs it.\<close>

definition data_end :: "byte list \<Rightarrow> byte list cxx" where
  "data_end d = cstring_at d (size_sub (length d) 9)"

definition big_data :: "32 word \<Rightarrow> byte list" where
  "big_data k = bytes_of ''BigData'' @ to_string (unat (k mod 10))"

definition loan_text :: "32 word \<Rightarrow> byte list" where
  "loan_text k = bytes_of ''LoanableHelloWorld'' @ to_string (unat k)"

lemma to_string_nonzero: "0 \<notin> set (to_string n)"
proof (induction n rule: to_string.induct)
  case (1 n)
  then show ?case using digit_nonzero [of n] digit_nonzero [of "n mod 10"]
    by (cases "n < 10") (simp_all add: to_string.simps [of n])
qed

lemma mod_10_lt: "unat (k mod 10) < 10" for k :: "32 word"
  by (simp add: unat_mod)

lemma big_data_props: "length (big_data k) = 8" "0 \<notin> set (big_data k)"
proof -
  have "to_string (unat (k mod 10)) = [digit (unat (k mod 10))]"
    using mod_10_lt [of k] by (subst to_string.simps) simp
  then show "length (big_data k) = 8" by (simp add: big_data_def bytes_of_def)
  show "0 \<notin> set (big_data k)" using to_string_nonzero by (auto simp: big_data_def bytes_of_def)
qed

lemma loan_text_props: "length (loan_text k) \<le> 28" "0 \<notin> set (loan_text k)"
proof -
  have "unat k < 10 ^ Suc 9" by (rule order_less_trans [OF unsigned_less]) simp
  then have "length (to_string (unat k)) \<le> 10" using to_string_length [of "unat k" 9] by simp
  then show "length (loan_text k) \<le> 28" by (simp add: loan_text_def bytes_of_def)
  show "0 \<notin> set (loan_text k)" using to_string_nonzero by (auto simp: loan_text_def bytes_of_def)
qed

interpretation sharing: publishing sharing_on_publication_matched sharing_publish True "\<lambda>d. True" "\<lambda>k d. True" "\<lambda>k d. d"
  by unfold_locales
    (auto simp: sharing_on_publication_matched_def sharing_publish_def emit_def next_index_def write_hello_def Let_def)

definition big_data_buffer :: "byte list \<Rightarrow> bool" where
  "big_data_buffer d \<longleftrightarrow> 9 \<le> length d \<and> length d < 2 ^ 64"

definition shm_text :: "32 word \<Rightarrow> byte list \<Rightarrow> byte list" where
  "shm_text k d = take (length d - 9) d @ big_data k @ [0]"

lemma shm_strcpy:
  assumes "big_data_buffer d"
  shows "strcpy_at d (size_sub (size_sub (length d) (int (length (big_data k)))) 1) (big_data k) = Ok (shm_text k d)"
proof -
  have "size_sub (size_sub (length d) (int (length (big_data k)))) 1 = length d - 9"
    using assms size_sub_le [of 1 "length d - 8"] by (auto simp add: big_data_buffer_def big_data_props size_sub_le)
  moreover have "nat (int (length d) - 9) = length d - 9" by simp
  ultimately show ?thesis using assms
    by (simp add: strcpy_at_def memcpy_at_def shm_text_def big_data_buffer_def big_data_props)
qed

interpretation shm: publishing on_publication_matched shm_publish False big_data_buffer
    "\<lambda>k d. data_end d = Ok (big_data k)" shm_text
proof unfold_locales
  show "shm_publish w st = (if first_connected st \<or> \<not> w \<or> 0 < matched st then Ok (True, emit shm_text st) else Ok (False, st))"
    if "big_data_buffer (text_data (hello st))" for w st
    using shm_strcpy [OF that, of "sample_index (hello st) + 1"]
    by (simp add: shm_publish_def big_data_def next_index_def Let_def cxx_simps emit_def write_hello_def)
  show "big_data_buffer (shm_text k d) \<and> data_end (shm_text k d) = Ok (big_data k)" if "big_data_buffer d" for k d
  proof -
    have "length (shm_text k d) = length d" using that by (simp add: shm_text_def big_data_buffer_def big_data_props)
    moreover have "drop (length d - 9) (shm_text k d) = big_data k @ [0]" by (simp add: shm_text_def)
    ultimately show ?thesis using that big_data_props
      by (simp add: data_end_def big_data_buffer_def size_sub_le cstring_at_prefix)
  qed
qed (auto simp: on_publication_matched_def)

definition loan_data :: "32 word \<Rightarrow> byte list \<Rightarrow> byte list" where
  "loan_data k d = loan_text k @ 0 # drop (length (loan_text k) + 1) d"

interpretation loan: publishing on_publication_matched loan_publish False "\<lambda>d. length d = 256"
    "\<lambda>k d. cstring_at d 0 = Ok (loan_text k)" loan_data
proof unfold_locales
  show "loan_publish w st = (if first_connected st \<or> \<not> w \<or> 0 < matched st then Ok (True, emit loan_data st) else Ok (False, st))"
    if "length (text_data (hello st)) = 256" "first_connected st \<Longrightarrow> False" for w st
    using that loan_text_props [of "sample_index (hello st) + 1"]
    by (auto simp: loan_publish_def loan_text_def [symmetric] next_index_def Let_def cxx_simps emit_def write_hello_def
      memcpy_at_def loan_data_def)
  show "length (loan_data k d) = 256 \<and> cstring_at (loan_data k d) 0 = Ok (loan_text k)" if "length d = 256" for k d
    using that loan_text_props [of k] by (simp add: loan_data_def cstring_at_prefix)
qed (auto simp: on_publication_matched_def)

text \<open>
  C6: In every order of rounds of the publishing thread, readers that join and leave, and the user's Enter, the three
  publishers run without undefined behaviour and write the samples 1, 2, 3, ... without a gap.  With \<open>samples\<close> > 0
  nothing is written before the first reader has matched, then one sample a round, exactly \<open>samples\<close> in all, also
  after every reader has left; with 0, one a round until Enter.  The end of each sample's data, and the message of a
  loanable one, read back as the text of its index.
\<close>

theorem publishers_exact:
  "publishes (\<lambda>k d. True) samples acts (sharing_pub samples acts) \<and>
   publishes (\<lambda>k d. data_end d = Ok (bytes_of ''BigData'' @ to_string (unat (k mod 10)))) samples acts (shm_pub samples acts) \<and>
   publishes (\<lambda>k d. cstring_at d 0 = Ok (bytes_of ''LoanableHelloWorld'' @ to_string (unat k))) samples acts (loan_pub samples acts)"
proof (intro conjI)
  show "publishes (\<lambda>k d. True) samples acts (sharing_pub samples acts)"
    unfolding sharing_pub_def by (rule sharing.run_from_start) (simp_all add: pub_start_def)
  show "publishes (\<lambda>k d. data_end d = Ok (bytes_of ''BigData'' @ to_string (unat (k mod 10)))) samples acts (shm_pub samples acts)"
    unfolding shm_pub_def big_data_def [symmetric] by (rule shm.run_from_start) (simp_all add: pub_start_def big_data_buffer_def)
  show "publishes (\<lambda>k d. cstring_at d 0 = Ok (bytes_of ''LoanableHelloWorld'' @ to_string (unat k))) samples acts (loan_pub samples acts)"
    unfolding loan_pub_def loan_text_def [symmetric] by (rule loan.run_from_start) (simp_all add: pub_start_def bytes_of_def)
qed

section \<open>The interactive run\<close>

text \<open>
  \<open>HelloWorldPublisher::run()\<close> and \<open>LoanableHelloWorldPublisher::run()\<close>: poll \<open>matched\<close> until it is not 0 (\<open>None\<close>: still
  polling), then the \<open>do\<close> loop on the characters of \<open>cin\<close>, which skips white space.  The result is \<open>msgsent\<close>.
\<close>

fun prompt_loop :: "char \<Rightarrow> string \<Rightarrow> nat \<Rightarrow> nat" where
  "prompt_loop ch [] msgsent =
     (if ch = CHR ''y'' then msgsent + 1 else msgsent)"
| "prompt_loop ch (c # cin) msgsent =
     (if ch = CHR ''y'' then prompt_loop c cin (msgsent + 1)
      else if ch = CHR ''n'' then msgsent
      else prompt_loop c cin msgsent)"

definition hello_run :: "int list \<Rightarrow> string \<Rightarrow> nat option" where
  "hello_run polls inp =
     (if dropWhile (\<lambda>m. m = 0) polls = [] then None
      else Some (prompt_loop (CHR ''y'') (filter (\<lambda>c. \<not> is_space c) inp) 0))"

definition loan_run :: "int list \<Rightarrow> string \<Rightarrow> nat option" where
  "loan_run polls inp =
     (if dropWhile (\<lambda>m. m = 0) polls = [] then None
      else Some (prompt_loop (CHR ''y'') (filter (\<lambda>c. \<not> is_space c) inp) 0))"

lemma prompt_loop_counts:
  "prompt_loop ch inp n = n + count_list (takeWhile (\<lambda>c. c \<noteq> CHR ''n'') (ch # inp)) (CHR ''y'')"
  by (induction inp arbitrary: ch n) auto

lemma hello_run_sends:
  "hello_run polls inp = (if list_all (\<lambda>m. m = 0) polls then None
     else Some (1 + count_list (takeWhile (\<lambda>c. c \<noteq> CHR ''n'') (filter (\<lambda>c. \<not> is_space c) inp)) (CHR ''y'')))"
  by (auto simp add: hello_run_def prompt_loop_counts list_all_iff dropWhile_eq_Nil_conv)

end
