(* ===== verification/DdsSubscribe.thy ===== *)
theory DdsSubscribe
  imports DdsPublish "HOL-Library.Sublist"
begin

text \<open>
  The listeners of the subscribers of \<open>example/fastdds\<close> and their \<open>run(number)\<close>.  What \<open>take_next_sample\<close> and
  \<open>take\<close> return is an argument; the samples that have arrived and are not yet taken are the \<open>cache\<close> of the
  reader, from which they take in order.  The history of the readers is \<open>KEEP_LAST\<close>: a sample that arrives when
  the cache holds \<open>depth\<close> samples replaces the oldest.  Then the \<open>SharedMem\<close> publisher and subscriber together.
\<close>

section \<open>The listeners\<close>

record sample_info =
  valid_data :: bool
  alive :: bool

record subscriber =
  sub_matched :: int
  got :: "32 word"
  hello_in :: sample
  loans :: nat
  logged :: "(32 word \<times> byte list) list"
  cache :: "(sample_info \<times> sample) list"
  taken :: "(sample_info \<times> sample) list"
  replaced :: nat

definition on_subscription_matched :: "match_info \<Rightarrow> subscriber \<Rightarrow> subscriber" where
  "on_subscription_matched info st =
     (if current_count_change info = 1 then st\<lparr>sub_matched := total_count info\<rparr>
      else if current_count_change info = - 1 then st\<lparr>sub_matched := total_count info\<rparr>
      else st)"

definition hello_on_data_available :: "(sample_info \<times> sample) option \<Rightarrow> subscriber \<Rightarrow> subscriber cxx" where
  "hello_on_data_available r st = (case r of None \<Rightarrow> Ok st
     | Some (info, s) \<Rightarrow> if valid_data info then Ok (st\<lparr>got := got st + 1\<rparr>) else Ok st)"

definition sharing_on_data_available :: "(sample_info \<times> sample) option \<Rightarrow> subscriber \<Rightarrow> subscriber cxx" where
  "sharing_on_data_available r st = (case r of None \<Rightarrow> Ok st
     | Some (info, s) \<Rightarrow> let st = st\<lparr>hello_in := s\<rparr>
         in if alive info then Ok (st\<lparr>got := got st + 1\<rparr>) else Ok st)"

definition shm_on_data_available :: "(sample_info \<times> sample) option \<Rightarrow> subscriber \<Rightarrow> subscriber cxx" where
  "shm_on_data_available r st = (case r of None \<Rightarrow> Ok st
     | Some (info, s) \<Rightarrow> let st = st\<lparr>hello_in := s\<rparr>
         in if valid_data info then
              let st = st\<lparr>got := got st + 1\<rparr>
              in cxx_bind (data_end (text_data (hello_in st)))
                   (\<lambda>e. Ok (st\<lparr>logged := logged st @ [(sample_index (hello_in st), e)]\<rparr>))
            else Ok st)"

text \<open>
  The loop of the loanable subscriber; the first argument are the collections that \<open>take\<close> lends, until it
  returns something else than \<open>OK\<close>.
\<close>

fun loan_infos :: "(sample_info \<times> sample) list \<Rightarrow> subscriber \<Rightarrow> subscriber cxx" where
  "loan_infos [] st = Ok st"
| "loan_infos ((info, s) # is) st =
     (if valid_data info then
        let st = st\<lparr>got := got st + 1\<rparr>
        in cxx_bind (cstring_at (text_data s) 0) (\<lambda>t. loan_infos is (st\<lparr>logged := logged st @ [(sample_index s, t)]\<rparr>))
      else loan_infos is st)"

fun loan_on_data_available :: "(sample_info \<times> sample) list list \<Rightarrow> subscriber \<Rightarrow> subscriber cxx" where
  "loan_on_data_available [] st = Ok st"
| "loan_on_data_available (b # bs) st =
     cxx_bind (loan_infos b (st\<lparr>loans := loans st + 1\<rparr>))
       (\<lambda>st. loan_on_data_available bs (st\<lparr>loans := loans st - 1\<rparr>))"

text \<open>\<open>run(number)\<close>: the values of \<open>samples\<close> it sees, one in each poll; \<open>None\<close> while it is still waiting.\<close>

fun run_number :: "32 word \<Rightarrow> 32 word list \<Rightarrow> 32 word option" where
  "run_number number [] = None"
| "run_number number (s # polls) = (if number > s then run_number number polls else Some s)"

lemma run_number_returns: "run_number number polls = Some s \<Longrightarrow> number \<le> s \<and> s \<in> set polls"
  by (induction polls) (auto split: if_splits)

lemma run_number_waits: "run_number number polls = None \<longleftrightarrow> list_all (\<lambda>s. s < number) polls"
  by (induction polls) auto

section \<open>Arrivals and callbacks\<close>

text \<open>\<open>take\<close> may lend any number of samples, at least one; \<open>ks\<close> says how many less one.\<close>

fun batches :: "nat list \<Rightarrow> 'a list \<Rightarrow> 'a list list" where
  "batches ks [] = []"
| "batches [] xs = [xs]"
| "batches (k # ks) xs = take (Suc k) xs # batches ks (drop (Suc k) xs)"

lemma concat_batches: "concat (batches ks xs) = xs"
  by (induction ks xs rule: batches.induct) auto

datatype sub_action = Arrive sample_info sample | Available "nat list"

definition take_one :: "((sample_info \<times> sample) option \<Rightarrow> subscriber \<Rightarrow> subscriber cxx) \<Rightarrow> subscriber \<Rightarrow> subscriber cxx" where
  "take_one listener st = (case cache st of [] \<Rightarrow> listener None st
     | x # xs \<Rightarrow> listener (Some x) (st\<lparr>cache := xs, taken := taken st @ [x]\<rparr>))"

definition take_all :: "nat list \<Rightarrow> subscriber \<Rightarrow> subscriber cxx" where
  "take_all ks st = loan_on_data_available (batches ks (cache st)) (st\<lparr>cache := [], taken := taken st @ cache st\<rparr>)"

definition arrive :: "nat \<Rightarrow> sample_info \<times> sample \<Rightarrow> subscriber \<Rightarrow> subscriber" where
  "arrive depth x st =
     (if length (cache st) < depth then st\<lparr>cache := cache st @ [x]\<rparr>
      else st\<lparr>cache := drop 1 (cache st) @ [x], replaced := replaced st + 1\<rparr>)"

definition sub_exec :: "nat \<Rightarrow> (nat list \<Rightarrow> subscriber \<Rightarrow> subscriber cxx) \<Rightarrow> subscriber \<Rightarrow> sub_action \<Rightarrow> subscriber cxx" where
  "sub_exec depth available st a = (case a of
     Arrive info s \<Rightarrow> Ok (arrive depth (info, s) st)
   | Available ks \<Rightarrow> available ks st)"

definition sub_start :: subscriber where
  "sub_start = \<lparr>sub_matched = 0, got = 0, hello_in = \<lparr>sample_index = 0, text_data = replicate (1024 * 1024) 0\<rparr>,
     loans = 0, logged = [], cache = [], taken = [], replaced = 0\<rparr>"

text \<open>
  The depth of \<open>HelloWorldExample\<close> and \<open>DataSharing\<close> is that of the default reader QoS, an argument (1 in the
  standard); \<open>ZeroCopyExample\<close> asks for 10.
\<close>

definition hello_sub :: "nat \<Rightarrow> sub_action list \<Rightarrow> subscriber cxx" where
  "hello_sub depth = cxx_fold (sub_exec depth (\<lambda>ks. take_one hello_on_data_available)) sub_start"

definition sharing_sub :: "nat \<Rightarrow> sub_action list \<Rightarrow> subscriber cxx" where
  "sharing_sub depth = cxx_fold (sub_exec depth (\<lambda>ks. take_one sharing_on_data_available)) sub_start"

definition loan_depth :: nat where
  "loan_depth = 10"

definition loan_sub :: "sub_action list \<Rightarrow> subscriber cxx" where
  "loan_sub = cxx_fold (sub_exec loan_depth take_all) sub_start"

definition arrivals :: "sub_action list \<Rightarrow> (sample_info \<times> sample) list" where
  "arrivals acts = concat (map (\<lambda>a. case a of Arrive info s \<Rightarrow> [(info, s)] | Available ks \<Rightarrow> []) acts)"

lemma arrivals_simps [simp]:
  "arrivals [] = []" "arrivals (Arrive info s # acts) = (info, s) # arrivals acts"
  "arrivals (Available ks # acts) = arrivals acts" "arrivals (acts @ acts') = arrivals acts @ arrivals acts'"
  by (simp_all add: arrivals_def)

text \<open>Every arrival followed by a callback.\<close>

definition prompt :: "nat list \<Rightarrow> (sample_info \<times> sample) list \<Rightarrow> sub_action list" where
  "prompt ks xs = concat (map (\<lambda>(info, s). [Arrive info s, Available ks]) xs)"

text \<open>
  What a reader promises: the cache holds the last arrivals, at most \<open>depth\<close> of them; what was taken is, in order,
  a part of the arrivals before those, and the rest of them was replaced in the cache; \<open>samples\<close> counts
  the good ones taken.
\<close>

definition n_good :: "(sample_info \<Rightarrow> bool) \<Rightarrow> (sample_info \<times> sample) list \<Rightarrow> nat" where
  "n_good good xs = length (filter (\<lambda>(info, s). good info) xs)"

lemma n_good_simps [simp]:
  "n_good good [] = 0" "n_good good (x # xs) = (if good (fst x) then 1 else 0) + n_good good xs"
  "n_good good (xs @ ys) = n_good good xs + n_good good ys"
  by (auto simp: n_good_def split: prod.splits)

definition accounted ::
  "nat \<Rightarrow> (sample_info \<Rightarrow> bool) \<Rightarrow> (sample_info \<times> sample) list \<Rightarrow> subscriber \<Rightarrow> bool" where
  "accounted depth good arr st \<longleftrightarrow> length (cache st) \<le> depth \<and>
     (\<exists>before. arr = before @ cache st \<and> subseq (taken st) before \<and> length before = length (taken st) + replaced st) \<and>
     got st = of_nat (n_good good (taken st)) \<and> loans st = 0"

text \<open>A callback takes the first \<open>n\<close> samples of the cache and counts the good ones.\<close>

definition takes_some :: "nat \<Rightarrow> (sample_info \<Rightarrow> bool) \<Rightarrow> subscriber \<Rightarrow> subscriber \<Rightarrow> bool" where
  "takes_some n good st st' \<longleftrightarrow> cache st' = drop n (cache st) \<and> taken st' = taken st @ take n (cache st) \<and>
     got st' = got st + of_nat (n_good good (take n (cache st))) \<and> loans st' = loans st \<and> replaced st' = replaced st"

lemma takes_accounted:
  assumes "accounted depth good arr st" "takes_some n good st st'"
  shows "accounted depth good arr st'"
proof -
  obtain bef where b: "arr = bef @ cache st" "subseq (taken st) bef" "length bef = length (taken st) + replaced st"
    using assms(1) by (auto simp: accounted_def)
  have "arr = (bef @ take n (cache st)) @ cache st'" using b(1) assms(2) by (simp add: takes_some_def)
  moreover have "subseq (taken st') (bef @ take n (cache st))"
    using b(2) assms(2) by (simp add: takes_some_def list_emb_append_mono)
  ultimately have "\<exists>bef. arr = bef @ cache st' \<and> subseq (taken st') bef \<and> length bef = length (taken st') + replaced st'"
    using b(3) assms(2) by (intro exI [of _ "bef @ take n (cache st)"]) (simp add: takes_some_def)
  then show ?thesis using assms by (auto simp: accounted_def takes_some_def)
qed

lemma arrive_accounted:
  assumes "accounted depth good arr st" "0 < depth"
  shows "accounted depth good (arr @ [x]) (arrive depth x st)"
proof -
  obtain bef where b: "arr = bef @ cache st" "subseq (taken st) bef" "length bef = length (taken st) + replaced st"
    using assms(1) by (auto simp: accounted_def)
  show ?thesis
  proof (cases "length (cache st) < depth")
    case True
    then show ?thesis using assms b by (auto simp: accounted_def arrive_def)
  next
    case False
    then obtain y ys where y: "cache st = y # ys" using assms(2) by (cases "cache st") auto
    have "arr @ [x] = (bef @ [y]) @ cache (arrive depth x st)" using False b(1) y by (simp add: arrive_def)
    moreover have "subseq (taken st) (bef @ [y])" using b(2) by (rule list_emb_prefix)
    ultimately show ?thesis using False assms b(3) y by (auto simp: accounted_def arrive_def)
  qed
qed

locale reading =
  fixes available :: "nat list \<Rightarrow> subscriber \<Rightarrow> subscriber cxx"
    and amount :: "nat \<Rightarrow> nat"
    and good :: "sample_info \<Rightarrow> bool"
    and readable :: "sample_info \<times> sample \<Rightarrow> bool"
  assumes available_takes: "list_all readable (cache st) \<Longrightarrow>
      \<exists>st'. available ks st = Ok st' \<and> takes_some (amount (length (cache st))) good st st'"
    and amount_one: "amount 1 = 1"
begin

lemma readable_drop: "list_all readable xs \<Longrightarrow> list_all readable (drop n xs)"
  by (auto simp: list_all_iff dest: in_set_dropD)

lemma fold_accounted:
  assumes "0 < depth"
  shows "accounted depth good arr st \<Longrightarrow> list_all readable (cache st) \<Longrightarrow> list_all readable (arrivals acts) \<Longrightarrow>
     \<exists>st'. cxx_fold (sub_exec depth available) st acts = Ok st' \<and> accounted depth good (arr @ arrivals acts) st' \<and>
       list_all readable (cache st')"
proof (induction acts arbitrary: arr st)
  case (Cons a acts)
  show ?case
  proof (cases a)
    case (Arrive info s)
    let ?st = "arrive depth (info, s) st"
    have "list_all readable (cache ?st)"
      using Cons.prems(2,3) Arrive readable_drop [OF Cons.prems(2), of "Suc 0"] by (simp add: arrive_def)
    then show ?thesis
      using Cons.IH [OF arrive_accounted [OF Cons.prems(1) assms]] Cons.prems(3) Arrive by (simp add: sub_exec_def cxx_simps)
  next
    case (Available ks)
    obtain st1 where st1: "available ks st = Ok st1" "takes_some (amount (length (cache st))) good st st1"
      using available_takes [OF Cons.prems(2)] by blast
    then have "accounted depth good arr st1" "list_all readable (cache st1)"
      using takes_accounted [OF Cons.prems(1)] readable_drop [OF Cons.prems(2)] by (simp_all add: takes_some_def)
    then show ?thesis using Cons.IH [of arr st1] Cons.prems st1(1) Available by (simp add: sub_exec_def cxx_simps)
  qed
qed auto

lemma sub_accounted:
  assumes "0 < depth" "list_all readable (arrivals acts)"
  shows "\<exists>st st'. cxx_fold (sub_exec depth available) sub_start acts = Ok st \<and> accounted depth good (arrivals acts) st \<and>
     cxx_fold (sub_exec depth available) sub_start (acts @ [Available ks]) = Ok st' \<and>
     taken st' = taken st @ take (amount (length (cache st))) (cache st)"
proof -
  have "accounted depth good [] sub_start" by (simp add: accounted_def sub_start_def)
  from fold_accounted [OF assms(1) this _ assms(2)] obtain st where
    st: "cxx_fold (sub_exec depth available) sub_start acts = Ok st" "accounted depth good (arrivals acts) st"
      "list_all readable (cache st)" by (auto simp: sub_start_def)
  from available_takes [OF st(3), of ks] show ?thesis
    using st(1,2) by (auto simp: cxx_fold_append cxx_simps sub_exec_def takes_some_def)
qed

lemma prompt_takes:
  assumes "0 < depth" "list_all readable xs" "cache st = []"
  shows "\<exists>st'. cxx_fold (sub_exec depth available) st (prompt ks xs) = Ok st' \<and> cache st' = [] \<and> taken st' = taken st @ xs \<and>
     replaced st' = replaced st"
  using assms(2,3)
proof (induction xs arbitrary: st)
  case (Cons x xs)
  let ?st = "arrive depth x st"
  have c: "cache ?st = [x]" "taken ?st = taken st" "replaced ?st = replaced st"
    using Cons.prems(2) assms(1) by (simp_all add: arrive_def)
  obtain st1 where st1: "available ks ?st = Ok st1" "takes_some 1 good ?st st1"
    using available_takes [of ?st ks] Cons.prems(1) c(1) amount_one by auto
  then show ?case
    using Cons.IH [of st1] Cons.prems c by (cases x) (auto simp: prompt_def sub_exec_def cxx_simps takes_some_def)
qed (simp add: prompt_def)

lemma prompt_all:
  assumes "0 < depth" "list_all readable xs"
  shows "\<exists>st. cxx_fold (sub_exec depth available) sub_start (prompt ks xs) = Ok st \<and> taken st = xs"
  using prompt_takes [OF assms, of sub_start ks] by (auto simp: sub_start_def)

end

interpretation hello_reads: reading "\<lambda>ks. take_one hello_on_data_available" "min 1" valid_data "\<lambda>x. True"
  by unfold_locales (auto simp: take_one_def hello_on_data_available_def takes_some_def split: list.split)

interpretation sharing_reads: reading "\<lambda>ks. take_one sharing_on_data_available" "min 1" alive "\<lambda>x. True"
  by unfold_locales (auto simp: take_one_def sharing_on_data_available_def takes_some_def Let_def split: list.split)

definition shm_readable :: "sample_info \<times> sample \<Rightarrow> bool" where
  "shm_readable x \<longleftrightarrow> (\<exists>e. data_end (text_data (snd x)) = Ok e)"

interpretation shm_reads: reading "\<lambda>ks. take_one shm_on_data_available" "min 1" valid_data shm_readable
  by unfold_locales
    (auto simp: take_one_def shm_on_data_available_def takes_some_def Let_def shm_readable_def cxx_simps split: list.split)

text \<open>A text that a 0 ends.\<close>

definition loan_readable :: "sample_info \<times> sample \<Rightarrow> bool" where
  "loan_readable x \<longleftrightarrow> 0 \<in> set (text_data (snd x))"

lemma loan_infos_ok:
  "list_all loan_readable is \<Longrightarrow> \<exists>ls. loan_infos is st =
     Ok (st\<lparr>got := got st + of_nat (n_good valid_data is), logged := logged st @ ls\<rparr>)"
proof (induction "is" arbitrary: st)
  case (Cons x "is")
  show ?case
  proof (cases "valid_data (fst x)")
    case True
    obtain t where t: "cstring_at (text_data (snd x)) 0 = Ok t"
      using Cons.prems by (auto simp: cstring_at_def loan_readable_def)
    let ?st = "st\<lparr>got := got st + 1, logged := logged st @ [(sample_index (snd x), t)]\<rparr>"
    obtain ls where "loan_infos is ?st = Ok (?st\<lparr>got := got ?st + of_nat (n_good valid_data is), logged := logged ?st @ ls\<rparr>)"
      using Cons.IH [of ?st] Cons.prems by auto
    then show ?thesis using True t by (cases x) (auto simp: cxx_simps Let_def algebra_simps)
  next
    case False
    then show ?thesis using Cons.IH [of st] Cons.prems by (cases x) auto
  qed
qed (auto intro: exI [of _ "[]"])

lemma loan_batches_ok:
  "list_all loan_readable (concat bs) \<Longrightarrow> \<exists>ls. loan_on_data_available bs st =
     Ok (st\<lparr>got := got st + of_nat (n_good valid_data (concat bs)), logged := logged st @ ls\<rparr>)"
proof (induction bs arbitrary: st)
  case (Cons b bs)
  let ?st = "st\<lparr>loans := loans st + 1\<rparr>"
  obtain ls where ls: "loan_infos b ?st = Ok (?st\<lparr>got := got st + of_nat (n_good valid_data b), logged := logged st @ ls\<rparr>)"
    using loan_infos_ok [of b ?st] Cons.prems by auto
  let ?st' = "st\<lparr>got := got st + of_nat (n_good valid_data b), logged := logged st @ ls\<rparr>"
  obtain ls' where "loan_on_data_available bs ?st' =
      Ok (?st'\<lparr>got := got ?st' + of_nat (n_good valid_data (concat bs)), logged := logged ?st' @ ls'\<rparr>)"
    using Cons.IH [of ?st'] Cons.prems by auto
  then show ?case using ls by (auto simp: cxx_simps algebra_simps)
qed (auto intro: exI [of _ "[]"])

lemma take_all_ok:
  assumes "list_all loan_readable (cache st)"
  shows "\<exists>ls. take_all ks st = Ok (st\<lparr>cache := [], taken := taken st @ cache st,
     got := got st + of_nat (n_good valid_data (cache st)), logged := logged st @ ls\<rparr>)"
  using loan_batches_ok [of "batches ks (cache st)" "st\<lparr>cache := [], taken := taken st @ cache st\<rparr>"] assms
  by (auto simp: take_all_def concat_batches)

interpretation loan_reads: reading take_all "\<lambda>n. n" valid_data loan_readable
proof unfold_locales
  show "\<exists>st'. take_all ks st = Ok st' \<and> takes_some (length (cache st)) valid_data st st'"
    if "list_all loan_readable (cache st)" for st ks
    using take_all_ok [OF that, of ks] by (auto simp: takes_some_def)
qed simp

text \<open>
  C9: Whatever arrives and however the callbacks of the readers are coalesced, for every depth of the history of at
  least 1 and texts that a 0 ends: the samples taken are in the order of arrival and each arrival is taken once,
  or waits among the last \<open>depth\<close>, or was replaced in the full cache; \<open>samples\<close> is the number of good samples taken,
  and every loan has been returned.  A callback of \<open>HelloWorldExample\<close> and of \<open>DataSharing\<close> takes one sample of those
  waiting, one of \<open>ZeroCopyExample\<close> takes all.  When a callback follows every arrival, all three take everything.
\<close>

theorem readers_account:
  assumes "0 < depth" "list_all loan_readable (arrivals acts)" "list_all loan_readable xs"
  shows "(\<exists>st st'. hello_sub depth acts = Ok st \<and> accounted depth valid_data (arrivals acts) st \<and>
            hello_sub depth (acts @ [Available ks]) = Ok st' \<and> taken st' = taken st @ take 1 (cache st)) \<and>
    (\<exists>st st'. sharing_sub depth acts = Ok st \<and> accounted depth alive (arrivals acts) st \<and>
            sharing_sub depth (acts @ [Available ks]) = Ok st' \<and> taken st' = taken st @ take 1 (cache st)) \<and>
    (\<exists>st st'. loan_sub acts = Ok st \<and> accounted loan_depth valid_data (arrivals acts) st \<and>
            loan_sub (acts @ [Available ks]) = Ok st' \<and> taken st' = taken st @ cache st) \<and>
    (\<exists>st. hello_sub depth (prompt ks xs) = Ok st \<and> taken st = xs) \<and>
    (\<exists>st. sharing_sub depth (prompt ks xs) = Ok st \<and> taken st = xs) \<and>
    (\<exists>st. loan_sub (prompt ks xs) = Ok st \<and> taken st = xs)"
proof -
  have one: "take (min 1 (length c)) c = take 1 c" for c :: "(sample_info \<times> sample) list" by (cases c) auto
  have any: "list_all (\<lambda>x. True) ys" for ys :: "(sample_info \<times> sample) list" by (simp add: list_all_iff)
  have d: "0 < loan_depth" by (simp add: loan_depth_def)
  show ?thesis
    using hello_reads.sub_accounted [OF assms(1) any, of acts ks] sharing_reads.sub_accounted [OF assms(1) any, of acts ks]
      loan_reads.sub_accounted [OF d assms(2), of ks] hello_reads.prompt_all [OF assms(1) any, of ks xs]
      sharing_reads.prompt_all [OF assms(1) any, of ks xs] loan_reads.prompt_all [OF d assms(3), of ks]
    unfolding hello_sub_def sharing_sub_def loan_sub_def one by (intro conjI) (simp only: take_all order_refl)+
qed

definition loan_example :: sample where
  "loan_example = \<lparr>sample_index = 5, text_data = [72, 105, 0]\<rparr>"

definition good_info :: sample_info where
  "good_info = \<lparr>valid_data = True, alive = True\<rparr>"

lemma readers_account_witness:
  "\<exists>st st'. hello_sub 1 [Arrive good_info loan_example, Arrive good_info loan_example] = Ok st \<and>
     accounted 1 valid_data [(good_info, loan_example), (good_info, loan_example)] st \<and>
     hello_sub 1 ([Arrive good_info loan_example, Arrive good_info loan_example] @ [Available [0]]) = Ok st' \<and>
     taken st' = taken st @ take 1 (cache st)"
proof -
  let ?acts = "[Arrive good_info loan_example, Arrive good_info loan_example]"
  have r: "list_all loan_readable (arrivals ?acts)" by (simp add: loan_readable_def loan_example_def)
  from conjunct1 [OF readers_account [of 1, OF _ r, of "[]" "[0]"]] show ?thesis by simp
qed

section \<open>SharedMem: publisher and subscriber together\<close>

text \<open>
  The middleware delivers copies of written samples, any of them, any number of times (\<open>Deliver j\<close>: the
  \<open>j\<close>-th written so far), and the other actions are those of the two sides.
\<close>

record shm_system =
  pub_side :: publisher
  sub_side :: subscriber

datatype shm_action = PubDoes pub_action | Deliver nat | SubAvailable

definition shm_exec :: "32 word \<Rightarrow> shm_system \<Rightarrow> shm_action \<Rightarrow> shm_system cxx" where
  "shm_exec samples sys a = (case a of
     PubDoes p \<Rightarrow> cxx_bind (pub_exec on_publication_matched shm_publish samples p (pub_side sys))
       (\<lambda>st. Ok (sys\<lparr>pub_side := st\<rparr>))
   | Deliver j \<Rightarrow> if j < length (written (pub_side sys))
       then Ok (sys\<lparr>sub_side := (sub_side sys)\<lparr>cache := cache (sub_side sys) @
              [(\<lparr>valid_data = True, alive = True\<rparr>, written (pub_side sys) ! j)]\<rparr>\<rparr>)
       else Ok sys
   | SubAvailable \<Rightarrow> cxx_bind (take_one shm_on_data_available (sub_side sys)) (\<lambda>st. Ok (sys\<lparr>sub_side := st\<rparr>)))"

definition shm_run :: "32 word \<Rightarrow> shm_action list \<Rightarrow> shm_system cxx" where
  "shm_run samples = cxx_fold (shm_exec samples) \<lparr>pub_side = pub_start (1024 * 1024), sub_side = sub_start\<rparr>"

definition carries_index :: "sample \<Rightarrow> bool" where
  "carries_index s \<longleftrightarrow> data_end (text_data s) = Ok (big_data (sample_index s))"

definition shm_inv :: "32 word \<Rightarrow> shm_system \<Rightarrow> bool" where
  "shm_inv samples sys \<longleftrightarrow> shm.pub_inv samples (pub_side sys) \<and>
     list_all (\<lambda>(info, s). valid_data info \<and> carries_index s) (cache (sub_side sys)) \<and>
     list_all (\<lambda>(k, t). t = big_data k) (logged (sub_side sys)) \<and>
     got (sub_side sys) = of_nat (length (logged (sub_side sys)))"

lemma shm_exec_inv: "shm_inv samples sys \<Longrightarrow> \<exists>sys'. shm_exec samples sys a = Ok sys' \<and> shm_inv samples sys'"
proof (cases a)
  case (PubDoes p)
  assume inv: "shm_inv samples sys"
  then obtain st where "pub_exec on_publication_matched shm_publish samples p (pub_side sys) = Ok st" "shm.pub_inv samples st"
    using shm.exec_inv [of samples "pub_side sys" p] by (auto simp: shm_inv_def)
  then show ?thesis using inv PubDoes by (simp add: shm_exec_def cxx_simps shm_inv_def)
next
  case (Deliver j)
  assume "shm_inv samples sys"
  then show ?thesis using Deliver
    by (auto simp: shm_exec_def shm_inv_def shm.pub_inv_def list_all_length carries_index_def nth_append)
next
  case SubAvailable
  assume "shm_inv samples sys"
  then show ?thesis using SubAvailable
    by (cases "cache (sub_side sys)")
      (auto simp: shm_exec_def shm_inv_def take_one_def shm_on_data_available_def cxx_simps Let_def carries_index_def)
qed

text \<open>
  C7: In every interleaving of the two sides of \<open>SharedMem\<close>, whatever the middleware drops, repeats or reorders,
  neither side leaves its buffers, each logged sample shows the end of data that belongs to its index, and
  \<open>samples\<close> counts the logged samples.
\<close>

theorem shm_end_to_end:
  "\<exists>sys. shm_run samples acts = Ok sys \<and>
     list_all (\<lambda>(k, t). t = bytes_of ''BigData'' @ to_string (unat (k mod 10))) (logged (sub_side sys)) \<and>
     got (sub_side sys) = of_nat (length (logged (sub_side sys)))"
proof -
  have "shm_inv samples \<lparr>pub_side = pub_start (1024 * 1024), sub_side = sub_start\<rparr>"
    by (simp add: shm_inv_def shm.pub_inv_def count_ok_def numbered_def pub_start_def sub_start_def big_data_buffer_def)
  moreover have "shm_inv samples sys \<Longrightarrow> \<exists>sys'. cxx_fold (shm_exec samples) sys acts = Ok sys' \<and> shm_inv samples sys'" for sys
  proof (induction acts arbitrary: sys)
    case (Cons a acts)
    then show ?case using shm_exec_inv [OF Cons.prems, of a] by (auto simp: cxx_simps)
  qed simp
  ultimately obtain sys where "shm_run samples acts = Ok sys" "shm_inv samples sys" unfolding shm_run_def by blast
  then show ?thesis by (auto simp: shm_inv_def big_data_def)
qed

end
