(* ===== verification/MqNotify.thy ===== *)
theory MqNotify
  imports Prelude
begin

text \<open>
  Notification of a Posix message queue, \<open>example/unix_network/example/pxmsgque\<close>: \<open>mqnotifysig1\<close> to
  \<open>mqnotifysig5\<close> and \<open>mqnotifythread1\<close>.  The queue follows \<open>mq_notify\<close> of Posix: a message that arrives
  in an empty queue uses up the registration and raises \<open>SIGUSR1\<close> (or starts a thread); \<open>mq_notify\<close> while
  registered fails with \<open>EBUSY\<close>, which the wrapper \<open>Mq_notify\<close> turns into the end of the program.
\<close>

section \<open>State\<close>

text \<open>Where a program is: before its first \<open>Mq_notify\<close>, in its loop, before \<open>Mq_notify\<close>, before \<open>mq_receive\<close>.\<close>

datatype mq_pc = Starting | LoopHead | Waiting | ToNotify | ToReceive | Quit

datatype mq_prog = Sig1 | Sig2 | Sig3 | Sig4 | Sig5

record mq_state =
  msgs :: "nat list"
  registered :: bool
  pending :: bool
  mqflag :: bool
  pipe_bytes :: nat
  mq_at :: mq_pc
  sent :: "nat list"
  got_msgs :: "nat list"

definition mq_start :: "nat list \<Rightarrow> mq_state" where
  "mq_start ms = \<lparr>msgs = ms, registered = False, pending = False, mqflag = False, pipe_bytes = 0,
     mq_at = Starting, sent = ms, got_msgs = []\<rparr>"

definition mq_send :: "nat \<Rightarrow> mq_state \<Rightarrow> mq_state" where
  "mq_send m st =
     (if msgs st = [] \<and> registered st then st\<lparr>msgs := [m], sent := sent st @ [m], registered := False, pending := True\<rparr>
      else st\<lparr>msgs := msgs st @ [m], sent := sent st @ [m]\<rparr>)"

definition Mq_notify :: "mq_pc \<Rightarrow> mq_state \<Rightarrow> mq_state" where
  "Mq_notify then_at st = (if registered st then st\<lparr>mq_at := Quit\<rparr> else st\<lparr>registered := True, mq_at := then_at\<rparr>)"

text \<open>\<open>mq_receive\<close> of the oldest message; \<open>None\<close> on an empty queue (blocks, or \<open>EAGAIN\<close> with \<open>O_NONBLOCK\<close>).\<close>

definition mq_receive :: "mq_state \<Rightarrow> mq_state option" where
  "mq_receive st = (case msgs st of [] \<Rightarrow> None | m # ms \<Rightarrow> Some (st\<lparr>msgs := ms, got_msgs := got_msgs st @ [m]\<rparr>))"

section \<open>The programs\<close>

text \<open>
  \<open>sig_usr1\<close>: in \<open>Sig1\<close> the handler does the work, with the signal blocked until it returns (\<open>Waiting\<close> is
  \<open>pause\<close>); in \<open>Sig2\<close> and \<open>Sig3\<close> it sets the flag, and the signal is blocked except in \<open>sigsuspend\<close>
  (\<open>Waiting\<close>) and at the head of the loop; in \<open>Sig5\<close> it writes a byte into the pipe, at any point; \<open>Sig4\<close>
  has no handler, the signal stays pending until \<open>sigwait\<close>.
\<close>

definition take_signal :: "mq_prog \<Rightarrow> mq_state \<Rightarrow> mq_state option" where
  "take_signal prog st =
     (if \<not> pending st \<or> mq_at st = Quit then None
      else case prog of
        Sig1 \<Rightarrow> if mq_at st = Waiting then Some (st\<lparr>pending := False, mq_at := ToNotify\<rparr>) else None
      | Sig2 \<Rightarrow> if mq_at st \<in> {LoopHead, Waiting} then Some (st\<lparr>pending := False, mqflag := True\<rparr>) else None
      | Sig3 \<Rightarrow> if mq_at st \<in> {LoopHead, Waiting} then Some (st\<lparr>pending := False, mqflag := True\<rparr>) else None
      | Sig4 \<Rightarrow> None
      | Sig5 \<Rightarrow> Some (st\<lparr>pending := False, pipe_bytes := pipe_bytes st + 1\<rparr>))"

definition after_start :: "mq_prog \<Rightarrow> mq_pc" where
  "after_start prog = (case prog of Sig1 \<Rightarrow> Waiting | Sig2 \<Rightarrow> LoopHead | Sig3 \<Rightarrow> LoopHead | Sig4 \<Rightarrow> Waiting | Sig5 \<Rightarrow> Waiting)"

definition mq_wait :: "mq_prog \<Rightarrow> mq_state \<Rightarrow> mq_state option" where
  "mq_wait prog st = (case prog of
     Sig1 \<Rightarrow> None
   | Sig2 \<Rightarrow> if mqflag st then Some (st\<lparr>mqflag := False, mq_at := ToNotify\<rparr>) else None
   | Sig3 \<Rightarrow> if mqflag st then Some (st\<lparr>mqflag := False, mq_at := ToNotify\<rparr>) else None
   | Sig4 \<Rightarrow> if pending st then Some (st\<lparr>pending := False, mq_at := ToNotify\<rparr>) else None
   | Sig5 \<Rightarrow> if pipe_bytes st > 0 then Some (st\<lparr>pipe_bytes := pipe_bytes st - 1, mq_at := ToNotify\<rparr>) else None)"

text \<open>\<open>Sig1\<close> and \<open>Sig2\<close> receive one message and may block; the others receive until \<open>EAGAIN\<close>.\<close>

definition mq_read :: "mq_prog \<Rightarrow> mq_state \<Rightarrow> mq_state option" where
  "mq_read prog st = (case prog of
     Sig1 \<Rightarrow> map_option (mq_at_update (\<lambda>_. Waiting)) (mq_receive st)
   | Sig2 \<Rightarrow> map_option (mq_at_update (\<lambda>_. LoopHead)) (mq_receive st)
   | Sig3 \<Rightarrow> (case mq_receive st of None \<Rightarrow> Some (st\<lparr>mq_at := LoopHead\<rparr>) | Some st' \<Rightarrow> Some st')
   | Sig4 \<Rightarrow> (case mq_receive st of None \<Rightarrow> Some (st\<lparr>mq_at := Waiting\<rparr>) | Some st' \<Rightarrow> Some st')
   | Sig5 \<Rightarrow> (case mq_receive st of None \<Rightarrow> Some (st\<lparr>mq_at := Waiting\<rparr>) | Some st' \<Rightarrow> Some st'))"

definition mq_run_step :: "mq_prog \<Rightarrow> mq_state \<Rightarrow> mq_state option" where
  "mq_run_step prog st = (case mq_at st of
     Starting \<Rightarrow> Some (Mq_notify (after_start prog) st)
   | LoopHead \<Rightarrow> Some (st\<lparr>mq_at := Waiting\<rparr>)
   | Waiting \<Rightarrow> mq_wait prog st
   | ToNotify \<Rightarrow> Some (Mq_notify ToReceive st)
   | ToReceive \<Rightarrow> mq_read prog st
   | Quit \<Rightarrow> None)"

inductive mq_own_step :: "mq_prog \<Rightarrow> mq_state \<Rightarrow> mq_state \<Rightarrow> bool" for prog where
  signal_step: "take_signal prog st = Some st' \<Longrightarrow> mq_own_step prog st st'"
| program_step: "mq_run_step prog st = Some st' \<Longrightarrow> mq_own_step prog st st'"

inductive mq_step :: "mq_prog \<Rightarrow> mq_state \<Rightarrow> mq_state \<Rightarrow> bool" for prog where
  own: "mq_own_step prog st st' \<Longrightarrow> mq_step prog st st'"
| send: "mq_step prog st (mq_send m st)"

inductive_cases own_stepE: "mq_own_step prog st st'"
inductive_cases mq_stepE: "mq_step prog st st'"

section \<open>Where the notification is\<close>

text \<open>
  After the start there is exactly one of: a registration, a pending signal, the flag, a byte in the pipe, a
  program on its way to \<open>Mq_notify\<close>.  While it is not a registration and in the state in which the program
  reads, the queue may hold messages.
\<close>

definition one_token :: "mq_state \<Rightarrow> bool" where
  "one_token st \<longleftrightarrow>
     of_bool (registered st) + of_bool (pending st) + of_bool (mqflag st) + pipe_bytes st +
     of_bool (mq_at st = Starting) + of_bool (mq_at st = ToNotify) = (1::nat)"

definition mq_inv :: "mq_prog \<Rightarrow> mq_state \<Rightarrow> bool" where
  "mq_inv prog st \<longleftrightarrow> one_token st \<and> sent st = got_msgs st @ msgs st \<and> mq_at st \<noteq> Quit \<and>
     (prog \<noteq> Sig2 \<and> prog \<noteq> Sig3 \<longrightarrow> \<not> mqflag st \<and> mq_at st \<noteq> LoopHead) \<and> (prog \<noteq> Sig5 \<longrightarrow> pipe_bytes st = 0)"

lemmas mq_defs = mq_send_def Mq_notify_def mq_receive_def take_signal_def mq_wait_def mq_read_def mq_run_step_def after_start_def

text \<open>The steps, one by one.\<close>

lemma take_signal_Some:
  "take_signal prog st = Some st' \<longleftrightarrow> pending st \<and>
     (prog = Sig1 \<and> mq_at st = Waiting \<and> st' = st\<lparr>pending := False, mq_at := ToNotify\<rparr> \<or>
      prog \<in> {Sig2, Sig3} \<and> mq_at st \<in> {LoopHead, Waiting} \<and> st' = st\<lparr>pending := False, mqflag := True\<rparr> \<or>
      prog = Sig5 \<and> mq_at st \<noteq> Quit \<and> st' = st\<lparr>pending := False, pipe_bytes := pipe_bytes st + 1\<rparr>)"
  by (cases prog; simp add: take_signal_def; blast)

lemma mq_wait_Some:
  "mq_wait prog st = Some st' \<longleftrightarrow>
     prog \<in> {Sig2, Sig3} \<and> mqflag st \<and> st' = st\<lparr>mqflag := False, mq_at := ToNotify\<rparr> \<or>
     prog = Sig4 \<and> pending st \<and> st' = st\<lparr>pending := False, mq_at := ToNotify\<rparr> \<or>
     prog = Sig5 \<and> 0 < pipe_bytes st \<and> st' = st\<lparr>pipe_bytes := pipe_bytes st - 1, mq_at := ToNotify\<rparr>"
  by (cases prog) (auto simp: mq_wait_def)

definition after_read :: "mq_prog \<Rightarrow> mq_pc" where
  "after_read prog = (case prog of Sig1 \<Rightarrow> Waiting | Sig2 \<Rightarrow> LoopHead | Sig3 \<Rightarrow> LoopHead | Sig4 \<Rightarrow> Waiting | Sig5 \<Rightarrow> Waiting)"

lemma mq_read_Some:
  "mq_read prog st = Some st' \<longleftrightarrow>
     (\<exists>m ms. msgs st = m # ms \<and> prog \<in> {Sig1, Sig2} \<and>
        st' = st\<lparr>msgs := ms, got_msgs := got_msgs st @ [m], mq_at := after_read prog\<rparr>) \<or>
     (\<exists>m ms. msgs st = m # ms \<and> prog \<notin> {Sig1, Sig2} \<and> st' = st\<lparr>msgs := ms, got_msgs := got_msgs st @ [m]\<rparr>) \<or>
     msgs st = [] \<and> prog \<notin> {Sig1, Sig2} \<and> st' = st\<lparr>mq_at := after_read prog\<rparr>"
  by (cases prog; cases "msgs st") (auto simp: mq_read_def mq_receive_def after_read_def)

lemmas step_Some = take_signal_Some mq_wait_Some mq_read_Some mq_run_step_def Mq_notify_def

lemma signal_inv: "take_signal prog st = Some st' \<Longrightarrow> mq_inv prog st \<Longrightarrow> mq_inv prog st'"
  unfolding take_signal_Some by (elim conjE disjE) (simp_all add: mq_inv_def one_token_def)

lemma run_inv: "mq_run_step prog st = Some st' \<Longrightarrow> mq_inv prog st \<Longrightarrow> mq_inv prog st'"
proof (cases "mq_at st")
  case Waiting
  assume "mq_run_step prog st = Some st'" "mq_inv prog st"
  then show ?thesis using Waiting by (auto simp: mq_run_step_def mq_wait_Some mq_inv_def one_token_def)
next
  case ToReceive
  assume "mq_run_step prog st = Some st'" "mq_inv prog st"
  then show ?thesis using ToReceive
    by (auto simp: mq_run_step_def mq_read_Some mq_inv_def one_token_def after_read_def split: mq_prog.splits)
qed (auto simp: mq_run_step_def Mq_notify_def mq_inv_def one_token_def after_start_def split: mq_prog.splits if_splits)

lemma own_step_inv: "mq_own_step prog st st' \<Longrightarrow> mq_inv prog st \<Longrightarrow> mq_inv prog st'"
  by (erule own_stepE) (auto intro: signal_inv run_inv)

lemma mq_step_inv: "mq_step prog st st' \<Longrightarrow> mq_inv prog st \<Longrightarrow> mq_inv prog st'"
proof (erule mq_stepE)
  fix m assume "mq_inv prog st" "st' = mq_send m st"
  then show "mq_inv prog st'" by (auto simp: mq_inv_def one_token_def mq_send_def)
qed (rule own_step_inv)

lemma mq_start_inv: "mq_inv prog (mq_start ms)"
  by (simp add: mq_inv_def one_token_def mq_start_def)

interpretation mq: step_invariant "\<lambda>st. st = mq_start ms" "mq_step prog" "mq_inv prog" for ms prog
  by unfold_locales (simp_all add: mq_start_inv mq_step_inv)

section \<open>The programs that read until the queue is empty\<close>

text \<open>A program that has registered on an empty queue.\<close>

definition mq_ready :: "mq_prog \<Rightarrow> mq_state" where
  "mq_ready prog = Mq_notify (after_start prog) (mq_start [])"

lemma mq_ready_reachable: "reachable (\<lambda>st. st = mq_start []) (mq_step prog) (mq_ready prog)"
proof -
  have "mq_run_step prog (mq_start []) = Some (mq_ready prog)" by (simp add: mq_run_step_def mq_ready_def mq_start_def)
  then have "mq_step prog (mq_start []) (mq_ready prog)" by (intro own program_step)
  then show ?thesis by (blast intro: reach_init reach_step)
qed

text \<open>Every message is on its way to be read: only an empty queue waits for a notification.\<close>

definition noticed :: "mq_prog \<Rightarrow> mq_state \<Rightarrow> bool" where
  "noticed prog st \<longleftrightarrow> mq_inv prog st \<and> mq_at st \<noteq> Starting \<and> (registered st \<and> mq_at st \<noteq> ToReceive \<longrightarrow> msgs st = [])"

lemma own_step_noticed:
  assumes "prog \<in> {Sig3, Sig4, Sig5}" "mq_own_step prog st st'" "noticed prog st"
  shows "noticed prog st'"
proof -
  have inv: "mq_inv prog st'" using own_step_inv [OF assms(2)] assms(3) by (simp add: noticed_def)
  have "mq_at st' \<noteq> Starting \<and> (registered st' \<and> mq_at st' \<noteq> ToReceive \<longrightarrow> msgs st' = [])"
    using assms(2)
  proof (rule own_stepE)
    assume "take_signal prog st = Some st'"
    then show ?thesis using assms(1,3) by (auto simp: take_signal_Some noticed_def mq_inv_def one_token_def)
  next
    assume "mq_run_step prog st = Some st'"
    then show ?thesis using assms(1,3) inv
      by (cases "mq_at st") (auto simp: step_Some noticed_def mq_inv_def one_token_def split: if_splits)
  qed
  with inv show ?thesis by (simp add: noticed_def)
qed

lemma mq_step_noticed: "prog \<in> {Sig3, Sig4, Sig5} \<Longrightarrow> mq_step prog st st' \<Longrightarrow> noticed prog st \<Longrightarrow> noticed prog st'"
proof (erule mq_stepE)
  fix m assume "noticed prog st" "st' = mq_send m st"
  then show "noticed prog st'" using mq_step_inv [OF send, of prog st m] by (auto simp: noticed_def mq_send_def)
qed (rule own_step_noticed)

lemma ready_noticed: "noticed prog (mq_ready prog)"
  using mq.reachable_inv [OF mq_ready_reachable] by (simp add: noticed_def mq_ready_def Mq_notify_def mq_start_def after_start_def split: mq_prog.split)

text \<open>How many steps of its own a program can still make before it waits.\<close>

definition mq_left :: "mq_state \<Rightarrow> nat" where
  "mq_left st = length (msgs st) + (if pending st then 6 else 0) + (if mqflag st then 5 else 0) + 5 * pipe_bytes st +
     (case mq_at st of Starting \<Rightarrow> 5 | ToNotify \<Rightarrow> 4 | ToReceive \<Rightarrow> 3 | LoopHead \<Rightarrow> 1 | Waiting \<Rightarrow> 0 | Quit \<Rightarrow> 0)"

lemma own_step_left: "mq_own_step prog st st' \<Longrightarrow> mq_left st' < mq_left st"
proof (erule own_stepE)
  assume "take_signal prog st = Some st'"
  then show ?thesis by (auto simp: take_signal_Some mq_left_def)
next
  assume "mq_run_step prog st = Some st'"
  then show ?thesis
    by (cases "mq_at st")
      (auto simp: step_Some mq_left_def after_start_def after_read_def split: if_splits mq_prog.split)
qed

lemma reads_on: "prog \<in> {Sig3, Sig4, Sig5} \<Longrightarrow> mq_at st = ToReceive \<Longrightarrow> \<exists>st'. mq_own_step prog st st'"
  by (cases "msgs st") (auto simp: mq_own_step.simps mq_run_step_def mq_read_def mq_receive_def)

lemma noticed_waits:
  assumes "noticed prog st" "\<And>st'. \<not> mq_own_step prog st st'" "prog \<in> {Sig3, Sig4, Sig5}"
  shows "msgs st = []"
proof -
  have "mq_at st \<noteq> ToReceive" using reads_on [OF assms(3)] assms(2) by blast
  moreover have "mq_run_step prog st = None" "take_signal prog st = None"
    using assms(2) by (meson mq_own_step.intros not_None_eq)+
  ultimately show ?thesis using assms(1,3)
    by (cases "mq_at st") (auto simp: noticed_def mq_inv_def one_token_def mq_run_step_def mq_wait_def take_signal_def split: if_splits)
qed

text \<open>Left to itself, in every order of its steps, the program comes to a stop, and has then read everything.\<close>

inductive always_drains :: "mq_prog \<Rightarrow> mq_state \<Rightarrow> bool" for prog where
  drains: "(\<And>st'. mq_own_step prog st st' \<Longrightarrow> always_drains prog st') \<Longrightarrow>
    (\<exists>st'. mq_own_step prog st st') \<or> msgs st = [] \<Longrightarrow> always_drains prog st"

lemma noticed_drains: "noticed prog st \<Longrightarrow> prog \<in> {Sig3, Sig4, Sig5} \<Longrightarrow> always_drains prog st"
proof (induction "mq_left st" arbitrary: st rule: less_induct)
  case less
  show ?case
  proof (rule drains)
    show "always_drains prog st'" if "mq_own_step prog st st'" for st'
      using less.hyps [OF own_step_left [OF that] own_step_noticed [OF less.prems(2) that less.prems(1)]] less.prems(2) .
    show "(\<exists>st'. mq_own_step prog st st') \<or> msgs st = []" using noticed_waits [OF less.prems(1) _ less.prems(2)] by blast
  qed
qed

section \<open>The programs that can miss messages\<close>

definition deaf :: "mq_state \<Rightarrow> bool" where
  "deaf st \<longleftrightarrow> registered st \<and> msgs st \<noteq> [] \<and> mq_at st \<in> {LoopHead, Waiting} \<and> \<not> pending st \<and> \<not> mqflag st \<and> pipe_bytes st = 0"

lemma deaf_step: "mq_step prog st st' \<Longrightarrow> deaf st \<Longrightarrow> deaf st' \<and> got_msgs st' = got_msgs st"
  by (erule mq_stepE) (auto simp: deaf_def mq_own_step.simps mq_defs split: mq_prog.splits)

lemma deaf_steps: "steps (mq_step prog) st st' \<Longrightarrow> deaf st \<Longrightarrow> deaf st' \<and> got_msgs st' = got_msgs st"
  by (induction rule: steps.induct) (use deaf_step in \<open>fastforce+\<close>)

text \<open>The state of a program that has registered while \<open>ms\<close> was in the queue.\<close>

definition mq_ready_on :: "mq_prog \<Rightarrow> nat list \<Rightarrow> mq_state" where
  "mq_ready_on prog ms = Mq_notify (after_start prog) (mq_start ms)"

lemma mq_ready_on_reads_nothing:
  "ms \<noteq> [] \<Longrightarrow> steps (mq_step prog) (mq_ready_on prog ms) st \<Longrightarrow> got_msgs st = []"
proof -
  assume "ms \<noteq> []" and steps: "steps (mq_step prog) (mq_ready_on prog ms) st"
  then have "deaf (mq_ready_on prog ms)"
    by (simp add: deaf_def mq_ready_on_def Mq_notify_def mq_start_def after_start_def split: mq_prog.split)
  moreover have "got_msgs (mq_ready_on prog ms) = []" by (simp add: mq_ready_on_def Mq_notify_def mq_start_def)
  ultimately show ?thesis using deaf_steps [OF steps] by simp
qed

text \<open>A run of the program: \<open>Inl m\<close> is a message sent, \<open>Inr True\<close> the signal, \<open>Inr False\<close> the program itself.\<close>

fun mq_script :: "mq_prog \<Rightarrow> (nat + bool) list \<Rightarrow> mq_state \<Rightarrow> mq_state option" where
  "mq_script prog [] st = Some st"
| "mq_script prog (Inl m # acts) st = mq_script prog acts (mq_send m st)"
| "mq_script prog (Inr sig # acts) st =
     (case (if sig then take_signal prog st else mq_run_step prog st) of None \<Rightarrow> None | Some st' \<Rightarrow> mq_script prog acts st')"

lemma mq_script_steps: "mq_script prog acts st = Some st' \<Longrightarrow> steps (mq_step prog) st st'"
proof (induction acts arbitrary: st)
  case (Cons a acts)
  show ?case
  proof (cases a)
    case (Inl m)
    then show ?thesis using Cons by (auto intro: steps_step send)
  next
    case (Inr sig)
    then obtain st1 where "(if sig then take_signal prog st else mq_run_step prog st) = Some st1" "mq_script prog acts st1 = Some st'"
      using Cons.prems by (auto split: option.splits)
    moreover from this(1) have "mq_step prog st st1" by (auto intro: own mq_own_step.intros split: if_splits)
    ultimately show ?thesis using Cons.IH by (blast intro: steps_step)
  qed
qed (auto intro: steps_refl)

definition goes_deaf :: "mq_prog \<Rightarrow> mq_state \<Rightarrow> bool" where
  "goes_deaf prog st \<longleftrightarrow> (\<exists>st'. steps (mq_step prog) st st' \<and> deaf st')"

lemma goes_deafI: "case mq_script prog acts st of None \<Rightarrow> False | Some st' \<Rightarrow> deaf st' \<Longrightarrow> goes_deaf prog st"
  unfolding goes_deaf_def using case_option_Some mq_script_steps by metis

text \<open>
  \<open>mqnotifysig1\<close> and \<open>mqnotifysig2\<close> read one message for a notification: two messages before the read leave them
  registered with a message in the queue, and then they never read again, whatever is sent.  All five programs
  get there when a message is in the queue before they register for the first time.
\<close>

theorem mq_misses:
  "goes_deaf Sig1 (mq_ready Sig1) \<and> goes_deaf Sig2 (mq_ready Sig2) \<and>
   list_all (\<lambda>prog. goes_deaf prog (mq_start [1])) [Sig1, Sig2, Sig3, Sig4, Sig5] \<and>
   \<not> (\<exists>prog st st'. deaf st \<and> steps (mq_step prog) st st' \<and> \<not> (deaf st' \<and> got_msgs st' = got_msgs st))"
proof (intro conjI)
  show "goes_deaf Sig1 (mq_ready Sig1)"
    by (rule goes_deafI [where acts = "[Inl 1, Inl 2, Inr True, Inr False, Inr False]"]) code_simp
  show "goes_deaf Sig2 (mq_ready Sig2)"
    by (rule goes_deafI [where acts = "[Inl 1, Inl 2, Inr True, Inr False, Inr False, Inr False, Inr False, Inr False]"]) code_simp
  have "goes_deaf prog (mq_start [1])" if "case mq_script prog [Inr False] (mq_start [1]) of None \<Rightarrow> False | Some st' \<Rightarrow> deaf st'" for prog
    by (rule goes_deafI [OF that])
  moreover have "goes_deaf prog (mq_start [1])" if "case mq_script prog [Inr False, Inr False] (mq_start [1]) of None \<Rightarrow> False | Some st' \<Rightarrow> deaf st'" for prog
    by (rule goes_deafI [OF that])
  moreover have "list_all (\<lambda>prog. case mq_script prog [Inr False] (mq_start [1]) of None \<Rightarrow> False | Some st' \<Rightarrow> deaf st') [Sig1, Sig4, Sig5]"
    "list_all (\<lambda>prog. case mq_script prog [Inr False, Inr False] (mq_start [1]) of None \<Rightarrow> False | Some st' \<Rightarrow> deaf st') [Sig2, Sig3]"
    by code_simp+
  ultimately show "list_all (\<lambda>prog. goes_deaf prog (mq_start [1])) [Sig1, Sig2, Sig3, Sig4, Sig5]" by simp
  show "\<not> (\<exists>prog st st'. deaf st \<and> steps (mq_step prog) st st' \<and> \<not> (deaf st' \<and> got_msgs st' = got_msgs st))"
    using deaf_steps by blast
qed

section \<open>A thread for each notification\<close>

text \<open>
  \<open>mqnotifythread1\<close>: each notification starts \<open>notify_thread\<close>, which registers again and reads until
  \<open>EAGAIN\<close>.  Several of these threads may run at the same time.
\<close>

datatype notify_at = Registering | Reading | Ended

record thr_state =
  thr_msgs :: "nat list"
  thr_registered :: bool
  workers :: "notify_at list"
  thr_quit :: bool
  thr_sent :: "nat list"
  thr_got :: "nat list"

definition thr_ready :: thr_state where
  "thr_ready = \<lparr>thr_msgs = [], thr_registered = True, workers = [], thr_quit = False, thr_sent = [], thr_got = []\<rparr>"

definition thr_send :: "nat \<Rightarrow> thr_state \<Rightarrow> thr_state" where
  "thr_send m st =
     (if thr_msgs st = [] \<and> thr_registered st
      then st\<lparr>thr_msgs := [m], thr_sent := thr_sent st @ [m], thr_registered := False, workers := workers st @ [Registering]\<rparr>
      else st\<lparr>thr_msgs := thr_msgs st @ [m], thr_sent := thr_sent st @ [m]\<rparr>)"

definition notify_thread :: "nat \<Rightarrow> thr_state \<Rightarrow> thr_state option" where
  "notify_thread i st =
     (if thr_quit st \<or> length (workers st) \<le> i then None
      else case workers st ! i of
        Registering \<Rightarrow> if thr_registered st then Some (st\<lparr>thr_quit := True\<rparr>)
          else Some (st\<lparr>thr_registered := True, workers := (workers st)[i := Reading]\<rparr>)
      | Reading \<Rightarrow> (case thr_msgs st of
            [] \<Rightarrow> Some (st\<lparr>workers := (workers st)[i := Ended]\<rparr>)
          | m # ms \<Rightarrow> Some (st\<lparr>thr_msgs := ms, thr_got := thr_got st @ [m]\<rparr>))
      | Ended \<Rightarrow> None)"

inductive thr_step :: "thr_state \<Rightarrow> thr_state \<Rightarrow> bool" where
  worker: "notify_thread i st = Some st' \<Longrightarrow> thr_step st st'"
| sender: "thr_step st (thr_send m st)"

inductive_cases thr_stepE: "thr_step st st'"

definition thr_inv :: "thr_state \<Rightarrow> bool" where
  "thr_inv st \<longleftrightarrow> \<not> thr_quit st \<and> thr_sent st = thr_got st @ thr_msgs st \<and>
     how_many (\<lambda>w. w = Registering) (workers st) + of_bool (thr_registered st) = 1 \<and>
     (thr_registered st \<and> thr_msgs st \<noteq> [] \<longrightarrow> 0 < how_many (\<lambda>w. w = Reading) (workers st))"

lemma how_many_append [simp]: "how_many P (xs @ ys) = how_many P xs + how_many P ys"
  by (simp add: how_many_def)

lemma how_many_single [simp]: "how_many P [x] = (if P x then 1 else 0)"
  by (simp add: how_many_def)

lemma notify_thread_inv:
  assumes "notify_thread i st = Some st'" "thr_inv st"
  shows "thr_inv st'"
proof -
  have i: "i < length (workers st)" using assms(1) by (auto simp: notify_thread_def split: if_splits)
  note upd = how_many_update [OF i, of "\<lambda>w. w = Registering"] how_many_update [OF i, of "\<lambda>w. w = Reading"]
  show ?thesis
  proof (cases "workers st ! i")
    case Registering
    then have "0 < how_many (\<lambda>w. w = Registering) (workers st)" using how_many_pos [OF nth_mem [OF i]] by simp
    then have "\<not> thr_registered st" using assms(2) by (auto simp: thr_inv_def)
    then show ?thesis using assms Registering upd [of Reading] by (auto simp: notify_thread_def thr_inv_def split: if_splits)
  next
    case Reading
    then have "0 < how_many (\<lambda>w. w = Reading) (workers st)" using how_many_pos [OF nth_mem [OF i]] by simp
    then show ?thesis using assms Reading upd [of Ended]
      by (auto simp: notify_thread_def thr_inv_def split: if_splits list.splits)
  qed (use assms in \<open>auto simp: notify_thread_def split: if_splits\<close>)
qed

interpretation thr: step_invariant "\<lambda>st. st = thr_ready" thr_step thr_inv
proof
  show "thr_inv st" if "st = thr_ready" for st using that by (simp add: thr_inv_def thr_ready_def)
  show "thr_inv st'" if "thr_inv st" "thr_step st st'" for st st'
    using that(2)
  proof (rule thr_stepE)
    show "thr_inv st'" if "notify_thread i st = Some st'" for i using notify_thread_inv [OF that \<open>thr_inv st\<close>] .
    show "thr_inv st'" if "st' = thr_send m st" for m
      using \<open>thr_inv st\<close> that by (auto simp: thr_send_def thr_inv_def)
  qed
qed

definition thr_left :: "thr_state \<Rightarrow> nat" where
  "thr_left st = length (thr_msgs st) + 2 * how_many (\<lambda>w. w = Registering) (workers st) + how_many (\<lambda>w. w = Reading) (workers st)"

lemma notify_thread_left: "notify_thread i st = Some st' \<Longrightarrow> thr_inv st \<Longrightarrow> thr_left st' < thr_left st"
proof -
  assume a: "notify_thread i st = Some st'" "thr_inv st"
  have i: "i < length (workers st)" using a(1) by (auto simp: notify_thread_def split: if_splits)
  note upd = how_many_update [OF i, of "\<lambda>w. w = Registering"] how_many_update [OF i, of "\<lambda>w. w = Reading"]
  have "workers st ! i = Registering \<Longrightarrow> \<not> thr_registered st"
    using a(2) how_many_pos [OF nth_mem [OF i], of "\<lambda>w. w = Registering"] by (auto simp: thr_inv_def)
  then show ?thesis using a(1) upd [of Reading] upd [of Ended]
    by (cases "workers st ! i") (auto simp: notify_thread_def thr_left_def split: if_splits list.splits)
qed

lemma thr_waits:
  assumes "thr_inv st" "\<And>i. notify_thread i st = None"
  shows "thr_msgs st = [] \<and> thr_registered st"
proof -
  have ended: "w = Ended" if w: "w \<in> set (workers st)" for w
  proof -
    obtain i where "i < length (workers st)" "workers st ! i = w" using w by (auto simp: in_set_conv_nth)
    then show ?thesis using assms(1) assms(2) [of i]
      by (cases w; cases "thr_msgs st") (auto simp: notify_thread_def thr_inv_def split: if_splits)
  qed
  then have "how_many (\<lambda>w. w = Registering) (workers st) = 0" "how_many (\<lambda>w. w = Reading) (workers st) = 0"
    by (auto simp: how_many_0)
  then show ?thesis using assms(1) by (cases "thr_registered st") (auto simp: thr_inv_def)
qed

inductive thr_drains :: "thr_state \<Rightarrow> bool" where
  "(\<And>i st'. notify_thread i st = Some st' \<Longrightarrow> thr_drains st') \<Longrightarrow>
    (\<exists>i st'. notify_thread i st = Some st') \<or> thr_msgs st = [] \<Longrightarrow> thr_drains st"

lemma inv_drains: "thr_inv st \<Longrightarrow> thr_drains st"
proof (induction "thr_left st" arbitrary: st rule: less_induct)
  case less
  show ?case
  proof (rule thr_drains.intros)
    show "thr_drains st'" if "notify_thread i st = Some st'" for i st'
      using less.hyps [OF notify_thread_left [OF that less.prems] notify_thread_inv [OF that less.prems]] .
    show "(\<exists>i st'. notify_thread i st = Some st') \<or> thr_msgs st = []" using thr_waits [OF less.prems] by fastforce
  qed
qed

text \<open>Registered while \<open>ms\<close> was in the queue: no thread is ever started.\<close>

definition thr_ready_on :: "nat list \<Rightarrow> thr_state" where
  "thr_ready_on ms = thr_ready\<lparr>thr_msgs := ms, thr_sent := ms\<rparr>"

lemma thr_ready_on_reads_nothing:
  "steps thr_step st st' \<Longrightarrow> thr_msgs st \<noteq> [] \<and> workers st = [] \<and> thr_got st = [] \<Longrightarrow>
     thr_msgs st' \<noteq> [] \<and> workers st' = [] \<and> thr_got st' = []"
  by (induction rule: steps.induct) (auto elim!: thr_stepE simp: notify_thread_def thr_send_def split: if_splits)

section \<open>What they promise\<close>

text \<open>
  C29: \<open>mqnotifysig3\<close>, \<open>4\<close>, \<open>5\<close> and \<open>mqnotifythread1\<close> with its overlapping threads, when their first \<open>mq_notify\<close>
  finds the queue empty: they never end on \<open>EBUSY\<close>, read the messages in the order in which they were sent, each
  once, and in every interleaving, whenever no more are sent, come to rest with all of them read.  When it finds
  a message in the queue they never read anything, whatever is sent later.
\<close>

theorem mq_drains:
  "\<not> (\<exists>prog st. prog \<in> {Sig3, Sig4, Sig5} \<and> reachable (\<lambda>st. st = mq_ready prog) (mq_step prog) st \<and>
        \<not> (mq_at st \<noteq> Quit \<and> sent st = got_msgs st @ msgs st \<and> always_drains prog st)) \<and>
   \<not> (\<exists>st. reachable (\<lambda>st. st = thr_ready) thr_step st \<and>
        \<not> (\<not> thr_quit st \<and> thr_sent st = thr_got st @ thr_msgs st \<and> thr_drains st)) \<and>
   \<not> (\<exists>prog ms st. prog \<in> {Sig3, Sig4, Sig5} \<and> ms \<noteq> [] \<and> steps (mq_step prog) (mq_ready_on prog ms) st \<and> got_msgs st \<noteq> []) \<and>
   \<not> (\<exists>ms st. ms \<noteq> [] \<and> steps thr_step (thr_ready_on ms) st \<and> thr_got st \<noteq> [])"
proof (intro conjI)
  have "mq_at st \<noteq> Quit \<and> sent st = got_msgs st @ msgs st \<and> always_drains prog st"
    if "prog \<in> {Sig3, Sig4, Sig5}" "reachable (\<lambda>st. st = mq_ready prog) (mq_step prog) st" for prog st
  proof -
    have "noticed prog st" using that(2)
      by (induction rule: reachable.induct) (auto simp: ready_noticed intro: mq_step_noticed [OF that(1)])
    then show ?thesis using noticed_drains that(1) by (auto simp: noticed_def mq_inv_def)
  qed
  then show "\<not> (\<exists>prog st. prog \<in> {Sig3, Sig4, Sig5} \<and> reachable (\<lambda>st. st = mq_ready prog) (mq_step prog) st \<and>
        \<not> (mq_at st \<noteq> Quit \<and> sent st = got_msgs st @ msgs st \<and> always_drains prog st))" by blast
  have "\<not> thr_quit st \<and> thr_sent st = thr_got st @ thr_msgs st \<and> thr_drains st"
    if "reachable (\<lambda>st. st = thr_ready) thr_step st" for st
    using thr.reachable_inv [OF that] inv_drains by (simp add: thr_inv_def)
  then show "\<not> (\<exists>st. reachable (\<lambda>st. st = thr_ready) thr_step st \<and>
        \<not> (\<not> thr_quit st \<and> thr_sent st = thr_got st @ thr_msgs st \<and> thr_drains st))" by blast
  show "\<not> (\<exists>prog ms st. prog \<in> {Sig3, Sig4, Sig5} \<and> ms \<noteq> [] \<and> steps (mq_step prog) (mq_ready_on prog ms) st \<and> got_msgs st \<noteq> [])"
    using mq_ready_on_reads_nothing by blast
  have "thr_got st = []" if "ms \<noteq> []" "steps thr_step (thr_ready_on ms) st" for ms st
    using thr_ready_on_reads_nothing [OF that(2)] that(1) by (simp add: thr_ready_on_def thr_ready_def)
  then show "\<not> (\<exists>ms st. ms \<noteq> [] \<and> steps thr_step (thr_ready_on ms) st \<and> thr_got st \<noteq> [])" by blast
qed

end
