(* ===== verification/ShmRing.thy ===== *)
theory ShmRing
  imports Prelude "HOL-Library.Multiset"
begin

text \<open>
  Messages through shared memory, \<open>example/unix_network/example/pxshm\<close> (\<open>server2.cpp\<close>, \<open>client2.cpp\<close>,
  \<open>cliserv.h\<close>): clients put messages into a ring of \<open>NMESG\<close> slots, one server prints them.  Free and filled
  slots are counted by the semaphores \<open>nempty\<close> and \<open>nstored\<close>; a client that finds no free slot counts an
  overflow and drops its message.  The regions between \<open>Sem_wait\<close> and \<open>Sem_post\<close> of a mutex are atomic
  steps; \<open>strcpy\<close> into the slot is a step of its own, outside of the mutex.
\<close>

section \<open>State\<close>

definition NMESG :: nat where
  "NMESG = 16"

text \<open>Message \<open>i\<close> of client \<open>c\<close> is \<open>(c, i)\<close>; an untouched slot holds zero bytes (\<open>None\<close>).\<close>

type_synonym message = "nat \<times> nat"

datatype client_at = Trying | Putting | Copying nat | Posting

record ring_client =
  loop_at :: nat
  nloop :: nat
  client_at :: client_at

datatype server_at = Waiting | Printing | Freeing | Checking

record ring =
  nempty :: nat
  nstored :: nat
  nput :: nat
  noverflow :: nat
  slots :: "message option list"
  clients :: "ring_client list"
  server_at :: server_at
  srv_index :: nat
  lastnoverflow :: nat
  printed :: "message option list"
  reported :: "nat list"
  copied :: "message list"

definition ring_start :: "nat list \<Rightarrow> ring" where
  "ring_start loops = \<lparr>nempty = NMESG, nstored = 0, nput = 0, noverflow = 0, slots = replicate NMESG None,
     clients = map (\<lambda>n. \<lparr>loop_at = 0, nloop = n, client_at = Trying\<rparr>) loops,
     server_at = Waiting, srv_index = 0, lastnoverflow = 0, printed = [], reported = [], copied = []\<rparr>"

definition next_slot :: "nat \<Rightarrow> nat" where
  "next_slot i = (if i + 1 \<ge> NMESG then 0 else i + 1)"

section \<open>Steps\<close>

definition set_client :: "nat \<Rightarrow> ring_client \<Rightarrow> ring \<Rightarrow> ring" where
  "set_client c cl st = st\<lparr>clients := (clients st)[c := cl]\<rparr>"

text \<open>The loop of \<open>client2\<close>: \<open>sem_trywait\<close> (or an overflow), take a slot, copy, post.\<close>

definition client_exec :: "nat \<Rightarrow> ring \<Rightarrow> ring option" where
  "client_exec c st =
     (if length (clients st) \<le> c then None
      else let cl = clients st ! c in
        case client_at cl of
          Trying \<Rightarrow>
            if nloop cl \<le> loop_at cl then None
            else if nempty st = 0
              then Some (set_client c (cl\<lparr>loop_at := loop_at cl + 1\<rparr>) (st\<lparr>noverflow := noverflow st + 1\<rparr>))
              else Some (set_client c (cl\<lparr>client_at := Putting\<rparr>) (st\<lparr>nempty := nempty st - 1\<rparr>))
        | Putting \<Rightarrow> Some (set_client c (cl\<lparr>client_at := Copying (nput st)\<rparr>) (st\<lparr>nput := next_slot (nput st)\<rparr>))
        | Copying offset \<Rightarrow> Some (set_client c (cl\<lparr>client_at := Posting\<rparr>)
            (st\<lparr>slots := (slots st)[offset := Some (c, loop_at cl)], copied := copied st @ [(c, loop_at cl)]\<rparr>))
        | Posting \<Rightarrow> Some (set_client c (cl\<lparr>client_at := Trying, loop_at := loop_at cl + 1\<rparr>) (st\<lparr>nstored := nstored st + 1\<rparr>)))"

text \<open>The loop of \<open>server2\<close>.\<close>

definition server_exec :: "ring \<Rightarrow> ring option" where
  "server_exec st = (case server_at st of
     Waiting \<Rightarrow> if nstored st = 0 then None else Some (st\<lparr>nstored := nstored st - 1, server_at := Printing\<rparr>)
   | Printing \<Rightarrow> Some (st\<lparr>printed := printed st @ [slots st ! srv_index st], srv_index := next_slot (srv_index st),
       server_at := Freeing\<rparr>)
   | Freeing \<Rightarrow> Some (st\<lparr>nempty := nempty st + 1, server_at := Checking\<rparr>)
   | Checking \<Rightarrow>
       if noverflow st \<noteq> lastnoverflow st
       then Some (st\<lparr>reported := reported st @ [noverflow st], lastnoverflow := noverflow st, server_at := Waiting\<rparr>)
       else Some (st\<lparr>server_at := Waiting\<rparr>))"

inductive ring_step :: "ring \<Rightarrow> ring \<Rightarrow> bool" where
  client_step: "client_exec c st = Some st' \<Longrightarrow> ring_step st st'"
| server_step: "server_exec st = Some st' \<Longrightarrow> ring_step st st'"

inductive_cases ring_stepE: "ring_step st st'"

section \<open>Slots and counters, for any number of clients\<close>

definition holds_slot :: "ring_client \<Rightarrow> bool" where
  "holds_slot cl \<longleftrightarrow> client_at cl \<noteq> Trying"

definition slots_out :: "ring \<Rightarrow> nat" where
  "slots_out st = how_many holds_slot (clients st) + nstored st + of_bool (server_at st \<in> {Printing, Freeing})"

text \<open>Free slots and slots in use add up to the ring; each try has been counted as an overflow or as a message copied.\<close>

definition counters_ok :: "ring \<Rightarrow> bool" where
  "counters_ok st \<longleftrightarrow> nempty st + slots_out st = NMESG \<and> length (slots st) = NMESG \<and> nput st < NMESG \<and> srv_index st < NMESG \<and>
     (\<forall>cl \<in> set (clients st). case client_at cl of Copying k \<Rightarrow> k < NMESG | _ \<Rightarrow> True) \<and>
     length (copied st) = length (printed st) + nstored st + how_many (\<lambda>cl. client_at cl = Posting) (clients st) +
       of_bool (server_at st = Printing) \<and>
     sum_list (map loop_at (clients st)) + how_many (\<lambda>cl. client_at cl = Posting) (clients st) = noverflow st + length (copied st)"

lemma next_slot_less: "i < NMESG \<Longrightarrow> next_slot i < NMESG"
  by (auto simp: next_slot_def NMESG_def)

lemma sum_list_update: "c < length xs \<Longrightarrow> sum_list (map f (xs[c := x])) + f (xs ! c) = sum_list (map f xs) + (f x :: nat)"
proof (induction xs arbitrary: c)
  case (Cons y ys)
  then show ?case by (cases c) auto
qed simp

lemma client_counters:
  assumes "client_exec c st = Some st'" "counters_ok st"
  shows "counters_ok st'"
proof -
  let ?cl = "clients st ! c"
  have c: "c < length (clients st)" using assms(1) by (auto simp: client_exec_def split: if_splits)
  have cl: "?cl \<in> set (clients st)" using c by simp
  note upd = how_many_update [OF c, of holds_slot] how_many_update [OF c, of "\<lambda>cl. client_at cl = Posting"]
    sum_list_update [OF c, of loop_at]
  have copy: "\<forall>cl \<in> set ((clients st)[c := x]). case client_at cl of Copying k \<Rightarrow> k < NMESG | _ \<Rightarrow> True"
    if "case client_at x of Copying k \<Rightarrow> k < NMESG | _ \<Rightarrow> True" for x
    using assms(2) that set_update_subset_insert [of "clients st" c x] by (auto simp: counters_ok_def)
  have held: "client_at ?cl \<noteq> Trying \<Longrightarrow> 0 < how_many holds_slot (clients st)"
    using how_many_pos [OF cl, of holds_slot] by (simp add: holds_slot_def)
  show ?thesis
  proof (cases "client_at ?cl")
    case Trying
    then show ?thesis
      using assms c upd [of "?cl\<lparr>loop_at := loop_at ?cl + 1\<rparr>"] upd [of "?cl\<lparr>client_at := Putting\<rparr>"]
        copy [of "?cl\<lparr>loop_at := loop_at ?cl + 1\<rparr>"] copy [of "?cl\<lparr>client_at := Putting\<rparr>"]
      by (auto simp: client_exec_def counters_ok_def slots_out_def set_client_def holds_slot_def Let_def split: if_splits)
  next
    case Putting
    then show ?thesis
      using assms c upd [of "?cl\<lparr>client_at := Copying (nput st)\<rparr>"] copy [of "?cl\<lparr>client_at := Copying (nput st)\<rparr>"]
      by (auto simp: client_exec_def counters_ok_def slots_out_def set_client_def holds_slot_def Let_def next_slot_less)
  next
    case (Copying k)
    then show ?thesis
      using assms c upd [of "?cl\<lparr>client_at := Posting\<rparr>"] copy [of "?cl\<lparr>client_at := Posting\<rparr>"]
      by (auto simp: client_exec_def counters_ok_def slots_out_def set_client_def holds_slot_def Let_def)
  next
    case Posting
    then show ?thesis
      using assms c held upd [of "?cl\<lparr>client_at := Trying, loop_at := loop_at ?cl + 1\<rparr>"] copy [of "?cl\<lparr>client_at := Trying, loop_at := loop_at ?cl + 1\<rparr>"]
      by (auto simp: client_exec_def counters_ok_def slots_out_def set_client_def holds_slot_def Let_def)
  qed
qed

lemma server_counters: "server_exec st = Some st' \<Longrightarrow> counters_ok st \<Longrightarrow> counters_ok st'"
  by (cases "server_at st") (auto simp: server_exec_def counters_ok_def slots_out_def next_slot_less split: if_splits)

lemma start_counters: "counters_ok (ring_start loops)"
proof -
  have "how_many P (map (\<lambda>n. \<lparr>loop_at = 0, nloop = n, client_at = Trying\<rparr>) loops) = 0"
    if "\<And>n. \<not> P \<lparr>loop_at = 0, nloop = n, client_at = Trying\<rparr>" for P
    using that by (auto simp: how_many_0)
  then show ?thesis
    by (simp add: counters_ok_def ring_start_def slots_out_def holds_slot_def NMESG_def comp_def)
qed

interpretation counters: step_invariant "\<lambda>st. \<exists>loops. st = ring_start loops" ring_step counters_ok
  by unfold_locales (auto simp: start_counters intro: client_counters server_counters elim!: ring_stepE)

section \<open>One client\<close>

definition unread :: "ring \<Rightarrow> nat" where
  "unread st = nstored st + of_bool (client_at (hd (clients st)) = Posting) + of_bool (server_at st = Printing)"

text \<open>
  The unread slots, from \<open>srv_index\<close> on, hold the messages copied and not yet printed, and the slot that the
  client copies into is the next one.
\<close>

definition places :: "client_at \<Rightarrow> nat \<Rightarrow> nat \<Rightarrow> bool" where
  "places at pos np \<longleftrightarrow> (case at of Copying k \<Rightarrow> k = pos mod NMESG \<and> np = (pos + 1) mod NMESG | _ \<Rightarrow> np = pos mod NMESG)"

definition in_order_with :: "ring_client \<Rightarrow> ring \<Rightarrow> bool" where
  "in_order_with cl st \<longleftrightarrow> clients st = [cl] \<and>
     printed st = map Some (take (length (printed st)) (copied st)) \<and>
     length (copied st) = length (printed st) + unread st \<and>
     (\<forall>j < unread st. slots st ! ((srv_index st + j) mod NMESG) = Some (copied st ! (length (printed st) + j))) \<and>
     places (client_at cl) (srv_index st + unread st) (nput st) \<and>
     sorted_wrt (<) (map snd (copied st)) \<and> (\<forall>m \<in> set (copied st). fst m = 0 \<and> snd m < loop_at cl + of_bool (client_at cl = Posting)) \<and>
     loop_at cl + of_bool (client_at cl \<noteq> Trying) \<le> nloop cl"

definition in_order :: "ring \<Rightarrow> bool" where
  "in_order st \<longleftrightarrow> (\<exists>cl. in_order_with cl st)"

lemma next_slot_mod: "i < NMESG \<Longrightarrow> next_slot i = (i + 1) mod NMESG"
  unfolding next_slot_def NMESG_def by presburger

lemma next_slot_mod2: "next_slot (i mod NMESG) = (i + 1) mod NMESG"
  by (subst next_slot_mod) (simp_all add: NMESG_def mod_Suc_eq)

lemma other_slot: "j < u \<Longrightarrow> u < NMESG \<Longrightarrow> (i + j) mod NMESG \<noteq> (i + u) mod NMESG"
proof
  assume a: "j < u" "u < NMESG" "(i + j) mod NMESG = (i + u) mod NMESG"
  then have "NMESG dvd (i + u) - (i + j)" using mod_eq_dvd_iff_nat [of "i + j" "i + u" NMESG] by simp
  then show False using a dvd_imp_le [of NMESG "u - j"] by simp
qed

text \<open>A step of the client that changes neither the unread slots nor the position of the next one.\<close>

lemma in_order_frame:
  assumes "in_order_with cl st" "clients st' = [cl']" "printed st' = printed st" "copied st' = copied st"
    "unread st' = unread st" "slots st' = slots st" "srv_index st' = srv_index st"
    "places (client_at cl') (srv_index st + unread st) (nput st')"
    "loop_at cl + of_bool (client_at cl = Posting) \<le> loop_at cl' + of_bool (client_at cl' = Posting)"
    "loop_at cl' + of_bool (client_at cl' \<noteq> Trying) \<le> nloop cl'"
  shows "in_order_with cl' st'"
  using assms unfolding in_order_with_def by auto

lemma client_in_order:
  assumes step: "client_exec c st = Some st'" and cnt: "counters_ok st" and io: "in_order_with cl st"
  shows "in_order st'"
proof -
  have cl: "clients st = [cl]" using io by (simp add: in_order_with_def)
  have c: "c = 0" using step cl by (simp add: client_exec_def split: if_splits)
  have at: "places (client_at cl) (srv_index st + unread st) (nput st)"
    and left: "loop_at cl + of_bool (client_at cl \<noteq> Trying) \<le> nloop cl" using io by (simp_all add: in_order_with_def)
  have room: "client_at cl = Copying k \<Longrightarrow> unread st < NMESG" for k
    using cnt cl by (cases "server_at st") (simp_all add: counters_ok_def slots_out_def unread_def how_many_def holds_slot_def)
  have "\<exists>cl'. in_order_with cl' st'"
  proof (cases "client_at cl")
    case Trying
    show ?thesis
    proof (cases "nempty st = 0")
      case True
      then have st': "st' = st\<lparr>noverflow := noverflow st + 1, clients := [cl\<lparr>loop_at := loop_at cl + 1\<rparr>]\<rparr>" "loop_at cl < nloop cl"
        using step cl c Trying by (auto simp: client_exec_def set_client_def Let_def split: if_splits)
      show ?thesis
        by (rule exI, rule in_order_frame [OF io, where cl' = "cl\<lparr>loop_at := loop_at cl + 1\<rparr>"]) (use st' Trying at cl in \<open>simp_all add: unread_def places_def\<close>)
    next
      case False
      then have st': "st' = st\<lparr>nempty := nempty st - 1, clients := [cl\<lparr>client_at := Putting\<rparr>]\<rparr>" "loop_at cl < nloop cl"
        using step cl c Trying by (auto simp: client_exec_def set_client_def Let_def split: if_splits)
      show ?thesis
        by (rule exI, rule in_order_frame [OF io, where cl' = "cl\<lparr>client_at := Putting\<rparr>"]) (use st' Trying at cl in \<open>simp_all add: unread_def places_def\<close>)
    qed
  next
    case Putting
    then have st': "st' = st\<lparr>nput := next_slot (nput st), clients := [cl\<lparr>client_at := Copying (nput st)\<rparr>]\<rparr>"
      using step cl c by (simp add: client_exec_def set_client_def Let_def)
    show ?thesis
      by (rule exI, rule in_order_frame [OF io, where cl' = "cl\<lparr>client_at := Copying (nput st)\<rparr>"])
        (use st' Putting at cl left in \<open>simp_all add: unread_def next_slot_mod2 places_def\<close>)
  next
    case (Copying k)
    then have k: "k = (srv_index st + unread st) mod NMESG" "length (slots st) = NMESG" "k < NMESG"
      using at cnt by (simp_all add: counters_ok_def NMESG_def places_def)
    have st': "st' = st\<lparr>slots := (slots st)[k := Some (0, loop_at cl)], copied := copied st @ [(0, loop_at cl)],
        clients := [cl\<lparr>client_at := Posting\<rparr>]\<rparr>"
      using step cl c Copying by (simp add: client_exec_def set_client_def Let_def)
    have u: "unread st' = unread st + 1" using Copying cl st' by (simp add: unread_def)
    have len: "length (copied st) = length (printed st) + unread st" using io by (simp add: in_order_with_def)
    have "slots st' ! ((srv_index st' + j) mod NMESG) = Some (copied st' ! (length (printed st') + j))" if j: "j < unread st'" for j
    proof (cases "j = unread st")
      case True
      then show ?thesis using k st' len by (simp add: nth_append)
    next
      case False
      then have j: "j < unread st" using j u by simp
      then have "slots st ! ((srv_index st + j) mod NMESG) = Some (copied st ! (length (printed st) + j))"
        using io by (simp add: in_order_with_def)
      then show ?thesis using other_slot [OF j room [OF Copying], of "srv_index st"] k st' len j by (simp add: nth_append)
    qed
    moreover have "printed st' = map Some (take (length (printed st')) (copied st'))"
      using io st' len by (simp add: in_order_with_def)
    ultimately show ?thesis using io u st' Copying cl at
      by (intro exI [of _ "cl\<lparr>client_at := Posting\<rparr>"]) (auto simp: in_order_with_def sorted_wrt_append less_Suc_eq places_def)
  next
    case Posting
    then have st': "st' = st\<lparr>nstored := nstored st + 1, clients := [cl\<lparr>client_at := Trying, loop_at := loop_at cl + 1\<rparr>]\<rparr>"
      using step cl c by (simp add: client_exec_def set_client_def Let_def)
    show ?thesis
      by (rule exI, rule in_order_frame [OF io, where cl' = "cl\<lparr>client_at := Trying, loop_at := loop_at cl + 1\<rparr>"])
        (use st' Posting at cl left in \<open>simp_all add: unread_def places_def\<close>)
  qed
  then show ?thesis by (simp add: in_order_def)
qed

lemma server_in_order:
  assumes step: "server_exec st = Some st'" and cnt: "counters_ok st" and io: "in_order_with cl st"
  shows "in_order_with cl st'"
proof (cases "server_at st")
  case Printing
  have cl: "clients st = [cl]" using io by (auto simp: in_order_with_def)
  have st': "st' = st\<lparr>printed := printed st @ [slots st ! srv_index st], srv_index := next_slot (srv_index st), server_at := Freeing\<rparr>"
    using step Printing by (simp add: server_exec_def)
  have u: "unread st = Suc (unread st')" using Printing st' by (simp add: unread_def)
  have i: "srv_index st < NMESG" "srv_index st' = (srv_index st + 1) mod NMESG"
    using cnt st' by (simp_all add: counters_ok_def next_slot_mod)
  have slot: "slots st ! ((srv_index st + j) mod NMESG) = Some (copied st ! (length (printed st) + j))" if "j < unread st" for j
    using io that by (auto simp: in_order_with_def)
  have "slots st ! srv_index st = Some (copied st ! length (printed st))" using slot [of 0] u i by simp
  moreover have "slots st' ! ((srv_index st' + j) mod NMESG) = Some (copied st' ! (length (printed st') + j))" if "j < unread st'" for j
    using slot [of "Suc j"] that u i(2) st' by (simp add: mod_simps)
  moreover have "printed st' = printed st @ [slots st ! srv_index st]" "copied st' = copied st" "clients st' = [cl]"
    using st' cl by simp_all
  moreover have "nput st' = nput st" using st' by simp
  moreover have "(srv_index st' + x) mod NMESG = (srv_index st + Suc x) mod NMESG" for x using i(2) by (simp add: mod_simps)
  from this [of "unread st'"] this [of "unread st' + 1"]
  have "places (client_at cl) (srv_index st' + unread st') (nput st')"
    using io u \<open>nput st' = nput st\<close> by (auto simp: in_order_with_def places_def split: client_at.splits)
  ultimately show ?thesis using io u unfolding in_order_with_def by (auto simp: take_Suc_conv_app_nth)
next
  case Waiting
  then have "0 < nstored st" "st' = st\<lparr>nstored := nstored st - 1, server_at := Printing\<rparr>"
    using step by (auto simp: server_exec_def split: if_splits)
  then show ?thesis using io Waiting by (intro in_order_frame [OF io]) (auto simp: unread_def in_order_with_def)
next
  case Freeing
  then show ?thesis using step io by (intro in_order_frame [OF io]) (auto simp: server_exec_def unread_def in_order_with_def)
next
  case Checking
  then show ?thesis using step io
    by (intro in_order_frame [OF io]) (auto simp: server_exec_def unread_def in_order_with_def split: if_splits)
qed

lemma start_in_order: "in_order (ring_start [n])"
  by (simp add: in_order_def in_order_with_def ring_start_def unread_def places_def)

lemma ring_start_clients: "clients (ring_start [n]) = [\<lparr>loop_at = 0, nloop = n, client_at = Trying\<rparr>]"
  by (simp add: ring_start_def)

lemma one_client_inv:
  "reachable (\<lambda>st. st = ring_start [n]) ring_step st \<Longrightarrow> counters_ok st \<and> in_order st \<and> nloop (hd (clients st)) = n"
proof (induction rule: reachable.induct)
  case (reach_init s)
  then show ?case using start_counters [of "[n]"] start_in_order [of n] by (metis ring_start_clients list.sel(1) ring_client.select_convs(2))
next
  case (reach_step s t)
  have "nloop (hd (clients t)) = nloop (hd (clients s))" using reach_step.hyps(2)
    by (rule ring_stepE; cases "clients s") (auto simp: client_exec_def server_exec_def set_client_def Let_def nth_Cons
      split: if_splits client_at.splits server_at.splits nat.splits)
  then show ?case using reach_step ring_stepE [OF reach_step.hyps(2)]
    by (metis client_counters server_counters client_in_order server_in_order in_order_def)
qed

lemma ring_waits:
  assumes "in_order st" "\<And>st'. \<not> ring_step st st'"
  shows "printed st = map Some (copied st) \<and> loop_at (hd (clients st)) = nloop (hd (clients st)) \<and> client_at (hd (clients st)) = Trying"
proof -
  obtain cl where io: "in_order_with cl st" and cl: "clients st = [cl]" using assms(1) by (auto simp: in_order_def in_order_with_def)
  have "client_exec 0 st = None" "server_exec st = None" using assms(2) by (meson ring_step.intros not_None_eq)+
  then have "client_at cl = Trying" "nloop cl \<le> loop_at cl" "server_at st = Waiting" "nstored st = 0" using cl
    by (auto simp: client_exec_def server_exec_def Let_def split: client_at.splits server_at.splits if_splits)
  then show ?thesis using io cl by (auto simp: in_order_with_def unread_def)
qed

section \<open>Properties\<close>

text \<open>
  C30: With one client the server prints the messages in the order in which they were sent, each at most once, and
  only complete ones; when neither side can go on, all messages copied have been printed, and those not printed
  are exactly the counted overflows.
\<close>

theorem ring_one_client:
  assumes "reachable (\<lambda>st. st = ring_start [n]) ring_step st"
  shows "(\<exists>is. printed st = map (\<lambda>i. Some (0, i)) is \<and> sorted_wrt (<) is \<and> (\<forall>i \<in> set is. i < n)) \<and>
    ((\<exists>st'. ring_step st st') \<or> length (printed st) + noverflow st = n)"
proof (intro conjI)
  have inv: "counters_ok st" "in_order st" "nloop (hd (clients st)) = n" using one_client_inv [OF assms] by blast+
  then obtain cl where io: "in_order_with cl st" and cl: "clients st = [cl]" by (auto simp: in_order_def in_order_with_def)
  let ?k = "length (printed st)" and ?is = "map snd (copied st)"
  have fst0: "copied st = map (Pair 0) ?is"
  proof (rule nth_equalityI)
    fix j assume "j < length (copied st)"
    then show "copied st ! j = map (Pair 0) ?is ! j" using io nth_mem [of j "copied st"]
      by (cases "copied st ! j") (auto simp: in_order_with_def)
  qed simp
  have "printed st = map Some (take ?k (map (Pair 0) ?is))" using io fst0 by (simp add: in_order_with_def)
  then have "printed st = map (\<lambda>i. Some (0, i)) (take ?k ?is)" by (simp add: take_map comp_def)
  moreover have "sorted_wrt (<) (take ?k ?is)" using io by (simp add: in_order_with_def sorted_wrt_take)
  moreover have "i < n" if "i \<in> set (take ?k ?is)" for i
  proof -
    have "i < loop_at cl + of_bool (client_at cl = Posting)"
      using io in_set_takeD [OF that] by (auto simp: in_order_with_def)
    also have "\<dots> \<le> n" using io inv(3) cl by (auto simp: in_order_with_def split: if_splits)
    finally show ?thesis .
  qed
  ultimately show "\<exists>is. printed st = map (\<lambda>i. Some (0, i)) is \<and> sorted_wrt (<) is \<and> (\<forall>i \<in> set is. i < n)" by blast
  show "(\<exists>st'. ring_step st st') \<or> length (printed st) + noverflow st = n"
  proof (rule disjCI)
    assume a: "\<not> length (printed st) + noverflow st = n"
    show "\<exists>st'. ring_step st st'"
    proof (rule ccontr)
      assume "\<nexists>st'. ring_step st st'"
      then have w: "printed st = map Some (copied st)" "loop_at cl = n" "client_at cl = Trying"
        using ring_waits [OF inv(2)] inv(3) cl by auto
      have "length (printed st) = length (copied st)" using w(1) by (metis length_map)
      then show False using a w inv(1) cl by (simp add: counters_ok_def how_many_def)
    qed
  qed
qed

text \<open>A schedule: \<open>None\<close> is the server, \<open>Some c\<close> the client \<open>c\<close>.\<close>

fun ring_script :: "nat option list \<Rightarrow> ring \<Rightarrow> ring option" where
  "ring_script [] st = Some st"
| "ring_script (who # sched) st =
     (case (case who of None \<Rightarrow> server_exec st | Some c \<Rightarrow> client_exec c st) of
        None \<Rightarrow> None | Some st' \<Rightarrow> ring_script sched st')"

lemma ring_script_reachable:
  "ring_script sched st = Some st' \<Longrightarrow> reachable init ring_step st \<Longrightarrow> reachable init ring_step st'"
proof (induction sched arbitrary: st)
  case (Cons who sched)
  then obtain st1 where st1: "(case who of None \<Rightarrow> server_exec st | Some c \<Rightarrow> client_exec c st) = Some st1"
      "ring_script sched st1 = Some st'" by (auto split: option.splits)
  from st1(1) have "ring_step st st1" by (cases who) (simp_all add: client_step server_step)
  then show ?case by (intro Cons.IH [OF st1(2)] reach_step [OF Cons.prems(2)])
qed simp

lemma ring_one_client_witness:
  "\<exists>st is. ring_script [Some 0, Some 0, Some 0, Some 0, None, None] (ring_start [1]) = Some st \<and>
     printed st = [Some (0, 0)] \<and> printed st = map (\<lambda>i. Some (0, i)) is \<and> (\<forall>i \<in> set is. i < 1)"
proof -
  have "case ring_script [Some 0, Some 0, Some 0, Some 0, None, None] (ring_start [1]) of None \<Rightarrow> False | Some st \<Rightarrow> printed st = [Some (0, 0)]"
    by code_simp
  from case_option_Some [OF this] obtain st where st: "ring_script [Some 0, Some 0, Some 0, Some 0, None, None] (ring_start [1]) = Some st" "printed st = [Some (0, 0)]"
    by blast
  have "reachable (\<lambda>st. st = ring_start [1]) ring_step st" by (rule ring_script_reachable [OF st(1)]) (rule reach_init, rule refl)
  from conjunct1 [OF ring_one_client [OF this]] st show ?thesis by blast
qed

text \<open>
  With two clients: the one that took the first slot may still be before its \<open>strcpy\<close> when the other posts
  \<open>nstored\<close>; the server then prints a slot that holds no message, and the message copied into it later is never
  printed, although no overflow is counted and everyone has come to rest.
\<close>

theorem ring_two_clients:
  "\<exists>st. reachable (\<lambda>st. st = ring_start [1, 1]) ring_step st \<and> printed st = [None, Some (1, 0)] \<and>
     mset (copied st) = {#(0, 0), (1, 0)#} \<and> noverflow st = 0 \<and> \<not> (\<exists>st'. ring_step st st')"
proof -
  let ?sched = "[Some 0, Some 0, Some 1, Some 1, Some 1, Some 1, None, None, None, None, Some 0, Some 0, None, None, None, None]"
  have "case ring_script ?sched (ring_start [1, 1]) of None \<Rightarrow> False
    | Some st \<Rightarrow> printed st = [None, Some (1, 0)] \<and> copied st = [(1, 0), (0, 0)] \<and> noverflow st = 0 \<and>
        server_exec st = None \<and> client_exec 0 st = None \<and> client_exec 1 st = None \<and> length (clients st) = 2" by code_simp
  from case_option_Some [OF this] obtain st where st: "ring_script ?sched (ring_start [1, 1]) = Some st" "printed st = [None, Some (1, 0)]"
      "copied st = [(1, 0), (0, 0)]" "noverflow st = 0" "server_exec st = None" "client_exec 0 st = None" "client_exec 1 st = None"
      "length (clients st) = 2"
    by blast
  have "client_exec c st = None" for c
    using st(6,7,8) by (cases "c = 0"; cases "c = 1") (auto simp: client_exec_def)
  then have "\<not> (\<exists>st'. ring_step st st')" using st(5) by (auto elim!: ring_stepE)
  moreover have "reachable (\<lambda>st. st = ring_start [1, 1]) ring_step st"
    by (rule ring_script_reachable [OF st(1)]) (rule reach_init, rule refl)
  ultimately show ?thesis using st by auto
qed

end
