(* ===== verification/FileServers.thy ===== *)
theory FileServers
  imports CStrings
begin

text \<open>
  The file servers over System V message queues, \<open>example/unix_network/example\<close>: \<open>svmsgcliserv\<close>,
  \<open>svmsgmpx1q\<close>, \<open>svmsgmpxnq\<close>, and the messages over FIFOs of \<open>pipemesg\<close>.  A client sends a pathname, the
  server answers with the lines of the file, one message each, and a message of length 0 at the end.  The file
  system (\<open>fs\<close>) and the text of \<open>strerror\<close> are parameters; a queue has no bound.
\<close>

section \<open>Lines of a file as messages\<close>

text \<open>\<open>fgets(buf, n + 1, fp)\<close>: at most \<open>n\<close> characters, up to and with a newline; the rest.\<close>

fun fgets :: "nat \<Rightarrow> string \<Rightarrow> string \<times> string" where
  "fgets 0 s = ([], s)"
| "fgets (Suc n) [] = ([], [])"
| "fgets (Suc n) (c # s) = (if c = NL then ([c], s) else let (l, r) = fgets n s in (c # l, r))"

lemma fgets_split: "fst (fgets n s) @ snd (fgets n s) = s"
  by (induction n s rule: fgets.induct) (auto simp: Let_def split: prod.splits)

lemma fgets_progress: "s \<noteq> [] \<Longrightarrow> length (snd (fgets (Suc n) s)) < length s"
proof (cases s)
  case (Cons c s')
  have "length (snd (fgets n s')) \<le> length s'" using fgets_split [of n s'] by (metis length_append le_add2)
  then show ?thesis using Cons by (auto simp: Let_def split: prod.splits)
qed simp

text \<open>The loop of the server: a message for every line, of at most \<open>k + 1\<close> characters.\<close>

function file_lines :: "nat \<Rightarrow> string \<Rightarrow> string list" where
  "file_lines k s = (if s = [] then [] else c_string (fst (fgets (Suc k) s)) # file_lines k (snd (fgets (Suc k) s)))"
  by auto
termination by (relation "measure (\<lambda>(k, s). length s)") (auto simp: fgets_progress simp del: fgets.simps)

declare file_lines.simps [simp del]

lemma fgets_nonempty: "s \<noteq> [] \<Longrightarrow> fst (fgets (Suc k) s) \<noteq> []"
  using fgets_split [of "Suc k" s] fgets_progress [of s k] by (metis append_Nil less_irrefl)

lemma file_lines_exact:
  "NUL \<notin> set s \<Longrightarrow> concat (file_lines k s) = s \<and> (\<forall>l \<in> set (file_lines k s). l \<noteq> [])"
proof (induction k s rule: file_lines.induct)
  case (1 k s)
  show ?case
  proof (cases "s = []")
    case False
    have s: "set s = set (fst (fgets (Suc k) s)) \<union> set (snd (fgets (Suc k) s))" by (metis fgets_split set_append)
    then have "c_string (fst (fgets (Suc k) s)) = fst (fgets (Suc k) s)"
      using "1.prems" by (auto simp: c_string_def takeWhile_eq_all_conv)
    then show ?thesis using 1 False s fgets_nonempty [OF False, of k] fgets_split [of "Suc k" s]
      by (subst (1 2) file_lines.simps) simp
  qed (simp add: file_lines.simps)
qed

section \<open>Requests and answers\<close>

definition MAXMESGDATA :: nat where
  "MAXMESGDATA = 4096 - 2 * 8"

text \<open>What a server sends for a pathname: \<open>err\<close> is the text \<open>snprintf\<close> appends when \<open>fopen\<close> fails.\<close>

definition server_answer :: "(string \<Rightarrow> string option) \<Rightarrow> string \<Rightarrow> string \<Rightarrow> string list" where
  "server_answer fs err path =
     (case fs path of None \<Rightarrow> [path @ err] | Some content \<Rightarrow> file_lines (MAXMESGDATA - 2) content) @ [[]]"

text \<open>What a client writes: the data of the messages up to the first of length 0.\<close>

definition client_output :: "string list \<Rightarrow> string" where
  "client_output msgs = concat (takeWhile (\<lambda>m. m \<noteq> []) msgs)"

lemma client_output_answer:
  "fs path = Some content \<Longrightarrow> NUL \<notin> set content \<Longrightarrow> client_output (server_answer fs err path) = content"
  using file_lines_exact [of content "MAXMESGDATA - 2"]
  by (simp add: client_output_def server_answer_def takeWhile_append2)

text \<open>
  The request "number blank pathname" of a client for what was typed on its standard input (a line, or more: what
  does not fit is not read), and its parser (\<open>strchr\<close>, \<open>atol\<close>).
\<close>

definition client_request :: "nat \<Rightarrow> string \<Rightarrow> string" where
  "client_request ident typed =
     (let start = show_nat ident @ [CHR '' ''];
          mesg_data = c_string (start @ fst (fgets (MAXMESGDATA - length start - 1) typed))
      in if last mesg_data = NL then butlast mesg_data else mesg_data)"

text \<open>The form of a request for a pathname that fits.\<close>

definition plain_request :: "nat \<Rightarrow> string \<Rightarrow> string" where
  "plain_request ident path = show_nat ident @ CHR '' '' # path"

definition parse_request :: "string \<Rightarrow> (int \<times> string) option" where
  "parse_request req =
     (let data = c_string req in
      if CHR '' '' \<notin> set data then None
      else Some (atoi_digits 0 (takeWhile (\<lambda>c. c \<noteq> CHR '' '') data), tl (dropWhile (\<lambda>c. c \<noteq> CHR '' '') data)))"

lemma fgets_line: "NL \<notin> set l \<Longrightarrow> length l \<le> n \<Longrightarrow> fst (fgets n (l @ [NL])) = (if length l = n then l else l @ [NL])"
proof (induction l arbitrary: n)
  case Nil
  then show ?case by (cases n) (simp_all add: Let_def)
next
  case (Cons c l)
  then show ?case by (cases n) (auto simp: Let_def split: prod.splits dest!: Cons.IH)
qed

text \<open>A pathname of one line fits when \<open>mesg_data\<close> holds it with the number, a blank and a 0.\<close>

definition path_fits :: "nat \<Rightarrow> string \<Rightarrow> bool" where
  "path_fits ident path \<longleftrightarrow> NUL \<notin> set path \<and> NL \<notin> set path \<and> length (show_nat ident) + length path + 2 \<le> MAXMESGDATA"

lemma client_request_plain:
  assumes "path_fits ident path"
  shows "client_request ident (path @ [NL]) = plain_request ident path"
proof -
  let ?start = "show_nat ident @ [CHR '' '']"
  let ?read = "fst (fgets (MAXMESGDATA - length ?start - 1) (path @ [NL]))"
  have read: "?read \<in> {path, path @ [NL]}"
  proof -
    have "length path \<le> MAXMESGDATA - length ?start - 1" "NL \<notin> set path" using assms by (auto simp: path_fits_def)
    then show ?thesis using fgets_line [of path "MAXMESGDATA - length ?start - 1"] by (simp del: length_append)
  qed
  have "NUL \<notin> set (?start @ ?read)"
    using read assms show_nat_plain [of NUL ident] by (auto simp: path_fits_def NUL_def NL_def)
  then have "c_string (?start @ ?read) = ?start @ ?read" by (auto simp: c_string_def takeWhile_eq_all_conv)
  moreover have "last (?start @ path) \<noteq> NL"
    using assms by (cases path rule: rev_cases) (auto simp: path_fits_def NL_def)
  ultimately show ?thesis using read unfolding client_request_def plain_request_def Let_def
    by (auto simp: butlast_append)
qed

lemma parse_plain_request:
  assumes "NUL \<notin> set path"
  shows "parse_request (plain_request ident path) = Some (int ident, path)"
proof -
  have "c_string (plain_request ident path) = plain_request ident path"
    using assms show_nat_plain [of _ ident] by (auto simp: c_string_def plain_request_def takeWhile_eq_all_conv NUL_def)
  moreover have "takeWhile (\<lambda>c. c \<noteq> CHR '' '') (plain_request ident path) = show_nat ident"
    "dropWhile (\<lambda>c. c \<noteq> CHR '' '') (plain_request ident path) = CHR '' '' # path"
    using show_nat_plain [of _ ident] by (auto simp: plain_request_def takeWhile_append dropWhile_append)
  ultimately show ?thesis by (simp add: parse_request_def atoi_show_nat Let_def) (simp add: plain_request_def)
qed

section \<open>One client, one server, two keys: svmsgcliserv and svmsgmpx1q\<close>

text \<open>\<open>msgrcv(id, \<dots>, type)\<close> with \<open>type\<close> > 0: the first message of that type; \<open>None\<close> when the call blocks.\<close>

fun msgrcv :: "nat \<Rightarrow> (nat \<times> string) list \<Rightarrow> (string \<times> (nat \<times> string) list) option" where
  "msgrcv type [] = None"
| "msgrcv type ((t, d) # q) =
     (if t = type then Some (d, q) else map_option (\<lambda>(d', q'). (d', (t, d) # q')) (msgrcv type q))"

datatype key = MQ_KEY1 | MQ_KEY2

datatype sv_client_at = ClientSends | ClientReads | ClientDone
datatype sv_server_at = ServerReads | ServerSends nat "string list" | ServerDone

record sv_state =
  queue1 :: "(nat \<times> string) list"
  queue2 :: "(nat \<times> string) list"
  cl_at :: sv_client_at
  srv_at :: sv_server_at
  cl_out :: string

text \<open>
  How a program calls \<open>client\<close> and \<open>server\<close>: their queues, the type the client receives, its request, and what
  the server makes of a message: \<open>None\<close>, or the type and the data of its answers.
\<close>

record sv_program =
  c_read :: key
  c_write :: key
  s_read :: key
  s_write :: key
  c_type :: nat
  request :: string
  serve :: "string \<Rightarrow> (nat \<times> string list) option"
  one_shot :: bool

definition queue_of :: "key \<Rightarrow> sv_state \<Rightarrow> (nat \<times> string) list" where
  "queue_of k st = (case k of MQ_KEY1 \<Rightarrow> queue1 st | MQ_KEY2 \<Rightarrow> queue2 st)"

definition set_queue :: "key \<Rightarrow> (nat \<times> string) list \<Rightarrow> sv_state \<Rightarrow> sv_state" where
  "set_queue k q st = (case k of MQ_KEY1 \<Rightarrow> st\<lparr>queue1 := q\<rparr> | MQ_KEY2 \<Rightarrow> st\<lparr>queue2 := q\<rparr>)"

definition msgsnd :: "key \<Rightarrow> nat \<times> string \<Rightarrow> sv_state \<Rightarrow> sv_state" where
  "msgsnd k m st = set_queue k (queue_of k st @ [m]) st"

definition sv_client :: "sv_program \<Rightarrow> sv_state \<Rightarrow> sv_state option" where
  "sv_client pr st = (case cl_at st of
     ClientSends \<Rightarrow> Some ((msgsnd (c_write pr) (1, request pr) st)\<lparr>cl_at := ClientReads\<rparr>)
   | ClientReads \<Rightarrow> map_option (\<lambda>(d, q). let st = set_queue (c_read pr) q st
        in if d = [] then st\<lparr>cl_at := ClientDone\<rparr> else st\<lparr>cl_out := cl_out st @ d\<rparr>) (msgrcv (c_type pr) (queue_of (c_read pr) st))
   | ClientDone \<Rightarrow> None)"

definition sv_server :: "sv_program \<Rightarrow> sv_state \<Rightarrow> sv_state option" where
  "sv_server pr st = (case srv_at st of
     ServerReads \<Rightarrow> map_option (\<lambda>(d, q). let st = set_queue (s_read pr) q st
        in case serve pr d of
            None \<Rightarrow> st\<lparr>srv_at := if one_shot pr then ServerDone else ServerReads\<rparr>
          | Some (t, ms) \<Rightarrow> st\<lparr>srv_at := ServerSends t ms\<rparr>) (msgrcv 1 (queue_of (s_read pr) st))
   | ServerSends t [] \<Rightarrow> Some (st\<lparr>srv_at := if one_shot pr then ServerDone else ServerReads\<rparr>)
   | ServerSends t (m # ms) \<Rightarrow> Some ((msgsnd (s_write pr) (t, m) st)\<lparr>srv_at := ServerSends t ms\<rparr>)
   | ServerDone \<Rightarrow> None)"

inductive sv_step :: "sv_program \<Rightarrow> sv_state \<Rightarrow> sv_state \<Rightarrow> bool" for pr where
  "sv_client pr st = Some st' \<Longrightarrow> sv_step pr st st'"
| "sv_server pr st = Some st' \<Longrightarrow> sv_step pr st st'"

inductive_cases sv_stepE: "sv_step pr st st'"

definition sv_start :: sv_state where
  "sv_start = \<lparr>queue1 = [], queue2 = [], cl_at = ClientSends, srv_at = ServerReads, cl_out = []\<rparr>"

text \<open>\<open>svmsgcliserv\<close>: the client has one queue, \<open>MQ_KEY1\<close>; the server answers on \<open>MQ_KEY2\<close>.\<close>

definition cliserv :: "(string \<Rightarrow> string option) \<Rightarrow> string \<Rightarrow> string \<Rightarrow> sv_program" where
  "cliserv fs err path = \<lparr>c_read = MQ_KEY1, c_write = MQ_KEY1, s_read = MQ_KEY1, s_write = MQ_KEY2, c_type = 1, request = path,
     serve = (\<lambda>d. if d = [] then None else Some (1, server_answer fs err (c_string d))), one_shot = True\<rparr>"

text \<open>\<open>svmsgmpx1q\<close>: the client reads from \<open>MQ_KEY2\<close>, the server answers on \<open>MQ_KEY1\<close> with the type \<open>pid\<close>.\<close>

definition mpx1q :: "(string \<Rightarrow> string option) \<Rightarrow> string \<Rightarrow> nat \<Rightarrow> string \<Rightarrow> sv_program" where
  "mpx1q fs err pid path = \<lparr>c_read = MQ_KEY2, c_write = MQ_KEY1, s_read = MQ_KEY1, s_write = MQ_KEY1, c_type = pid,
     request = client_request pid (path @ [NL]),
     serve = (\<lambda>d. if d = [] then None else map_option (\<lambda>(t, p). (nat t, server_answer fs err p)) (parse_request d)),
     one_shot = False\<rparr>"

lemmas sv_defs = sv_client_def sv_server_def msgsnd_def set_queue_def queue_of_def

definition cliserv_inv :: "string \<Rightarrow> sv_state \<Rightarrow> bool" where
  "cliserv_inv path st \<longleftrightarrow> cl_at st = ClientSends \<and> queue1 st = [] \<and> cl_out st = [] \<or>
     cl_at st = ClientReads \<and> (queue1 st = [(1, path)] \<and> cl_out st = [] \<or> queue1 st = [] \<and> cl_out st \<in> {[], path})"

interpretation cliserv: step_invariant "\<lambda>st. st = sv_start" "sv_step (cliserv fs err (c # path))" "cliserv_inv (c # path)" for fs err c path
proof
  show "cliserv_inv (c # path) st" if "st = sv_start" for st using that by (simp add: cliserv_inv_def sv_start_def)
  show "cliserv_inv (c # path) st'" if "cliserv_inv (c # path) st" "sv_step (cliserv fs err (c # path)) st st'" for st st'
    using that(2)
  proof (rule sv_stepE)
    assume "sv_client (cliserv fs err (c # path)) st = Some st'"
    then show ?thesis using that(1)
      by (cases "cl_at st") (auto simp: sv_defs cliserv_def cliserv_inv_def Let_def)
  next
    assume "sv_server (cliserv fs err (c # path)) st = Some st'"
    then show ?thesis using that(1)
      by (auto simp: sv_defs cliserv_def cliserv_inv_def Let_def split: sv_server_at.splits list.splits)
  qed
qed

definition mpx1q_inv :: "sv_state \<Rightarrow> bool" where
  "mpx1q_inv st \<longleftrightarrow> cl_at st \<noteq> ClientDone \<and> queue2 st = [] \<and> cl_out st = []"

interpretation mpx1q: step_invariant "\<lambda>st. st = sv_start" "sv_step (mpx1q fs err pid path)" mpx1q_inv for fs err pid path
proof
  show "mpx1q_inv st" if "st = sv_start" for st using that by (simp add: mpx1q_inv_def sv_start_def)
  show "mpx1q_inv st'" if "mpx1q_inv st" "sv_step (mpx1q fs err pid path) st st'" for st st'
    using that(2)
  proof (rule sv_stepE)
    assume "sv_client (mpx1q fs err pid path) st = Some st'"
    then show ?thesis using that(1) by (cases "cl_at st") (auto simp: sv_defs mpx1q_def mpx1q_inv_def)
  next
    assume "sv_server (mpx1q fs err pid path) st = Some st'"
    then show ?thesis using that(1)
      by (auto simp: sv_defs mpx1q_def mpx1q_inv_def Let_def split: sv_server_at.splits list.splits option.splits)
  qed
qed

text \<open>
  For every file system and pathname, in every interleaving: the client of \<open>svmsgcliserv\<close> never ends, and writes
  nothing but, at most, its own request, which it can take back from the queue before the server sees it; the
  client of \<open>svmsgmpx1q\<close> never ends and writes nothing.
\<close>

theorem sv_clients_unanswered:
  "\<not> (\<exists>fs err c path st. reachable (\<lambda>st. st = sv_start) (sv_step (cliserv fs err (c # path))) st \<and>
        \<not> (cl_at st \<in> {ClientSends, ClientReads} \<and> cl_out st \<in> {[], c # path})) \<and>
   (\<exists>st. reachable (\<lambda>st. st = sv_start) (sv_step (cliserv fs err (c # path))) st \<and> cl_out st = c # path \<and> queue1 st = [] \<and> srv_at st = ServerReads) \<and>
   \<not> (\<exists>fs err pid path st. reachable (\<lambda>st. st = sv_start) (sv_step (mpx1q fs err pid path)) st \<and>
        \<not> (cl_at st \<in> {ClientSends, ClientReads} \<and> cl_out st = []))"
proof (intro conjI)
  show "\<not> (\<exists>fs err c path st. reachable (\<lambda>st. st = sv_start) (sv_step (cliserv fs err (c # path))) st \<and>
        \<not> (cl_at st \<in> {ClientSends, ClientReads} \<and> cl_out st \<in> {[], c # path}))"
  proof (intro notI, elim exE conjE)
    fix fs err c path st
    assume r: "reachable (\<lambda>st. st = sv_start) (sv_step (cliserv fs err (c # path))) st"
      and n: "\<not> (cl_at st \<in> {ClientSends, ClientReads} \<and> cl_out st \<in> {[], c # path})"
    have "cliserv_inv (c # path) st" by (rule cliserv.reachable_inv [OF r])
    then show False using n by (auto simp: cliserv_inv_def)
  qed
  show "\<not> (\<exists>fs err pid path st. reachable (\<lambda>st. st = sv_start) (sv_step (mpx1q fs err pid path)) st \<and>
        \<not> (cl_at st \<in> {ClientSends, ClientReads} \<and> cl_out st = []))"
  proof (intro notI, elim exE conjE)
    fix fs err pid path st
    assume r: "reachable (\<lambda>st. st = sv_start) (sv_step (mpx1q fs err pid path)) st"
      and n: "\<not> (cl_at st \<in> {ClientSends, ClientReads} \<and> cl_out st = [])"
    have "mpx1q_inv st" by (rule mpx1q.reachable_inv [OF r])
    then show False using n by (cases "cl_at st") (simp_all add: mpx1q_inv_def)
  qed
  let ?pr = "cliserv fs err (c # path)" and ?s1 = "sv_start\<lparr>queue1 := [(1, c # path)], cl_at := ClientReads\<rparr>"
  have "sv_client ?pr sv_start = Some ?s1" by (simp add: sv_defs cliserv_def sv_start_def)
  moreover have "sv_client ?pr ?s1 = Some (sv_start\<lparr>cl_at := ClientReads, cl_out := c # path\<rparr>)"
    by (simp add: sv_defs cliserv_def sv_start_def)
  ultimately have "sv_step ?pr sv_start ?s1" "sv_step ?pr ?s1 (sv_start\<lparr>cl_at := ClientReads, cl_out := c # path\<rparr>)"
    by (auto intro: sv_step.intros)
  then have "reachable (\<lambda>st. st = sv_start) (sv_step ?pr) (sv_start\<lparr>cl_at := ClientReads, cl_out := c # path\<rparr>)"
    by (intro reach_step [OF reach_step [OF reachable_start]])
  then show "\<exists>st. reachable (\<lambda>st. st = sv_start) (sv_step ?pr) st \<and> cl_out st = c # path \<and> queue1 st = [] \<and> srv_at st = ServerReads"
    by (intro exI [of _ "sv_start\<lparr>cl_at := ClientReads, cl_out := c # path\<rparr>"] conjI) (simp_all add: sv_start_def)
qed

section \<open>A queue for each client: svmsgmpxnq\<close>

text \<open>
  Each client makes a private queue; its identifier (here the number of the client) is in the request, and the
  server forks a child for each request, which sends the answer into that queue.  \<open>received\<close> is ghost state.
\<close>

record nq_client =
  cl_path :: string
  nq_at :: sv_client_at
  private_queue :: "string list"
  shown :: string
  received :: "string list"

record nq_state =
  server_queue :: "string list"
  nq_clients :: "nat \<Rightarrow> nq_client"
  children :: "(nat \<times> string list) list"

definition nq_start :: "(nat \<Rightarrow> string) \<Rightarrow> nq_state" where
  "nq_start paths = \<lparr>server_queue = [],
     nq_clients = (\<lambda>c. \<lparr>cl_path = paths c, nq_at = ClientSends, private_queue = [], shown = [], received = []\<rparr>),
     children = []\<rparr>"

definition upd_client :: "nat \<Rightarrow> nq_client \<Rightarrow> nq_state \<Rightarrow> nq_state" where
  "upd_client c cl st = st\<lparr>nq_clients := (nq_clients st)(c := cl)\<rparr>"

definition mpxnq_client :: "nat \<Rightarrow> nq_state \<Rightarrow> nq_state option" where
  "mpxnq_client c st = (let cl = nq_clients st c in case nq_at cl of
     ClientSends \<Rightarrow> Some (upd_client c (cl\<lparr>nq_at := ClientReads\<rparr>) (st\<lparr>server_queue := server_queue st @ [client_request c (cl_path cl @ [NL])]\<rparr>))
   | ClientReads \<Rightarrow> (case private_queue cl of [] \<Rightarrow> None
       | m # ms \<Rightarrow> Some (upd_client c (if m = [] then cl\<lparr>private_queue := ms, received := received cl @ [m], nq_at := ClientDone\<rparr>
            else cl\<lparr>private_queue := ms, received := received cl @ [m], shown := shown cl @ m\<rparr>) st))
   | ClientDone \<Rightarrow> None)"

definition mpxnq_server :: "(string \<Rightarrow> string option) \<Rightarrow> string \<Rightarrow> nq_state \<Rightarrow> nq_state option" where
  "mpxnq_server fs err st = (case server_queue st of [] \<Rightarrow> None
     | d # q \<Rightarrow> let st = st\<lparr>server_queue := q\<rparr> in
         if d = [] then Some st
         else case parse_request d of None \<Rightarrow> Some st
           | Some (writeid, p) \<Rightarrow> Some (st\<lparr>children := children st @ [(nat writeid, server_answer fs err p)]\<rparr>))"

definition mpxnq_child :: "nat \<Rightarrow> nq_state \<Rightarrow> nq_state option" where
  "mpxnq_child i st =
     (if length (children st) \<le> i then None
      else case children st ! i of (c, []) \<Rightarrow> None
        | (c, m # ms) \<Rightarrow> let cl = nq_clients st c in
            Some (upd_client c (cl\<lparr>private_queue := private_queue cl @ [m]\<rparr>) (st\<lparr>children := (children st)[i := (c, ms)]\<rparr>)))"

inductive nq_step :: "nat \<Rightarrow> (string \<Rightarrow> string option) \<Rightarrow> string \<Rightarrow> nq_state \<Rightarrow> nq_state \<Rightarrow> bool" for n fs err where
  nq_client_step: "c < n \<Longrightarrow> mpxnq_client c st = Some st' \<Longrightarrow> nq_step n fs err st st'"
| nq_server_step: "mpxnq_server fs err st = Some st' \<Longrightarrow> nq_step n fs err st st'"
| nq_child_step: "mpxnq_child i st = Some st' \<Longrightarrow> nq_step n fs err st st'"

inductive_cases nq_stepE: "nq_step n fs err st st'"

text \<open>
  The answer of a client is at any time in three parts: received, in its queue, and still to be sent by its child
  (or all to come, while its request waits); \<open>cs\<close> are the clients whose requests wait.
\<close>

definition to_send :: "(string \<Rightarrow> string list) \<Rightarrow> nat list \<Rightarrow> nq_state \<Rightarrow> nat \<Rightarrow> string list" where
  "to_send answer cs st c =
     (if c \<in> set cs then answer (cl_path (nq_clients st c))
      else case map_of (children st) c of None \<Rightarrow> [] | Some ms \<Rightarrow> ms)"

definition client_parts :: "(string \<Rightarrow> string list) \<Rightarrow> nat list \<Rightarrow> nq_state \<Rightarrow> nat \<Rightarrow> bool" where
  "client_parts answer cs st c \<longleftrightarrow> (let cl = nq_clients st c in
     shown cl = concat (received cl) \<and>
     (nq_at cl = ClientSends \<longrightarrow> c \<notin> set cs \<and> map_of (children st) c = None \<and> received cl = [] \<and> private_queue cl = []) \<and>
     (nq_at cl \<noteq> ClientSends \<longrightarrow> received cl @ private_queue cl @ to_send answer cs st c = answer (cl_path cl)) \<and>
     (nq_at cl = ClientDone \<longleftrightarrow> [] \<in> set (received cl)))"

definition nq_inv :: "(string \<Rightarrow> string list) \<Rightarrow> (nat \<Rightarrow> string) \<Rightarrow> nat list \<Rightarrow> nq_state \<Rightarrow> bool" where
  "nq_inv answer paths cs st \<longleftrightarrow>
     server_queue st = map (\<lambda>c. client_request c (paths c @ [NL])) cs \<and> distinct cs \<and>
     distinct (map fst (children st)) \<and> set cs \<inter> set (map fst (children st)) = {} \<and>
     (\<forall>c. cl_path (nq_clients st c) = paths c) \<and> (\<forall>c. client_parts answer cs st c)"

lemma map_of_update:
  "i < length xs \<Longrightarrow> distinct (map fst xs) \<Longrightarrow> fst (xs ! i) = c \<Longrightarrow>
     map_of (xs[i := (c, v)]) = (map_of xs)(c \<mapsto> v) \<and> map fst (xs[i := (c, v)]) = map fst xs"
proof (induction xs arbitrary: i)
  case (Cons x xs)
  show ?case
  proof (cases i)
    case 0
    then show ?thesis using Cons.prems by (cases x) auto
  next
    case (Suc j)
    then have "fst x \<noteq> c" using Cons.prems nth_mem [of j "map fst xs"] by (auto simp: image_iff)
    then show ?thesis using Cons Suc by (cases x) (auto simp: fun_upd_twist)
  qed
qed simp

lemma map_of_nth_distinct: "i < length xs \<Longrightarrow> distinct (map fst xs) \<Longrightarrow> map_of xs (fst (xs ! i)) = Some (snd (xs ! i))"
  by (metis map_of_eq_Some_iff nth_mem prod.collapse)

lemma nq_client_inv:
  assumes "mpxnq_client c st = Some st'" "nq_inv answer paths cs st"
  shows "\<exists>cs'. nq_inv answer paths cs' st' \<and> set cs' \<subseteq> insert c (set cs)"
proof -
  let ?cl = "nq_clients st c"
  have parts: "client_parts answer cs st c'" for c' using assms(2) by (simp add: nq_inv_def)
  show ?thesis
  proof (cases "nq_at ?cl")
    case ClientSends
    then have st': "st' = upd_client c (?cl\<lparr>nq_at := ClientReads\<rparr>) (st\<lparr>server_queue := server_queue st @ [client_request c (cl_path ?cl @ [NL])]\<rparr>)"
      using assms(1) by (simp add: mpxnq_client_def Let_def)
    have c: "c \<notin> set cs" "map_of (children st) c = None" using parts [of c] ClientSends by (auto simp: client_parts_def Let_def)
    have "client_parts answer (cs @ [c]) st' c'" for c'
      using parts [of c'] c st' ClientSends by (auto simp: client_parts_def to_send_def upd_client_def Let_def)
    then have "nq_inv answer paths (cs @ [c]) st'" using assms(2) c st'
      by (auto simp: nq_inv_def upd_client_def map_of_eq_None_iff)
    then show ?thesis by (intro exI [of _ "cs @ [c]"]) auto
  next
    case ClientReads
    then obtain m ms where m: "private_queue ?cl = m # ms"
      using assms(1) by (auto simp: mpxnq_client_def Let_def split: list.splits)
    then have st': "st' = upd_client c (if m = [] then ?cl\<lparr>private_queue := ms, received := received ?cl @ [m], nq_at := ClientDone\<rparr>
            else ?cl\<lparr>private_queue := ms, received := received ?cl @ [m], shown := shown ?cl @ m\<rparr>) st"
      using assms(1) ClientReads by (simp add: mpxnq_client_def Let_def)
    have "client_parts answer cs st' c'" for c'
      using parts [of c'] m st' ClientReads by (auto simp: client_parts_def to_send_def upd_client_def Let_def)
    then have "nq_inv answer paths cs st'" using assms(2) st' by (auto simp: nq_inv_def upd_client_def)
    then show ?thesis by blast
  qed (use assms(1) in \<open>simp add: mpxnq_client_def\<close>)
qed

lemma nq_server_inv:
  assumes "mpxnq_server fs err st = Some st'" "nq_inv (server_answer fs err) paths cs st" "\<And>c. c \<in> set cs \<Longrightarrow> path_fits c (paths c)"
  shows "\<exists>cs'. nq_inv (server_answer fs err) paths cs' st' \<and> set cs' \<subseteq> set cs"
proof -
  obtain c cs' where cs: "cs = c # cs'" "server_queue st = client_request c (paths c @ [NL]) # map (\<lambda>c. client_request c (paths c @ [NL])) cs'"
    using assms(1,2) by (cases cs) (auto simp: mpxnq_server_def nq_inv_def)
  have fits: "path_fits c (paths c)" using assms(3) cs(1) by simp
  then have "client_request c (paths c @ [NL]) \<noteq> []" using client_request_plain by (simp add: plain_request_def)
  then have st': "st' = st\<lparr>server_queue := map (\<lambda>c. client_request c (paths c @ [NL])) cs',
      children := children st @ [(c, server_answer fs err (paths c))]\<rparr>"
    using assms(1) cs(2) client_request_plain [OF fits] parse_plain_request [of "paths c" c] fits
    by (simp add: mpxnq_server_def path_fits_def Let_def)
  have parts: "client_parts (server_answer fs err) cs st c'" for c' using assms(2) by (simp add: nq_inv_def)
  have new: "map_of (children st) c = None" "c \<notin> set cs'" "cl_path (nq_clients st c) = paths c"
    using assms(2) cs(1) by (auto simp: nq_inv_def map_of_eq_None_iff)
  have "client_parts (server_answer fs err) cs' st' c'" for c'
    using parts [of c'] cs(1) st' new
    by (auto simp: client_parts_def to_send_def Let_def map_add_def split: option.splits)
  then have "nq_inv (server_answer fs err) paths cs' st'" using assms(2) st' cs(1) by (auto simp: nq_inv_def)
  with cs(1) show ?thesis by (intro exI [of _ cs']) auto
qed

lemma nq_child_inv:
  assumes "mpxnq_child i st = Some st'" "nq_inv answer paths cs st"
  shows "nq_inv answer paths cs st'"
proof -
  obtain c m ms where i: "i < length (children st)" "children st ! i = (c, m # ms)"
    using assms(1) by (auto simp: mpxnq_child_def split: if_splits prod.splits list.splits)
  let ?cl = "nq_clients st c"
  have st': "st' = upd_client c (?cl\<lparr>private_queue := private_queue ?cl @ [m]\<rparr>) (st\<lparr>children := (children st)[i := (c, ms)]\<rparr>)"
    using assms(1) i by (simp add: mpxnq_child_def Let_def)
  have d: "distinct (map fst (children st))" using assms(2) by (simp add: nq_inv_def)
  have ch: "map_of (children st') = (map_of (children st))(c \<mapsto> ms)" "map fst (children st') = map fst (children st)"
    using map_of_update [OF i(1) d, of c ms] i(2) st' by (simp_all add: upd_client_def)
  have old: "map_of (children st) c = Some (m # ms)" using map_of_nth_distinct [OF i(1) d] i(2) by simp
  then have "c \<in> set (map fst (children st))" by (metis list.set_map map_of_SomeD fst_conv image_eqI)
  then have cs: "c \<notin> set cs" using assms(2) by (auto simp: nq_inv_def)
  have parts: "client_parts answer cs st c'" for c' using assms(2) by (simp add: nq_inv_def)
  have "client_parts answer cs st' c'" for c'
    using parts [of c'] ch(1) old cs st' by (auto simp: client_parts_def to_send_def upd_client_def Let_def)
  then show ?thesis using assms(2) st' ch(2) by (auto simp: nq_inv_def upd_client_def)
qed

lemma nq_reachable_inv:
  assumes "\<And>c. c < n \<Longrightarrow> path_fits c (paths c)" "reachable (\<lambda>st. st = nq_start paths) (nq_step n fs err) st"
  shows "\<exists>cs. nq_inv (server_answer fs err) paths cs st \<and> set cs \<subseteq> {..<n}"
  using assms(2)
proof (induction rule: reachable.induct)
  case (reach_init s)
  then have "nq_inv (server_answer fs err) paths [] s"
    by (simp add: nq_inv_def nq_start_def client_parts_def to_send_def Let_def)
  then show ?case by (intro exI [of _ "[]"]) simp
next
  case (reach_step s t)
  from reach_step.IH obtain cs where cs: "nq_inv (server_answer fs err) paths cs s" "set cs \<subseteq> {..<n}" by blast
  then have fits: "path_fits c (paths c)" if "c \<in> set cs" for c using assms(1) that by blast
  show ?case using reach_step.hyps(2)
  proof (rule nq_stepE)
    show ?thesis if "c < n" "mpxnq_client c s = Some t" for c
    proof -
      from nq_client_inv [OF that(2) cs(1)] obtain cs' where "nq_inv (server_answer fs err) paths cs' t"
        "set cs' \<subseteq> insert c (set cs)" by blast
      with cs(2) that(1) show ?thesis by (intro exI [of _ cs']) auto
    qed
    show ?thesis if "mpxnq_server fs err s = Some t"
      using nq_server_inv [OF that cs(1) fits] cs(2) by blast
    show ?thesis if "mpxnq_child i s = Some t" for i using nq_child_inv [OF that cs(1)] cs(2) by blast
  qed
qed

text \<open>When nobody can go on, every client has the whole answer.\<close>

lemma nq_waits:
  assumes "nq_inv (server_answer fs err) paths cs st" "\<And>st'. \<not> nq_step n fs err st st'" "c < n"
  shows "nq_at (nq_clients st c) = ClientDone"
proof (rule ccontr)
  assume nd: "nq_at (nq_clients st c) \<noteq> ClientDone"
  have srv: "server_queue st = []"
  proof (rule ccontr)
    assume "server_queue st \<noteq> []"
    then have "mpxnq_server fs err st \<noteq> None"
      by (auto simp: mpxnq_server_def Let_def split: list.splits option.splits)
    then show False using assms(2) nq_server_step by blast
  qed
  then have cs: "cs = []" using assms(1) by (simp add: nq_inv_def)
  have "mpxnq_client c st = None" using assms(2,3) nq_client_step by (meson not_None_eq)
  then have cl: "nq_at (nq_clients st c) = ClientReads" "private_queue (nq_clients st c) = []"
    using nd by (auto simp: mpxnq_client_def Let_def split: sv_client_at.splits list.splits if_splits)
  have "to_send (server_answer fs err) cs st c = []"
  proof (cases "map_of (children st) c")
    case (Some ms)
    then obtain i where i: "i < length (children st)" "children st ! i = (c, ms)"
      by (metis in_set_conv_nth map_of_SomeD)
    have "mpxnq_child i st = None" using assms(2) nq_child_step by (meson not_None_eq)
    then have "ms = []" using i by (cases ms) (auto simp: mpxnq_child_def Let_def)
    then show ?thesis using Some cs by (simp add: to_send_def)
  qed (simp add: to_send_def cs)
  moreover have "client_parts (server_answer fs err) cs st c" "cl_path (nq_clients st c) = paths c"
    using assms(1) by (simp_all add: nq_inv_def)
  ultimately have "received (nq_clients st c) = server_answer fs err (paths c)"
    using cl by (simp add: client_parts_def Let_def)
  then have "[] \<in> set (received (nq_clients st c))" by (simp add: server_answer_def)
  then show False using nd assms(1) by (simp add: nq_inv_def client_parts_def Let_def)
qed

text \<open>
  C31: \<open>svmsgmpxnq\<close> with \<open>n\<close> clients whose pathnames fit into a request (\<open>path_fits\<close>) and name files that exist and
  have no 0 byte, in every interleaving of clients, server and its children: each client writes a beginning of the
  file it asked for, ends only with the whole of it, and when nobody can go on every client has ended.
\<close>

theorem mpxnq_serves:
  assumes "\<And>c. c < n \<Longrightarrow> path_fits c (paths c)" "\<And>c. c < n \<Longrightarrow> \<exists>s. fs (paths c) = Some s \<and> NUL \<notin> set s"
    and "reachable (\<lambda>st. st = nq_start paths) (nq_step n fs err) st" "c < n"
  shows "\<exists>rest. shown (nq_clients st c) @ rest = the (fs (paths c)) \<and>
      (nq_at (nq_clients st c) = ClientDone \<longrightarrow> rest = []) \<and>
      ((\<exists>st'. nq_step n fs err st st') \<or> nq_at (nq_clients st c) = ClientDone)"
proof -
  obtain cs where inv: "nq_inv (server_answer fs err) paths cs st" using nq_reachable_inv [OF assms(1,3)] by blast
  then have parts: "client_parts (server_answer fs err) cs st c" "cl_path (nq_clients st c) = paths c"
    by (simp_all add: nq_inv_def)
  obtain s where s: "fs (paths c) = Some s" "NUL \<notin> set s" using assms(2,4) by blast
  have ans: "server_answer fs err (paths c) = file_lines (MAXMESGDATA - 2) s @ [[]]" using s by (simp add: server_answer_def)
  have lines: "concat (file_lines (MAXMESGDATA - 2) s) = s" "\<forall>l \<in> set (file_lines (MAXMESGDATA - 2) s). l \<noteq> []"
    using file_lines_exact [OF s(2)] by auto
  have out: "shown (nq_clients st c) = concat (received (nq_clients st c))" using parts(1) by (simp add: client_parts_def Let_def)
  have wait: "(\<exists>st'. nq_step n fs err st st') \<or> nq_at (nq_clients st c) = ClientDone"
    using nq_waits [OF inv _ assms(4)] by blast
  show ?thesis
  proof (cases "nq_at (nq_clients st c) = ClientSends")
    case True
    then show ?thesis using parts out s(1) wait by (auto simp: client_parts_def Let_def)
  next
    case False
    then obtain more where more: "received (nq_clients st c) @ more = file_lines (MAXMESGDATA - 2) s @ [[]]"
      using parts ans by (auto simp: client_parts_def Let_def)
    have "concat (received (nq_clients st c)) @ concat more = s" using arg_cong [OF more, of concat] lines(1) by simp
    moreover have "concat more = []" if finished: "nq_at (nq_clients st c) = ClientDone"
    proof -
      have "[] \<in> set (received (nq_clients st c))" using parts(1) finished by (simp add: client_parts_def Let_def)
      moreover have "[] \<notin> set (received (nq_clients st c))" if "length (received (nq_clients st c)) \<le> length (file_lines (MAXMESGDATA - 2) s)"
      proof -
        have "received (nq_clients st c) = take (length (received (nq_clients st c))) (file_lines (MAXMESGDATA - 2) s)"
          using more that by (metis append_eq_append_conv_if)
        then show ?thesis using lines(2) in_set_takeD by metis
      qed
      ultimately have "length (file_lines (MAXMESGDATA - 2) s) < length (received (nq_clients st c))" by fastforce
      then have "more = []" using arg_cong [OF more, of length] by (cases more) auto
      then show ?thesis by simp
    qed
    ultimately show ?thesis using out s(1) wait by auto
  qed
qed

text \<open>A schedule: clients, the server, children.\<close>

datatype nq_actor = Client nat | Server | Child nat

definition nq_act :: "nat \<Rightarrow> (string \<Rightarrow> string option) \<Rightarrow> string \<Rightarrow> nq_actor \<Rightarrow> nq_state \<Rightarrow> nq_state option" where
  "nq_act n fs err a st = (case a of
     Client c \<Rightarrow> if c < n then mpxnq_client c st else None
   | Server \<Rightarrow> mpxnq_server fs err st
   | Child i \<Rightarrow> mpxnq_child i st)"

fun nq_script :: "nat \<Rightarrow> (string \<Rightarrow> string option) \<Rightarrow> string \<Rightarrow> nq_actor list \<Rightarrow> nq_state \<Rightarrow> nq_state option" where
  "nq_script n fs err [] st = Some st"
| "nq_script n fs err (a # as) st = (case nq_act n fs err a st of None \<Rightarrow> None | Some st' \<Rightarrow> nq_script n fs err as st')"

lemma nq_script_reachable:
  "nq_script n fs err as st = Some st' \<Longrightarrow> reachable init (nq_step n fs err) st \<Longrightarrow> reachable init (nq_step n fs err) st'"
proof (induction "as" arbitrary: st)
  case (Cons a "as")
  then obtain st1 where st1: "nq_act n fs err a st = Some st1" "nq_script n fs err as st1 = Some st'" by (auto split: option.splits)
  then have "nq_step n fs err st st1" by (cases a) (auto simp: nq_act_def intro: nq_step.intros split: if_splits)
  then show ?case by (intro Cons.IH [OF st1(2)] reach_step [OF Cons.prems(2)])
qed simp

definition nq_example_fs :: "string \<Rightarrow> string option" where
  "nq_example_fs p = Some (p @ [NL])"

lemma mpxnq_serves_witness:
  "\<exists>st rest. nq_script 2 nq_example_fs [] [Client 1, Client 0, Server, Child 0, Server, Client 1] (nq_start (\<lambda>c. ''f'')) = Some st \<and>
     shown (nq_clients st 1) = ''f'' @ [NL] \<and> shown (nq_clients st 1) @ rest = ''f'' @ [NL]"
proof -
  have "case nq_script 2 nq_example_fs [] [Client 1, Client 0, Server, Child 0, Server, Client 1] (nq_start (\<lambda>c. ''f'')) of
      None \<Rightarrow> False | Some st \<Rightarrow> shown (nq_clients st 1) = ''f'' @ [NL]" by code_simp
  from case_option_Some [OF this] obtain st where
    st: "nq_script 2 nq_example_fs [] [Client 1, Client 0, Server, Child 0, Server, Client 1] (nq_start (\<lambda>c. ''f'')) = Some st"
      "shown (nq_clients st 1) = ''f'' @ [NL]" by blast
  have "\<exists>rest. shown (nq_clients st 1) @ rest = the (nq_example_fs ''f'') \<and>
      (nq_at (nq_clients st 1) = ClientDone \<longrightarrow> rest = []) \<and>
      ((\<exists>st'. nq_step 2 nq_example_fs [] st st') \<or> nq_at (nq_clients st 1) = ClientDone)"
    by (rule mpxnq_serves [OF _ _ nq_script_reachable [OF st(1) reachable_start]])
      (simp_all add: nq_example_fs_def NUL_def NL_def path_fits_def MAXMESGDATA_def show_nat.simps)
  with st show ?thesis by (auto simp: nq_example_fs_def)
qed

end
