(* ===== verification/PipeServers.thy ===== *)
theory PipeServers
  imports FileServers
begin

text \<open>
  The file servers over pipes and FIFOs, \<open>example/unix_network/example\<close>: the message format of \<open>pipemesg\<close>, the
  descriptors of \<open>pipe/mainpipe.cpp\<close>, and the server and client of \<open>fifocliserv\<close>.
\<close>

section \<open>pipemesg: messages in a byte stream\<close>

text \<open>\<open>struct mymesg\<close>: two \<open>long\<close>s in the order of the host, then the data.\<close>

record mymesg =
  mesg_len :: "64 word"
  mesg_type :: "64 word"
  mesg_data :: "byte list"

definition MESGHDRSIZE :: nat where
  "MESGHDRSIZE = 16"

fun le_bytes :: "nat \<Rightarrow> nat \<Rightarrow> byte list" where
  "le_bytes 0 n = []"
| "le_bytes (Suc k) n = word_of_nat n # le_bytes k (n div 256)"

fun le_value :: "byte list \<Rightarrow> nat" where
  "le_value [] = 0"
| "le_value (b # bs) = unat b + 256 * le_value bs"

lemma le_bytes_length [simp]: "length (le_bytes k n) = k"
  by (induction k arbitrary: n) auto

lemma le_value_bytes: "le_value (le_bytes k n) = n mod 256 ^ k"
proof (induction k arbitrary: n)
  case (Suc k)
  have "unat (word_of_nat n :: byte) = n mod 256" by (simp add: unat_of_nat)
  then show ?case using Suc by (simp add: mod_mult2_eq)
qed simp

definition long_bytes :: "64 word \<Rightarrow> byte list" where
  "long_bytes w = le_bytes 8 (unat w)"

definition bytes_long :: "byte list \<Rightarrow> 64 word" where
  "bytes_long bs = word_of_nat (le_value bs)"

lemma long_bytes_length [simp]: "length (long_bytes w) = 8"
  by (simp add: long_bytes_def)

lemma long_bytes_nonempty [simp]: "long_bytes w \<noteq> []"
  using long_bytes_length [of w] by (metis list.size(3) zero_neq_numeral)

lemma bytes_long_bytes [simp]: "bytes_long (long_bytes w) = w"
proof -
  have "unat w < 256 ^ 8" by (rule order_less_le_trans [OF unsigned_less]) simp
  then show ?thesis by (simp add: long_bytes_def bytes_long_def le_value_bytes del: power_numeral)
qed

definition mesg_bytes :: "mymesg \<Rightarrow> byte list" where
  "mesg_bytes m = long_bytes (mesg_len m) @ long_bytes (mesg_type m) @ mesg_data m"

text \<open>
  \<open>mesg_send\<close>: what goes into the FIFO, and what \<open>write\<close> returns: everything, or -1 (\<open>ok\<close> false); writes of at
  most \<open>PIPE_BUF\<close> bytes are not divided.
\<close>

definition mesg_send :: "bool \<Rightarrow> mymesg \<Rightarrow> byte list \<Rightarrow> int \<times> byte list" where
  "mesg_send ok m fifo =
     (let n = MESGHDRSIZE + unat (mesg_len m)
      in if ok then (int n, fifo @ take n (mesg_bytes m)) else (- 1, fifo))"

datatype 'a outcome = Returns 'a | ErrQuit | Undefined

definition Mesg_send :: "bool \<Rightarrow> mymesg \<Rightarrow> byte list \<Rightarrow> byte list outcome" where
  "Mesg_send ok m fifo = (let (n, fifo') = mesg_send ok m fifo
     in if n \<noteq> sint (mesg_len m) then ErrQuit else Returns fifo')"

text \<open>
  \<open>Read\<close> returns what is there, at most the size asked for; \<open>mesg_recv\<close> ends without a \<open>return\<close> for a length of 0,
  and a length above the size of \<open>mesg_data\<close> overruns it.
\<close>

definition mesg_recv :: "byte list \<Rightarrow> (nat \<times> mymesg option \<times> byte list) outcome" where
  "mesg_recv fifo =
     (let hdr = take MESGHDRSIZE fifo; fifo1 = drop MESGHDRSIZE fifo in
      if hdr = [] then Returns (0, None, fifo)
      else if length hdr \<noteq> MESGHDRSIZE then ErrQuit
      else let len = unat (bytes_long (take 8 hdr)); data = take len fifo1 in
        if len > 0 then
          if length data > MAXMESGDATA then Undefined
          else if length data \<noteq> len then ErrQuit
          else Returns (len, Some \<lparr>mesg_len = bytes_long (take 8 hdr), mesg_type = bytes_long (drop 8 hdr), mesg_data = data\<rparr>, drop len fifo1)
        else Undefined)"

definition mesg_ok :: "mymesg \<Rightarrow> bool" where
  "mesg_ok m \<longleftrightarrow> unat (mesg_len m) = length (mesg_data m) \<and> length (mesg_data m) \<le> MAXMESGDATA"

lemma mesg_recv_send:
  assumes "mesg_ok m" "mesg_send True m [] = (n, bytes)"
  shows "mesg_recv (bytes @ rest) =
    (if mesg_data m = [] then Undefined else Returns (length (mesg_data m), Some m, rest))"
proof -
  have "bytes = mesg_bytes m"
    using assms by (simp add: mesg_send_def mesg_ok_def mesg_bytes_def MESGHDRSIZE_def Let_def)
  then have b: "bytes @ rest = long_bytes (mesg_len m) @ long_bytes (mesg_type m) @ mesg_data m @ rest"
    by (simp add: mesg_bytes_def)
  show ?thesis unfolding b using assms(1)
    by (auto simp: mesg_recv_def MESGHDRSIZE_def mesg_ok_def Let_def)
qed

text \<open>
  A message written by \<open>mesg_send\<close> is read back by \<open>mesg_recv\<close> whole, and leaves the rest of the stream, except
  that the message of length 0 that ends an answer makes \<open>mesg_recv\<close> run off its end.  \<open>Mesg_send\<close> compares what
  \<open>write\<close> returns with the length without the header, and so ends the program after every message, sent or not.
\<close>

theorem pipemesg_messages:
  assumes "mesg_ok m"
  shows "mesg_recv (snd (mesg_send True m []) @ rest) =
      (if mesg_data m = [] then Undefined else Returns (length (mesg_data m), Some m, rest)) \<and>
    Mesg_send ok m fifo = ErrQuit"
proof
  show "mesg_recv (snd (mesg_send True m []) @ rest) =
      (if mesg_data m = [] then Undefined else Returns (length (mesg_data m), Some m, rest))"
    by (rule mesg_recv_send [OF assms]) (simp add: prod_eq_iff)
  have long_of_nat: "sint (word_of_nat k :: 64 word) = int k" if "k < 2 ^ 63" for k
    using that by (simp add: signed_of_nat signed_take_bit_int_eq_self)
  have "unat (mesg_len m) = length (mesg_data m)" "length (mesg_data m) < 2 ^ 63"
    using assms by (simp_all add: mesg_ok_def MAXMESGDATA_def)
  moreover have "(word_of_nat (unat (mesg_len m)) :: 64 word) = mesg_len m" by simp
  ultimately have "sint (mesg_len m) = int (length (mesg_data m))" "unat (mesg_len m) = length (mesg_data m)"
    using long_of_nat [of "length (mesg_data m)"] by metis+
  then show "Mesg_send ok m fifo = ErrQuit"
    by (simp add: Mesg_send_def mesg_send_def MESGHDRSIZE_def Let_def)
qed

definition hello_mesg :: mymesg where
  "hello_mesg = \<lparr>mesg_len = 2, mesg_type = 1, mesg_data = [104, 105]\<rparr>"

lemma pipemesg_messages_witness:
  "mesg_recv (snd (mesg_send True hello_mesg []) @ [7]) = Returns (2, Some hello_mesg, [7]) \<and> Mesg_send True hello_mesg [] = ErrQuit"
  using pipemesg_messages [of hello_mesg "[7]" True "[]"]
  by (simp add: mesg_ok_def hello_mesg_def MAXMESGDATA_def)

section \<open>pipe: which descriptors the processes hold\<close>

datatype pipe_end = Pipe1Read | Pipe1Write | Pipe2Read | Pipe2Write

text \<open>\<open>Write\<close> to a descriptor that has been closed fails (\<open>EBADF\<close>), and the wrapper ends the program.\<close>

definition pipe_client :: "pipe_end list \<Rightarrow> pipe_end \<Rightarrow> pipe_end \<Rightarrow> string \<Rightarrow> (pipe_end \<times> string) outcome" where
  "pipe_client fds readfd writefd line =
     (let buf = (if line \<noteq> [] \<and> last line = NL then butlast line else line)
      in if writefd \<notin> set fds then ErrQuit
      else if readfd \<notin> set fds then ErrQuit
      else Returns (writefd, buf))"

definition close_fd :: "pipe_end \<Rightarrow> pipe_end list \<Rightarrow> pipe_end list" where
  "close_fd fd fds = filter (\<lambda>x. x \<noteq> fd) fds"

definition mainpipe_parent :: "string \<Rightarrow> (pipe_end \<times> string) outcome" where
  "mainpipe_parent line =
     (let fds = close_fd Pipe2Write (close_fd Pipe1Read [Pipe1Read, Pipe1Write, Pipe2Read, Pipe2Write])
      in pipe_client fds Pipe2Read Pipe2Write line)"

text \<open>The parent of \<open>mainpipe\<close> has closed the end that it passes to \<open>client\<close>: no request is ever written.\<close>

lemma mainpipe_fails: "mainpipe_parent line = ErrQuit"
  by (simp add: mainpipe_parent_def pipe_client_def close_fd_def Let_def)

section \<open>fifocliserv\<close>

text \<open>
  One round of the loop of the server for a line that \<open>Readline\<close> has returned; \<open>fifo_open pid\<close> says whether the
  FIFO of the client can be opened.  The result is what goes into which FIFO.
\<close>

definition fifo_serve :: "(int \<Rightarrow> bool) \<Rightarrow> (string \<Rightarrow> string option) \<Rightarrow> string \<Rightarrow> string \<Rightarrow> (int \<times> string) option" where
  "fifo_serve fifo_open fs err line =
     (let buff = (if line \<noteq> [] \<and> last line = NL then butlast line else line)
      in case parse_request buff of
        None \<Rightarrow> None
      | Some (pid, ptr) \<Rightarrow>
          if \<not> fifo_open pid then None
          else Some (pid, case fs ptr of None \<Rightarrow> ptr @ err | Some content \<Rightarrow> content))"

text \<open>
  The client: \<open>buff\<close> holds the request first; each \<open>Read\<close> overwrites a beginning of it, \<open>printf\<close> shows it up to the
  first 0, and the \<open>Write\<close> after the loop (which the indentation shows inside) writes 0 bytes.
\<close>

fun fifo_client_loop :: "string list \<Rightarrow> string \<Rightarrow> string list" where
  "fifo_client_loop [] buff = [[]]"
| "fifo_client_loop (r # rs) buff = (let buff = r @ drop (length r) buff in (''Server Write to Client is : '' @ c_string buff) # fifo_client_loop rs buff)"

definition fifo_client :: "nat \<Rightarrow> string \<Rightarrow> string list \<Rightarrow> string list" where
  "fifo_client pid line reads = fifo_client_loop reads (show_nat pid @ CHR '' '' # line @ [NUL])"

lemma fifo_serve_request:
  assumes "NUL \<notin> set path" "fifo_open (int pid)"
  shows "fifo_serve fifo_open fs err (plain_request pid path @ [NL]) =
    Some (int pid, case fs path of None \<Rightarrow> path @ err | Some content \<Rightarrow> content)"
  using parse_plain_request [OF assms(1), of pid] assms(2) by (simp add: fifo_serve_def Let_def)

text \<open>A file shorter than the request is followed by the end of the request.\<close>

lemma fifo_client_stale:
  "fifo_client 12 (''/tmp/f'' @ [NL]) [''ok''] = [''Server Write to Client is : ok /tmp/f'' @ [NL], []]"
  by code_simp

end
