(* ===== verification/MutexProdCons.thy ===== *)
theory MutexProdCons
  imports CStrings
begin

text \<open>
  Producers and a consumer over a Posix mutex, \<open>example/unix_network/example/mutex\<close>: \<open>prodcons2.cpp\<close>, whose
  consumer starts when the producers have ended, \<open>prodcons3.cpp\<close>, whose consumer polls, and
  \<open>prodcons6.cpp\<close>, whose consumer waits for a condition variable.  A critical region is one step.
\<close>

datatype waiting = JoinFirst | Poll | Ready

definition MAXNITEMS :: int where
  "MAXNITEMS = 1000000"

definition MAXNTHREADS :: int where
  "MAXNTHREADS = 100"

text \<open>The arguments of the three programs: \<open>min(atoi(argv[1]), MAXNITEMS)\<close> and the number of producers.\<close>

definition mutex_args :: "string \<Rightarrow> string \<Rightarrow> (int \<times> nat) cxx" where
  "mutex_args items threads =
     cxx_bind (atoi items) (\<lambda>i. cxx_bind (atoi threads) (\<lambda>n. Ok (min i MAXNITEMS, nat (min n MAXNTHREADS))))"

section \<open>State and steps\<close>

datatype mprod = MStore | MSignal | MCount | MDone

datatype mcons = MLoop | MTest | MAsleep | MRead | MEnd

text \<open>\<open>mcounts\<close>: the array \<open>count\<close> of \<open>main\<close>; \<open>mprinted\<close>: the mismatches that the consumer prints.\<close>

record mshared =
  mbuff :: "nat \<Rightarrow> nat"
  mnput :: nat
  mnval :: nat
  mnready :: nat
  mcounts :: "nat list"
  mprods :: "mprod list"
  mcons :: mcons
  mindex :: nat
  mprinted :: "(nat \<times> nat) list"

definition mutex_start :: "nat \<Rightarrow> mshared" where
  "mutex_start nthreads = \<lparr>mbuff = (\<lambda>_. 0), mnput = 0, mnval = 0, mnready = 0, mcounts = replicate nthreads 0,
     mprods = replicate nthreads MStore, mcons = MLoop, mindex = 0, mprinted = []\<rparr>"

definition mprod_at :: "nat \<Rightarrow> mprod \<Rightarrow> mshared \<Rightarrow> mshared" where
  "mprod_at i pc st = st\<lparr>mprods := (mprods st)[i := pc]\<rparr>"

text \<open>\<open>produce\<close>: the region that stores, that of the ready count, the count of the thread.\<close>

definition mutex_store :: "waiting \<Rightarrow> int \<Rightarrow> nat \<Rightarrow> mshared \<Rightarrow> mshared" where
  "mutex_store v nitems i st =
     (if int (mnput st) \<ge> nitems then mprod_at i MDone st
      else mprod_at i (if v = Ready then MSignal else MCount)
        (st\<lparr>mbuff := (mbuff st)(mnput st := mnval st), mnput := mnput st + 1, mnval := mnval st + 1\<rparr>))"

definition mutex_signal :: "nat \<Rightarrow> mshared \<Rightarrow> mshared" where
  "mutex_signal i st = mprod_at i MCount
     (st\<lparr>mcons := (if mnready st = 0 \<and> mcons st = MAsleep then MTest else mcons st), mnready := mnready st + 1\<rparr>)"

definition mutex_produce :: "waiting \<Rightarrow> int \<Rightarrow> nat \<Rightarrow> mshared \<Rightarrow> mshared option" where
  "mutex_produce v nitems i st =
     (case mprods st ! i of
        MStore \<Rightarrow> Some (mutex_store v nitems i st)
      | MSignal \<Rightarrow> Some (mutex_signal i st)
      | MCount \<Rightarrow> Some (mprod_at i MStore (st\<lparr>mcounts := (mcounts st)[i := mcounts st ! i + 1]\<rparr>))
      | MDone \<Rightarrow> None)"

text \<open>
  \<open>consume\<close>: the test of the loop, the wait (\<open>consume_wait\<close>, or the region around \<open>pthread_cond_wait\<close>),
  the check of the item.
\<close>

definition mutex_wait :: "waiting \<Rightarrow> mshared \<Rightarrow> mshared" where
  "mutex_wait v st =
     (case v of
        JoinFirst \<Rightarrow> st\<lparr>mcons := MRead\<rparr>
      | Poll \<Rightarrow> if mindex st < mnput st then st\<lparr>mcons := MRead\<rparr> else st
      | Ready \<Rightarrow> if mnready st = 0 then st\<lparr>mcons := MAsleep\<rparr> else st\<lparr>mnready := mnready st - 1, mcons := MRead\<rparr>)"

definition mutex_consume :: "waiting \<Rightarrow> int \<Rightarrow> mshared \<Rightarrow> mshared option" where
  "mutex_consume v nitems st =
     (case mcons st of
        MLoop \<Rightarrow> if v = JoinFirst \<and> how_many (\<lambda>p. p \<noteq> MDone) (mprods st) > 0 then None
                 else Some (st\<lparr>mcons := if int (mindex st) < nitems then MTest else MEnd\<rparr>)
      | MTest \<Rightarrow> Some (mutex_wait v st)
      | MAsleep \<Rightarrow> None
      | MRead \<Rightarrow> Some (st\<lparr>mprinted := mprinted st @
            (if mbuff st (mindex st) \<noteq> mindex st then [(mindex st, mbuff st (mindex st))] else []),
          mindex := mindex st + 1, mcons := MLoop\<rparr>)
      | MEnd \<Rightarrow> None)"

datatype mutex_label = MProduce nat | MConsume | Spurious

fun mutex_exec :: "waiting \<Rightarrow> int \<Rightarrow> mutex_label \<Rightarrow> mshared \<Rightarrow> mshared option" where
  "mutex_exec v nitems (MProduce i) st = (if i < length (mprods st) then mutex_produce v nitems i st else None)"
| "mutex_exec v nitems MConsume st = mutex_consume v nitems st"
| "mutex_exec v nitems Spurious st = (if mcons st = MAsleep then Some (st\<lparr>mcons := MTest\<rparr>) else None)"

inductive mutex_step :: "waiting \<Rightarrow> int \<Rightarrow> mshared \<Rightarrow> mshared \<Rightarrow> bool" for v nitems where
  mutex_stepI: "mutex_exec v nitems l st = Some st' \<Longrightarrow> mutex_step v nitems st st'"

inductive_simps mutex_step_simps: "mutex_step v nitems st st'"

section \<open>The invariant\<close>

text \<open>
  What is stored is the identity; what was announced and not yet taken is the ready count; what the
  threads have counted and are about to count is what was stored.
\<close>

definition mutex_common :: "nat \<Rightarrow> nat \<Rightarrow> mshared \<Rightarrow> bool" where
  "mutex_common n np st \<longleftrightarrow>
     length (mprods st) = np \<and> length (mcounts st) = np \<and>
     mnval st = mnput st \<and> (\<forall>k < mnput st. mbuff st k = k) \<and> mnput st \<le> n \<and>
     sum_list (mcounts st) + how_many (\<lambda>p. p = MSignal) (mprods st) + how_many (\<lambda>p. p = MCount) (mprods st) = mnput st \<and>
     (how_many (\<lambda>p. p = MDone) (mprods st) = 0 \<or> mnput st = n) \<and>
     (mcons st = MLoop \<and> mindex st \<le> n \<or> mcons st \<in> {MTest, MAsleep, MRead} \<and> mindex st < n \<or> mcons st = MEnd \<and> mindex st = n)"

fun mutex_sync :: "waiting \<Rightarrow> mshared \<Rightarrow> bool" where
  "mutex_sync JoinFirst st \<longleftrightarrow> how_many (\<lambda>p. p = MSignal) (mprods st) = 0 \<and> mcons st \<noteq> MAsleep \<and>
     (mcons st = MLoop \<and> mindex st = 0 \<or> how_many (\<lambda>p. p \<noteq> MDone) (mprods st) = 0)"
| "mutex_sync Poll st \<longleftrightarrow> how_many (\<lambda>p. p = MSignal) (mprods st) = 0 \<and> mcons st \<noteq> MAsleep \<and>
     mindex st + of_bool (mcons st = MRead) \<le> mnput st"
| "mutex_sync Ready st \<longleftrightarrow>
     mnready st + mindex st + of_bool (mcons st = MRead) + how_many (\<lambda>p. p = MSignal) (mprods st) = mnput st \<and>
     (mcons st = MAsleep \<longrightarrow> mnready st = 0)"

definition mutex_inv :: "waiting \<Rightarrow> int \<Rightarrow> nat \<Rightarrow> mshared \<Rightarrow> bool" where
  "mutex_inv v nitems np st \<longleftrightarrow> mutex_common (nat nitems) np st \<and> mutex_sync v st"

lemma sum_list_count:
  fixes xs :: "nat list"
  shows "i < length xs \<Longrightarrow> sum_list (xs[i := xs ! i + 1]) = sum_list xs + 1"
  by (simp add: sum_list_update elem_le_sum_list)

lemma mutex_inv_start: "mutex_inv v nitems np (mutex_start np)"
  by (cases v) (simp_all add: mutex_inv_def mutex_common_def mutex_start_def)

text \<open>Comparisons with \<open>nitems\<close> as natural numbers.\<close>

lemma nitems_nat: "(nitems \<le> int k) = (nat nitems \<le> k)" "(int k < nitems) = (k < nat nitems)"
  by linarith+

lemma mutex_common_produce:
  assumes inv: "mutex_common n np st" and i: "i < length (mprods st)" and s: "mutex_produce v nitems i st = Some st'"
    and n: "n = nat nitems"
  shows "mutex_common n np st'"
proof -
  note h = how_many_update [OF i, of "\<lambda>p. p = MDone"] how_many_update [OF i, of "\<lambda>p. p = MSignal"]
    how_many_update [OF i, of "\<lambda>p. p = MCount"]
  show ?thesis
  proof (cases "mprods st ! i")
    case MStore
    show ?thesis
    proof (cases "n \<le> mnput st")
      case True
      then have "st' = mprod_at i MDone st"
        using s MStore by (simp add: mutex_produce_def mutex_store_def nitems_nat n)
      then show ?thesis using inv True MStore h [where x = MDone] by (simp add: mprod_at_def mutex_common_def)
    next
      case False
      let ?st = "st\<lparr>mbuff := (mbuff st)(mnput st := mnval st), mnput := mnput st + 1, mnval := mnval st + 1\<rparr>"
      have st': "st' = mprod_at i (if v = Ready then MSignal else MCount) ?st"
        using s MStore False by (simp add: mutex_produce_def mutex_store_def nitems_nat n)
      then show ?thesis
        using inv False MStore h [where x = MSignal] h [where x = MCount]
        by (simp add: mprod_at_def mutex_common_def less_Suc_eq)
    qed
  next
    case MSignal
    then have "st' = mutex_signal i st" using s by (simp add: mutex_produce_def)
    then show ?thesis using inv MSignal h [where x = MCount]
      by (simp add: mutex_signal_def mprod_at_def mutex_common_def) auto
  next
    case MCount
    then show ?thesis using inv s i h [where x = MStore] sum_list_count [of i "mcounts st"]
      by (simp add: mutex_produce_def mprod_at_def mutex_common_def) force
  qed (use s in \<open>simp add: mutex_produce_def\<close>)
qed

lemma mutex_sync_produce:
  assumes inv: "mutex_sync v st" and i: "i < length (mprods st)" and s: "mutex_produce v nitems i st = Some st'"
  shows "mutex_sync v st'"
proof -
  have pos: "mprods st ! i \<noteq> MDone \<Longrightarrow> 0 < how_many (\<lambda>p. p \<noteq> MDone) (mprods st)"
    "mprods st ! i = MSignal \<Longrightarrow> 0 < how_many (\<lambda>p. p = MSignal) (mprods st)"
    using how_many_pos [OF nth_mem [OF i]] by auto
  note h = how_many_update [OF i, of "\<lambda>p. p = MSignal"]
  show ?thesis
  proof (cases v)
    case Ready
    then show ?thesis using inv s h [where x = MDone] h [where x = MSignal] h [where x = MCount] h [where x = MStore] pos(2)
      by (cases "mprods st ! i") (auto simp: mutex_produce_def mutex_store_def mutex_signal_def mprod_at_def split: if_splits)
  next
    case Poll
    then show ?thesis using inv s h [where x = MDone] h [where x = MCount] h [where x = MStore] pos(2)
      by (cases "mprods st ! i") (auto simp: mutex_produce_def mutex_store_def mprod_at_def split: if_splits)
  next
    case JoinFirst
    then have "mcons st = MLoop \<and> mindex st = 0 \<and> mprods st ! i \<noteq> MSignal"
      using inv s pos by (cases "mprods st ! i") (auto simp: mutex_produce_def)
    then show ?thesis using JoinFirst inv s h [where x = MDone] h [where x = MCount] h [where x = MStore]
      by (cases "mprods st ! i") (auto simp: mutex_produce_def mutex_store_def mprod_at_def split: if_splits)
  qed
qed

lemma mutex_inv_consume:
  assumes "mutex_inv v nitems np st" "mutex_consume v nitems st = Some st'"
  shows "mutex_inv v nitems np st'"
proof -
  define n where "n = nat nitems"
  have "mutex_common n np st'"
    using assms by (cases "mcons st"; cases v)
      (simp_all add: mutex_inv_def mutex_consume_def mutex_wait_def mutex_common_def nitems_nat n_def [symmetric] split: if_splits,
        auto)
  moreover have "mutex_sync v st'"
    using assms unfolding mutex_inv_def by (cases "mcons st"; cases v)
      (simp_all add: mutex_consume_def mutex_wait_def split: if_splits, auto)
  ultimately show ?thesis by (simp add: mutex_inv_def n_def)
qed

lemma mutex_inv_exec:
  assumes "mutex_inv v nitems np st" "mutex_exec v nitems l st = Some st'"
  shows "mutex_inv v nitems np st'"
proof (cases l)
  case (MProduce i)
  then show ?thesis using assms mutex_common_produce [OF _ _ _ refl] mutex_sync_produce
    by (auto simp: mutex_inv_def split: if_splits)
next
  case MConsume
  then show ?thesis using assms mutex_inv_consume by simp
next
  case Spurious
  then show ?thesis using assms
    by (cases v) (auto simp: mutex_inv_def mutex_common_def split: if_splits)
qed

interpretation mutex: step_invariant "\<lambda>st. st = mutex_start np" "mutex_step v nitems" "mutex_inv v nitems np"
  for v nitems np
  by unfold_locales (auto simp: mutex_inv_start mutex_step_simps intro: mutex_inv_exec)

text \<open>With a producer, the consumer reads only what was stored before.\<close>

definition mutex_read_ok :: "mshared \<Rightarrow> bool" where
  "mutex_read_ok st \<longleftrightarrow> mprinted st = [] \<and> mindex st + of_bool (mcons st = MRead) \<le> mnput st"

lemma mutex_all_stored:
  assumes "mutex_inv v nitems np st" "0 < np" "how_many (\<lambda>p. p \<noteq> MDone) (mprods st) = 0"
  shows "nitems \<le> int (mnput st)"
proof -
  have ne: "mprods st \<noteq> []" using assms by (auto simp: mutex_inv_def mutex_common_def)
  then have "hd (mprods st) = MDone" using assms(3) by (auto simp: how_many_0)
  then have "0 < how_many (\<lambda>p. p = MDone) (mprods st)" by (rule how_many_pos [OF hd_in_set [OF ne]])
  then show ?thesis using assms(1) by (auto simp: mutex_inv_def mutex_common_def)
qed

lemma mutex_read_in_time:
  assumes "mutex_inv v nitems np st" "0 < np"
  shows "mindex st + of_bool (mcons st = MRead) \<le> mnput st"
proof (cases v)
  case JoinFirst
  then have "mcons st = MLoop \<and> mindex st = 0 \<or> nat nitems \<le> mnput st"
    using assms mutex_all_stored [OF assms] by (auto simp: mutex_inv_def)
  moreover have "mindex st + of_bool (mcons st = MRead) \<le> nat nitems"
    using assms(1) by (auto simp: mutex_inv_def mutex_common_def)
  ultimately show ?thesis by (auto simp: of_bool_def)
qed (use assms(1) in \<open>simp_all add: mutex_inv_def\<close>)

lemma mutex_read_ok_step:
  assumes "mutex_inv v nitems np st" "0 < np" "mutex_read_ok st" "mutex_exec v nitems l st = Some st'"
  shows "mprinted st' = []"
proof (cases l)
  case (MProduce i)
  then show ?thesis using assms(3,4)
    by (auto simp: mutex_read_ok_def mutex_produce_def mutex_store_def mutex_signal_def mprod_at_def
        split: if_splits mprod.splits)
next
  case MConsume
  then show ?thesis using assms
    by (auto simp: mutex_read_ok_def mutex_consume_def mutex_wait_def mutex_inv_def mutex_common_def
        split: if_splits mcons.splits waiting.splits)
next
  case Spurious
  then show ?thesis using assms(3,4) by (auto simp: mutex_read_ok_def split: if_splits)
qed

interpretation mutex_reads: step_invariant "\<lambda>st. st = mutex_start np \<and> 0 < np" "mutex_step v nitems"
  "\<lambda>st. mutex_inv v nitems np st \<and> 0 < np \<and> mutex_read_ok st" for v nitems np
proof
  show "mutex_inv v nitems np st \<and> 0 < np \<and> mutex_read_ok st" if "st = mutex_start np \<and> 0 < np" for st
    using that mutex_inv_start by (auto simp: mutex_read_ok_def) (simp_all add: mutex_start_def)
  show "mutex_inv v nitems np t \<and> 0 < np \<and> mutex_read_ok t"
    if hyp: "mutex_inv v nitems np s \<and> 0 < np \<and> mutex_read_ok s" and st: "mutex_step v nitems s t" for s t
  proof -
    obtain l where l: "mutex_exec v nitems l s = Some t" using st by (auto simp: mutex_step_simps)
    then have "mutex_inv v nitems np t" using hyp mutex_inv_exec by blast
    then show ?thesis
      using hyp l mutex_read_ok_step mutex_read_in_time unfolding mutex_read_ok_def by blast
  qed
qed

section \<open>Properties\<close>

text \<open>
  \<open>prodcons2\<close>, \<open>prodcons3\<close> and \<open>prodcons6\<close> with at least one producer, any number of items and any
  interleaving: the consumer never finds a wrong item and never looks at one that is not stored yet, no
  more than \<open>nitems\<close> are stored, and when all threads have ended all of them were stored and read,
  and the counts of the producers add up to them.
\<close>

theorem mutex_prodcons_items:
  assumes "reachable (\<lambda>st. st = mutex_start np \<and> 0 < np) (mutex_step v nitems) st"
  shows "mprinted st = [] \<and> mindex st + of_bool (mcons st = MRead) \<le> mnput st \<and> int (mnput st) \<le> max 0 nitems \<and>
    (mcons st = MEnd \<and> mprods st = replicate np MDone \<longrightarrow>
      mindex st = nat nitems \<and> mnput st = nat nitems \<and> sum_list (mcounts st) = nat nitems)"
proof -
  have i: "mutex_inv v nitems np st" "0 < np" "mutex_read_ok st"
    using mutex_reads.reachable_inv [OF assms] by auto
  have c: "mcons st = MEnd \<Longrightarrow> mindex st = nat nitems" "mnput st \<le> nat nitems"
    "sum_list (mcounts st) + how_many (\<lambda>p. p = MSignal) (mprods st) + how_many (\<lambda>p. p = MCount) (mprods st) = mnput st"
    using i(1) by (auto simp: mutex_inv_def mutex_common_def)
  have "mnput st = nat nitems \<and> sum_list (mcounts st) = nat nitems" if all: "mprods st = replicate np MDone"
    using mutex_all_stored [OF i(1,2)] c(2,3) unfolding all by simp
  then show ?thesis using c(1,2) i(3) unfolding mutex_read_ok_def by auto
qed

lemma mutex_prodcons_items_witness:
  "\<exists>st. mutex_exec Ready 1 (MProduce 0) (mutex_start 1) = Some st \<and> mprinted st = [] \<and> mnput st = 1 \<and> mindex st \<le> 1"
proof -
  obtain st where st: "mutex_exec Ready 1 (MProduce 0) (mutex_start 1) = Some st" "mnput st = 1"
    by (simp add: mutex_start_def mutex_produce_def mutex_store_def mprod_at_def)
  have "reachable (\<lambda>st. st = mutex_start 1 \<and> 0 < (1::nat)) (mutex_step Ready 1) (mutex_start 1)"
    by (rule reach_init) simp
  from reach_step [OF this mutex_stepI [OF st(1)]]
  have "reachable (\<lambda>st. st = mutex_start 1 \<and> 0 < (1::nat)) (mutex_step Ready 1) st" .
  from mutex_prodcons_items [OF this] st show ?thesis by auto
qed

text \<open>
  C34: With at least one producer these programs cannot get stuck: as long as a thread has not ended, some
  thread can take a step that is not a spurious wake-up and changes the state; in \<open>prodcons6\<close> this says
  that no signal is lost.
\<close>

theorem mutex_prodcons_progress:
  assumes "reachable (\<lambda>st. st = mutex_start np) (mutex_step v nitems) st" "0 < np"
    and "\<not> (mcons st = MEnd \<and> how_many (\<lambda>p. p \<noteq> MDone) (mprods st) = 0)"
  shows "\<exists>l st'. l \<noteq> Spurious \<and> mutex_exec v nitems l st = Some st' \<and> st' \<noteq> st"
proof -
  have inv: "mutex_inv v nitems np st" using mutex.reachable_inv [OF assms(1)] .
  show ?thesis
  proof (cases "how_many (\<lambda>p. p \<noteq> MDone) (mprods st) = 0")
    case False
    then obtain i where i: "i < length (mprods st)" "mprods st ! i \<noteq> MDone"
      by (auto simp: how_many_0 in_set_conv_nth)
    have "\<exists>st'. mutex_produce v nitems i st = Some st' \<and> mprods st' ! i \<noteq> mprods st ! i"
      using i by (cases "mprods st ! i") (auto simp: mutex_produce_def mutex_store_def mutex_signal_def mprod_at_def)
    then show ?thesis using i(1) by (intro exI [of _ "MProduce i"]) auto
  next
    case True
    have full: "nitems \<le> int (mnput st)" using mutex_all_stored [OF inv assms(2) True] .
    have sg: "how_many (\<lambda>p. p = MSignal) (mprods st) = 0" using True by (auto simp: how_many_0)
    have "mcons st \<in> {MTest, MAsleep} \<Longrightarrow> mindex st < mnput st"
      using inv full by (auto simp: mutex_inv_def mutex_common_def)
    then have "\<exists>st'. mutex_consume v nitems st = Some st' \<and> mcons st' \<noteq> mcons st"
      using inv sg True assms(3)
      by (cases "mcons st"; cases v) (auto simp: mutex_consume_def mutex_wait_def mutex_inv_def)
    then show ?thesis by (intro exI [of _ MConsume]) auto
  qed
qed

lemma mutex_prodcons_progress_witness:
  "\<exists>l st'. l \<noteq> Spurious \<and> mutex_exec Ready 1 l (mutex_start 1) = Some st' \<and> st' \<noteq> mutex_start 1"
  by (rule mutex_prodcons_progress [OF reachable_start]) (simp_all add: mutex_start_def)

text \<open>
  Without producers (\<open>atoi\<close> of the second argument is 0 or less) \<open>prodcons3\<close> polls and \<open>prodcons6\<close> sleeps for ever.
\<close>

lemma mutex_prodcons_starved:
  assumes "reachable (\<lambda>st. st = mutex_start 0) (mutex_step v nitems) st" "v \<noteq> JoinFirst" "0 < nitems"
  shows "mcons st \<noteq> MEnd"
proof -
  have "mutex_inv v nitems 0 st" using mutex.reachable_inv [OF assms(1)] .
  moreover have "reachable (\<lambda>st. st = mutex_start 0) (mutex_step v nitems) st \<Longrightarrow> mnput st = 0"
  proof (induction rule: reachable.induct)
    case (reach_step s t)
    have i: "mutex_inv v nitems 0 s" using mutex.reachable_inv [OF reach_step.hyps(1)] .
    obtain l where l: "mutex_exec v nitems l s = Some t" using reach_step.hyps(2) by (auto simp: mutex_step_simps)
    have "mnput t = mnput s"
    proof (cases l)
      case MConsume
      then show ?thesis using l
        by (auto simp: mutex_consume_def mutex_wait_def split: if_splits mcons.splits waiting.splits)
    qed (use l i in \<open>auto simp: mutex_inv_def mutex_common_def split: if_splits\<close>)
    then show ?case using reach_step.IH by simp
  qed (simp add: mutex_start_def)
  ultimately show ?thesis using assms by (cases v) (auto simp: mutex_inv_def mutex_common_def)
qed

text \<open>\<open>prodcons2\<close> then reports every item but the first as wrong.\<close>

fun mutex_script :: "waiting \<Rightarrow> int \<Rightarrow> mutex_label list \<Rightarrow> mshared \<Rightarrow> mshared option" where
  "mutex_script v nitems [] st = Some st"
| "mutex_script v nitems (l # ls) st = Option.bind (mutex_exec v nitems l st) (mutex_script v nitems ls)"

lemma mutex_prodcons2_empty:
  "\<exists>st. mutex_script JoinFirst 2 (replicate 7 MConsume) (mutex_start 0) = Some st \<and> mcons st = MEnd \<and> mprinted st = [(1, 0)]"
  by (simp add: mutex_consume_def mutex_wait_def mutex_start_def numeral_eq_Suc)

end
