(* ===== verification/MyCat.thy ===== *)
theory MyCat
  imports Prelude
begin

text \<open>
  \<open>example/unix_network/example/pxsem/mycat2.cpp\<close>: a thread that reads a file into a ring of \<open>NBUFF\<close> buffers and a
  thread that writes them to the standard output, with two counting semaphores and a mutex that guards
  an empty region.  Every semaphore call and every \<open>Read\<close> or \<open>Write\<close> is a step.
\<close>

definition cat_NBUFF :: nat where
  "cat_NBUFF = 8"

datatype reader_pc = RWaitEmpty | RWaitMutex | RPostMutex | RRead | RPostStored | RPostLast | REnd

datatype writer_pc = WWaitStored | WWaitMutex | WPostMutex | WWrite | WPostEmpty | WEnd

text \<open>
  \<open>to_read\<close>: what the coming calls of \<open>read\<close> return; when it is empty, the file is at its end.  A buffer and
  its count \<open>n\<close> are a list of bytes.  \<open>reads\<close> and \<open>writes\<close> count the buffers filled and written.
\<close>

record cat_state =
  ring :: "byte list list"
  cmutex :: nat
  cempty :: nat
  cstored :: nat
  to_read :: "byte list list"
  reader :: reader_pc
  rindex :: nat
  writer :: writer_pc
  windex :: nat
  stdout :: "byte list"
  reads :: nat
  writes :: nat

definition cat_start :: "byte list list \<Rightarrow> cat_state" where
  "cat_start chunks = \<lparr>ring = replicate cat_NBUFF [], cmutex = 1, cempty = cat_NBUFF, cstored = 0, to_read = chunks,
     reader = RWaitEmpty, rindex = 0, writer = WWaitStored, windex = 0, stdout = [], reads = 0, writes = 0\<rparr>"

definition cat_next :: "nat \<Rightarrow> nat" where
  "cat_next i = (if i + 1 \<ge> cat_NBUFF then 0 else i + 1)"

definition cat_read :: "cat_state \<Rightarrow> cat_state" where
  "cat_read st =
     (case to_read st of
        [] \<Rightarrow> st\<lparr>ring := (ring st)[rindex st := []], reads := reads st + 1, reader := RPostLast\<rparr>
      | c # cs \<Rightarrow> st\<lparr>ring := (ring st)[rindex st := c], to_read := cs, rindex := cat_next (rindex st),
                    reads := reads st + 1, reader := RPostStored\<rparr>)"

definition cat_produce :: "cat_state \<Rightarrow> cat_state option" where
  "cat_produce st =
     (case reader st of
        RWaitEmpty \<Rightarrow> if cempty st > 0 then Some (st\<lparr>cempty := cempty st - 1, reader := RWaitMutex\<rparr>) else None
      | RWaitMutex \<Rightarrow> if cmutex st > 0 then Some (st\<lparr>cmutex := cmutex st - 1, reader := RPostMutex\<rparr>) else None
      | RPostMutex \<Rightarrow> Some (st\<lparr>cmutex := cmutex st + 1, reader := RRead\<rparr>)
      | RRead \<Rightarrow> Some (cat_read st)
      | RPostStored \<Rightarrow> Some (st\<lparr>cstored := cstored st + 1, reader := RWaitEmpty\<rparr>)
      | RPostLast \<Rightarrow> Some (st\<lparr>cstored := cstored st + 1, reader := REnd\<rparr>)
      | REnd \<Rightarrow> None)"

definition cat_write :: "cat_state \<Rightarrow> cat_state" where
  "cat_write st =
     (if ring st ! windex st = [] then st\<lparr>writer := WEnd\<rparr>
      else st\<lparr>stdout := stdout st @ ring st ! windex st, windex := cat_next (windex st), writes := writes st + 1,
              writer := WPostEmpty\<rparr>)"

definition cat_consume :: "cat_state \<Rightarrow> cat_state option" where
  "cat_consume st =
     (case writer st of
        WWaitStored \<Rightarrow> if cstored st > 0 then Some (st\<lparr>cstored := cstored st - 1, writer := WWaitMutex\<rparr>) else None
      | WWaitMutex \<Rightarrow> if cmutex st > 0 then Some (st\<lparr>cmutex := cmutex st - 1, writer := WPostMutex\<rparr>) else None
      | WPostMutex \<Rightarrow> Some (st\<lparr>cmutex := cmutex st + 1, writer := WWrite\<rparr>)
      | WWrite \<Rightarrow> Some (cat_write st)
      | WPostEmpty \<Rightarrow> Some (st\<lparr>cempty := cempty st + 1, writer := WWaitStored\<rparr>)
      | WEnd \<Rightarrow> None)"

datatype cat_thread = Reader | Writer

fun cat_exec :: "cat_thread \<Rightarrow> cat_state \<Rightarrow> cat_state option" where
  "cat_exec Reader st = cat_produce st"
| "cat_exec Writer st = cat_consume st"

fun cat_run :: "cat_thread list \<Rightarrow> cat_state \<Rightarrow> cat_state option" where
  "cat_run [] st = Some st"
| "cat_run (t # ts) st = Option.bind (cat_exec t st) (cat_run ts)"

section \<open>The invariant\<close>

text \<open>All the results of \<open>read\<close>, the end of the file included.\<close>

definition fills :: "byte list list \<Rightarrow> byte list list" where
  "fills chunks = chunks @ [[]]"

text \<open>What a thread holds at each point: the mutex, a slot, a filled slot that is not announced, and its place.\<close>

fun r_mutex :: "reader_pc \<Rightarrow> nat" where
  "r_mutex RPostMutex = 1" | "r_mutex RWaitEmpty = 0" | "r_mutex RWaitMutex = 0" | "r_mutex RRead = 0"
| "r_mutex RPostStored = 0" | "r_mutex RPostLast = 0" | "r_mutex REnd = 0"

fun r_slot :: "reader_pc \<Rightarrow> nat" where
  "r_slot RWaitEmpty = 0" | "r_slot RWaitMutex = 1" | "r_slot RPostMutex = 1" | "r_slot RRead = 1"
| "r_slot RPostStored = 0" | "r_slot RPostLast = 0" | "r_slot REnd = 0"

fun r_filled :: "reader_pc \<Rightarrow> nat" where
  "r_filled RWaitEmpty = 0" | "r_filled RWaitMutex = 0" | "r_filled RPostMutex = 0" | "r_filled RRead = 0"
| "r_filled RPostStored = 1" | "r_filled RPostLast = 1" | "r_filled REnd = 0"

fun r_done :: "reader_pc \<Rightarrow> bool" where
  "r_done RPostLast = True" | "r_done REnd = True" | "r_done RWaitEmpty = False" | "r_done RWaitMutex = False"
| "r_done RPostMutex = False" | "r_done RRead = False" | "r_done RPostStored = False"

fun w_mutex :: "writer_pc \<Rightarrow> nat" where
  "w_mutex WWaitStored = 0" | "w_mutex WWaitMutex = 0" | "w_mutex WPostMutex = 1" | "w_mutex WWrite = 0"
| "w_mutex WPostEmpty = 0" | "w_mutex WEnd = 0"

fun w_taken :: "writer_pc \<Rightarrow> nat" where
  "w_taken WWaitStored = 0" | "w_taken WWaitMutex = 1" | "w_taken WPostMutex = 1" | "w_taken WWrite = 1"
| "w_taken WPostEmpty = 0" | "w_taken WEnd = 1"

fun w_freed :: "writer_pc \<Rightarrow> nat" where
  "w_freed WWaitStored = 0" | "w_freed WWaitMutex = 0" | "w_freed WPostMutex = 0" | "w_freed WWrite = 0"
| "w_freed WPostEmpty = 1" | "w_freed WEnd = 0"

definition cat_counts :: "nat \<Rightarrow> cat_state \<Rightarrow> bool" where
  "cat_counts n st \<longleftrightarrow>
     cmutex st + r_mutex (reader st) + w_mutex (writer st) = 1 \<and>
     cempty st + r_slot (reader st) + w_freed (writer st) + reads st = cat_NBUFF + writes st \<and>
     cstored st + r_filled (reader st) + w_taken (writer st) + writes st = reads st \<and>
     reads st \<le> n + 1 \<and> (reads st = n + 1) = r_done (reader st) \<and> writes st \<le> n \<and>
     (writer st = WEnd \<longrightarrow> writes st = n)"

definition cat_data :: "byte list list \<Rightarrow> cat_state \<Rightarrow> bool" where
  "cat_data chunks st \<longleftrightarrow>
     length (ring st) = cat_NBUFF \<and> to_read st = drop (reads st) chunks \<and>
     (\<not> r_done (reader st) \<longrightarrow> rindex st = reads st mod cat_NBUFF) \<and> windex st = writes st mod cat_NBUFF \<and>
     (\<forall>k. writes st \<le> k \<and> k < reads st \<longrightarrow> ring st ! (k mod cat_NBUFF) = fills chunks ! k) \<and>
     stdout st = concat (take (writes st) chunks)"

definition cat_inv :: "byte list list \<Rightarrow> cat_state \<Rightarrow> bool" where
  "cat_inv chunks st \<longleftrightarrow> cat_counts (length chunks) st \<and> cat_data chunks st"

lemma cat_next_mod: "cat_next (k mod cat_NBUFF) = Suc k mod cat_NBUFF"
  using mod_less_divisor [of cat_NBUFF k] by (simp add: cat_next_def cat_NBUFF_def mod_Suc, linarith)

lemma fills_nth: "k < length chunks \<Longrightarrow> fills chunks ! k = chunks ! k" "fills chunks ! length chunks = []"
  by (simp_all add: fills_def nth_append)

lemma cat_inv_start: "cat_inv chunks (cat_start chunks)"
  by (simp add: cat_inv_def cat_counts_def cat_data_def cat_start_def cat_NBUFF_def)

lemma cat_counts_produce:
  assumes "cat_inv chunks st" "cat_produce st = Some st'"
  shows "cat_counts (length chunks) st'"
proof (cases "reader st")
  case RRead
  have "to_read st = drop (reads st) chunks" "reads st \<le> length chunks"
    using assms(1) RRead by (auto simp: cat_inv_def cat_data_def cat_counts_def)
  then have "to_read st = [] \<longleftrightarrow> reads st = length chunks" "reads st \<le> length chunks" by auto
  moreover have c: "cat_counts (length chunks) st" "st' = cat_read st"
    using assms RRead by (simp_all add: cat_inv_def cat_produce_def)
  ultimately show ?thesis using RRead
    by (cases "to_read st") (auto simp: cat_read_def cat_counts_def)
qed (use assms in \<open>auto simp: cat_produce_def cat_inv_def cat_counts_def split: if_splits\<close>)

text \<open>A slot that is filled is not one that is still to be written.\<close>

lemma slot_free:
  fixes k r w :: nat
  assumes "w \<le> k" "k < r" "r < cat_NBUFF + w"
  shows "k mod cat_NBUFF \<noteq> r mod cat_NBUFF"
proof
  assume "k mod cat_NBUFF = r mod cat_NBUFF"
  then have "cat_NBUFF dvd r - k" using assms(2) by (metis less_imp_le mod_eq_dvd_iff_nat)
  then show False using assms dvd_imp_le [of cat_NBUFF "r - k"] by linarith
qed

lemma cat_ring_fill:
  assumes "cat_inv chunks st" "reader st = RRead" "c = fills chunks ! reads st"
  shows "\<forall>k. writes st \<le> k \<and> k < Suc (reads st) \<longrightarrow>
     (ring st)[rindex st := c] ! (k mod cat_NBUFF) = fills chunks ! k"
proof (intro allI impI)
  fix k assume k: "writes st \<le> k \<and> k < Suc (reads st)"
  have i: "rindex st = reads st mod cat_NBUFF" "length (ring st) = cat_NBUFF" "reads st < cat_NBUFF + writes st"
    "\<And>k. writes st \<le> k \<Longrightarrow> k < reads st \<Longrightarrow> ring st ! (k mod cat_NBUFF) = fills chunks ! k"
    using assms by (auto simp: cat_inv_def cat_data_def cat_counts_def)
  show "(ring st)[rindex st := c] ! (k mod cat_NBUFF) = fills chunks ! k"
  proof (cases "k = reads st")
    case True
    then show ?thesis using i assms(3) by (simp add: cat_NBUFF_def)
  next
    case False
    then have "k mod cat_NBUFF \<noteq> rindex st" using slot_free [of "writes st" k "reads st"] k i(1,3) by simp
    then show ?thesis using i(4) [of k] k False by simp
  qed
qed

lemma cat_data_produce:
  assumes "cat_inv chunks st" "cat_produce st = Some st'"
  shows "cat_data chunks st'"
proof (cases "reader st = RRead")
  case True
  have d: "to_read st = drop (reads st) chunks" "reads st \<le> length chunks" "cat_data chunks st"
    "rindex st = reads st mod cat_NBUFF"
    using assms(1) True by (auto simp: cat_inv_def cat_data_def cat_counts_def)
  have st': "st' = cat_read st" using assms(2) True by (simp add: cat_produce_def)
  show ?thesis
  proof (cases "to_read st")
    case Nil
    then have "fills chunks ! reads st = []" using d(1,2) fills_nth(2) [of chunks] by simp
    then show ?thesis using cat_ring_fill [OF assms(1) True refl] d Nil
      by (simp add: st' cat_read_def cat_data_def drop_Suc tl_drop)
  next
    case (Cons c cs)
    then have r: "reads st < length chunks" using d(1) by (cases "reads st < length chunks") auto
    then have c: "c = chunks ! reads st" "cs = drop (Suc (reads st)) chunks"
      using d(1) Cons Cons_nth_drop_Suc [OF r] by (metis list.inject)+
    have st'': "st' = st\<lparr>ring := (ring st)[rindex st := fills chunks ! reads st], to_read := drop (Suc (reads st)) chunks,
        rindex := cat_next (rindex st), reads := reads st + 1, reader := RPostStored\<rparr>"
      by (simp add: st' cat_read_def Cons c fills_nth r)
    show ?thesis using cat_ring_fill [OF assms(1) True refl] d(3,4)
      by (simp add: st'' cat_data_def cat_next_mod)
  qed
next
  case False
  then show ?thesis using assms
    by (cases "reader st") (auto simp: cat_produce_def cat_inv_def cat_data_def split: if_splits)
qed

lemma cat_written:
  assumes "cat_inv chunks st" "writer st = WWrite"
  shows "ring st ! windex st = fills chunks ! writes st" "writes st \<le> length chunks" "writes st < reads st"
  using assms by (auto simp: cat_inv_def cat_data_def cat_counts_def)

lemma cat_inv_consume:
  assumes ne: "[] \<notin> set chunks" and inv: "cat_inv chunks st" and s: "cat_consume st = Some st'"
  shows "cat_inv chunks st'"
proof (cases "writer st")
  case WWrite
  note w = cat_written [OF inv WWrite]
  have c: "cat_counts (length chunks) st" "cat_data chunks st" "st' = cat_write st"
    using inv s WWrite by (simp_all add: cat_inv_def cat_consume_def)
  show ?thesis
  proof (cases "writes st = length chunks")
    case True
    then have "st' = st\<lparr>writer := WEnd\<rparr>" using w c(3) by (simp add: cat_write_def fills_nth)
    then show ?thesis using c(1,2) WWrite True by (simp add: cat_inv_def cat_counts_def cat_data_def)
  next
    case False
    then have l: "writes st < length chunks" using w(2) by simp
    then have "chunks ! writes st \<noteq> []" using ne nth_mem [OF l] by metis
    then have "st' = st\<lparr>stdout := stdout st @ chunks ! writes st, windex := cat_next (windex st),
        writes := writes st + 1, writer := WPostEmpty\<rparr>"
      using w l c(3) by (simp add: cat_write_def fills_nth)
    then show ?thesis using c(1,2) WWrite l
      by (simp add: cat_inv_def cat_counts_def cat_data_def cat_next_mod take_Suc_conv_app_nth)
  qed
qed (use inv s in \<open>auto simp: cat_consume_def cat_inv_def cat_counts_def cat_data_def split: if_splits\<close>)

lemma cat_inv_exec:
  "[] \<notin> set chunks \<Longrightarrow> cat_inv chunks st \<Longrightarrow> cat_exec t st = Some st' \<Longrightarrow> cat_inv chunks st'"
  using cat_counts_produce cat_data_produce by (cases t) (simp add: cat_inv_def [of _ st'], simp add: cat_inv_consume)

section \<open>Progress\<close>

text \<open>Steps left, at most.\<close>

definition reader_rank :: "reader_pc \<Rightarrow> nat" where
  "reader_rank pc = (case pc of RWaitEmpty \<Rightarrow> 4 | RWaitMutex \<Rightarrow> 3 | RPostMutex \<Rightarrow> 2 | RRead \<Rightarrow> 1 | RPostStored \<Rightarrow> 5
     | RPostLast \<Rightarrow> 1 | REnd \<Rightarrow> 0)"

definition writer_rank :: "writer_pc \<Rightarrow> nat" where
  "writer_rank pc = (case pc of WWaitStored \<Rightarrow> 4 | WWaitMutex \<Rightarrow> 3 | WPostMutex \<Rightarrow> 2 | WWrite \<Rightarrow> 1 | WPostEmpty \<Rightarrow> 5
     | WEnd \<Rightarrow> 0)"

definition cat_left :: "nat \<Rightarrow> cat_state \<Rightarrow> nat" where
  "cat_left n st = 5 * (n + 1 - reads st) + reader_rank (reader st) + 5 * (n - writes st) + writer_rank (writer st)"

lemma cat_left_exec:
  assumes "[] \<notin> set chunks" "cat_inv chunks st" "cat_exec t st = Some st'"
  shows "cat_left (length chunks) st' < cat_left (length chunks) st"
proof -
  have "reads st' \<le> length chunks + 1" "writes st' \<le> length chunks"
    using cat_inv_exec [OF assms] by (auto simp: cat_inv_def cat_counts_def split: if_splits)
  then show ?thesis
  proof (cases t)
    case Reader
    then have "cat_produce st = Some st'" using assms(3) by simp
    with \<open>reads st' \<le> length chunks + 1\<close> show ?thesis
      by (cases "reader st") (auto simp: cat_produce_def cat_read_def cat_left_def reader_rank_def split: if_splits list.splits)
  next
    case Writer
    then have "cat_consume st = Some st'" using assms(3) by simp
    with \<open>writes st' \<le> length chunks\<close> show ?thesis
      by (cases "writer st") (auto simp: cat_consume_def cat_write_def cat_left_def writer_rank_def split: if_splits)
  qed
qed

lemma cat_blocked:
  "cat_produce st = None \<Longrightarrow>
     reader st = REnd \<or> reader st = RWaitEmpty \<and> cempty st = 0 \<or> reader st = RWaitMutex \<and> cmutex st = 0"
  "cat_consume st = None \<Longrightarrow>
     writer st = WEnd \<or> writer st = WWaitStored \<and> cstored st = 0 \<or> writer st = WWaitMutex \<and> cmutex st = 0"
  by (auto simp: cat_produce_def cat_consume_def split: reader_pc.splits writer_pc.splits if_splits)

lemma cat_progress:
  assumes "cat_inv chunks st" "\<not> (reader st = REnd \<and> writer st = WEnd)"
  shows "\<exists>t st'. cat_exec t st = Some st'"
proof (rule ccontr)
  assume no: "\<not> (\<exists>t st'. cat_exec t st = Some st')"
  have "cat_produce st = None" "cat_consume st = None"
    using no cat_exec.simps by (metis not_None_eq)+
  from cat_blocked(1) [OF this(1)] cat_blocked(2) [OF this(2)] assms show False
    by (elim disjE) (auto simp: cat_inv_def cat_counts_def cat_NBUFF_def)
qed

lemma cat_run_inv:
  assumes "[] \<notin> set chunks"
  shows "cat_inv chunks st \<Longrightarrow> cat_run ts st = Some st' \<Longrightarrow>
    cat_inv chunks st' \<and> length ts + cat_left (length chunks) st' \<le> cat_left (length chunks) st"
proof (induction ts arbitrary: st)
  case (Cons t ts)
  obtain s where s: "cat_exec t st = Some s" "cat_run ts s = Some st'"
    using Cons.prems(2) by (auto simp: bind_eq_Some_conv)
  have "cat_inv chunks s" "cat_left (length chunks) s < cat_left (length chunks) st"
    using cat_inv_exec cat_left_exec assms Cons.prems(1) s(1) by blast+
  then show ?case using Cons.IH [OF _ s(2)] by fastforce
qed simp

text \<open>
  C35: \<open>mycat2\<close> copies the file, for every sequence of results of \<open>read\<close> and every interleaving: what is
  written is at any time the beginning of the file in whole buffers, the reader never fills the buffer
  that the writer is writing, a run has at most \<open>10 * chunks + 13\<close> steps, and it can go on until both
  threads have ended with the whole file written.
\<close>

theorem mycat2_copies:
  assumes "[] \<notin> set chunks" "cat_run ts (cat_start chunks) = Some st"
  shows "stdout st = concat (take (writes st) chunks) \<and>
    \<not> (reader st = RRead \<and> writer st = WWrite \<and> rindex st = windex st) \<and>
    length ts \<le> 10 * length chunks + 13 \<and>
    (reader st = REnd \<and> writer st = WEnd \<and> stdout st = concat chunks \<or> (\<exists>t st'. cat_exec t st = Some st'))"
proof -
  have i: "cat_inv chunks st" "length ts \<le> cat_left (length chunks) (cat_start chunks)"
    using cat_run_inv [OF assms(1) cat_inv_start assms(2)] by auto
  have left: "cat_left (length chunks) (cat_start chunks) = 10 * length chunks + 13"
    by (simp add: cat_left_def cat_start_def reader_rank_def writer_rank_def)
  have out: "stdout st = concat (take (writes st) chunks)" using i(1) by (simp add: cat_inv_def cat_data_def)
  have fin: "stdout st = concat chunks" if "writer st = WEnd"
    using i(1) that out by (simp add: cat_inv_def cat_counts_def)
  have "rindex st \<noteq> windex st" if "reader st = RRead" "writer st = WWrite"
    using i(1) that slot_free [of "writes st" "writes st" "reads st"]
    by (simp add: cat_inv_def cat_counts_def cat_data_def)
  moreover have "reader st = REnd \<and> writer st = WEnd \<and> stdout st = concat chunks \<or> (\<exists>t st'. cat_exec t st = Some st')"
    using fin cat_progress [OF i(1)] by blast
  ultimately show ?thesis using i(2) left out by simp
qed

lemma mycat2_copies_witness:
  "\<exists>st. cat_run (replicate 4 Reader) (cat_start [[65]]) = Some st \<and> stdout st = [] \<and> reads st = 1"
proof -
  obtain st where st: "cat_run (replicate 4 Reader) (cat_start [[65]]) = Some st" "reads st = 1" "writes st = 0"
    by (simp add: numeral_eq_Suc cat_produce_def cat_read_def cat_start_def cat_NBUFF_def)
  from mycat2_copies [OF _ st(1)] st show ?thesis by auto
qed

end
