(* ===== verification/SvSemOpen.thy ===== *)
theory SvSemOpen
  imports Prelude
begin

text \<open>
  \<open>mysem_open\<close> of \<open>example/unix_network/example/my_pxsem_svsem/sem_open.cpp\<close>: a Posix semaphore on top of a System V
  semaphore, opened and created by any number of processes.  Every system call is a step.  The creator
  sets the value to 0 and adds \<open>value\<close>, which sets \<open>sem_otime\<close>; the others wait for that.
\<close>

section \<open>State\<close>

definition SEMVMX :: nat where
  "SEMVMX = 32767"

definition sv_MAX_TRIES :: nat where
  "sv_MAX_TRIES = 10"

text \<open>The arguments of a call: \<open>O_CREAT\<close>, \<open>O_EXCL\<close> and \<open>value\<close>.\<close>

record open_args =
  o_creat :: bool
  o_excl :: bool
  o_value :: nat

text \<open>The point before each system call; a number is \<open>semid\<close>, \<open>VErr None\<close> has \<open>semid = -1\<close>.\<close>

datatype opener =
    VOpenFile | VCreate | VSetVal nat | VSemop nat
  | VGet | VStat nat nat | VFinish nat | VErr "nat option"
  | VOpened nat | VFailed

text \<open>
  The file, the semaphore of its key if there is one (identifier, value, whether \<open>sem_otime\<close> is set), the
  next identifier, the callers, and a record of the initialisations that were completed.
\<close>

record sv_world =
  path_exists :: bool
  semset :: "(nat \<times> nat \<times> bool) option"
  next_id :: nat
  opener :: "nat \<Rightarrow> opener"
  inits :: "(nat \<times> nat) list"

definition open_start :: "(nat \<Rightarrow> open_args) \<Rightarrow> nat \<Rightarrow> opener" where
  "open_start args i = (if o_creat (args i) then VOpenFile else VGet)"

definition sv_start :: "(nat \<Rightarrow> open_args) \<Rightarrow> bool \<Rightarrow> sv_world" where
  "sv_start args exists = \<lparr>path_exists = exists, semset = None, next_id = 0, opener = open_start args, inits = []\<rparr>"

definition opener_at :: "nat \<Rightarrow> opener \<Rightarrow> sv_world \<Rightarrow> sv_world" where
  "opener_at i pc w = w\<lparr>opener := (opener w)(i := pc)\<rparr>"

section \<open>The system calls\<close>

definition live :: "nat \<Rightarrow> sv_world \<Rightarrow> bool" where
  "live k w \<longleftrightarrow> (case semset w of Some (j, _) \<Rightarrow> j = k | None \<Rightarrow> False)"

definition sv_rmid :: "nat option \<Rightarrow> sv_world \<Rightarrow> sv_world" where
  "sv_rmid s w = (case s of None \<Rightarrow> w | Some k \<Rightarrow> if live k w then w\<lparr>semset := None\<rparr> else w)"

text \<open>\<open>open\<close> and \<open>ftok\<close>: with \<open>O_EXCL\<close> the file must be new.\<close>

definition v_open :: "open_args \<Rightarrow> nat \<Rightarrow> sv_world \<Rightarrow> sv_world" where
  "v_open a i w = (if o_excl a \<and> path_exists w then opener_at i VFailed w
     else opener_at i VCreate (w\<lparr>path_exists := True\<rparr>))"

text \<open>\<open>semget(key, 1, semflag | IPC_EXCL)\<close>; \<open>junk\<close> is the value of a new semaphore.\<close>

definition v_create :: "nat \<Rightarrow> open_args \<Rightarrow> nat \<Rightarrow> sv_world \<Rightarrow> sv_world" where
  "v_create junk a i w =
     (case semset w of
        None \<Rightarrow> opener_at i (VSetVal (next_id w)) (w\<lparr>semset := Some (next_id w, junk, False), next_id := next_id w + 1\<rparr>)
      | Some _ \<Rightarrow> opener_at i (if o_excl a then VErr None else VGet) w)"

definition v_setval :: "open_args \<Rightarrow> nat \<Rightarrow> nat \<Rightarrow> sv_world \<Rightarrow> sv_world" where
  "v_setval a k i w =
     (case semset w of
        Some (j, v, t) \<Rightarrow>
          if j = k then opener_at i (if o_value a > SEMVMX then VErr (Some k) else VSemop k) (w\<lparr>semset := Some (j, 0, t)\<rparr>)
          else opener_at i (VErr (Some k)) w
      | None \<Rightarrow> opener_at i (VErr (Some k)) w)"

text \<open>\<open>semop\<close> with \<open>sem_op = value\<close>; an operation with 0 succeeds as well when the value is 0.\<close>

definition v_semop :: "open_args \<Rightarrow> nat \<Rightarrow> nat \<Rightarrow> sv_world \<Rightarrow> sv_world" where
  "v_semop a k i w =
     (case semset w of
        Some (j, v, t) \<Rightarrow>
          if j = k \<and> v + o_value a \<le> SEMVMX
          then opener_at i (VFinish k) (w\<lparr>semset := Some (j, v + o_value a, True), inits := inits w @ [(k, v + o_value a)]\<rparr>)
          else opener_at i (VErr (Some k)) w
      | None \<Rightarrow> opener_at i (VErr (Some k)) w)"

text \<open>\<open>ftok\<close> and \<open>semget(key, 0, semflag)\<close>, which never creates (a set of 0 semaphores is refused).\<close>

definition v_get :: "nat \<Rightarrow> sv_world \<Rightarrow> sv_world" where
  "v_get i w =
     (if \<not> path_exists w then opener_at i (VErr None) w
      else case semset w of None \<Rightarrow> opener_at i (VErr None) w | Some (k, _) \<Rightarrow> opener_at i (VStat k 0) w)"

definition v_stat :: "nat \<Rightarrow> nat \<Rightarrow> nat \<Rightarrow> sv_world \<Rightarrow> sv_world" where
  "v_stat k tries i w =
     (case semset w of
        Some (j, _, t) \<Rightarrow>
          if j \<noteq> k then opener_at i (VErr (Some k)) w
          else if t then opener_at i (VFinish k) w
          else opener_at i (if tries + 1 < sv_MAX_TRIES then VStat k (tries + 1) else VErr (Some k)) w
      | None \<Rightarrow> opener_at i (VErr (Some k)) w)"

text \<open>One step of caller \<open>i\<close>; \<open>malloc_ok\<close> matters at the end only.\<close>

fun sv_exec :: "nat \<Rightarrow> (nat \<Rightarrow> open_args) \<Rightarrow> nat \<times> bool \<Rightarrow> sv_world \<Rightarrow> sv_world option" where
  "sv_exec junk args (i, malloc_ok) w =
     (case opener w i of
        VOpenFile \<Rightarrow> Some (v_open (args i) i w)
      | VCreate \<Rightarrow> Some (v_create junk (args i) i w)
      | VSetVal k \<Rightarrow> Some (v_setval (args i) k i w)
      | VSemop k \<Rightarrow> Some (v_semop (args i) k i w)
      | VGet \<Rightarrow> Some (v_get i w)
      | VStat k tries \<Rightarrow> Some (v_stat k tries i w)
      | VFinish k \<Rightarrow> Some (opener_at i (if malloc_ok then VOpened k else VErr (Some k)) w)
      | VErr s \<Rightarrow> Some (opener_at i VFailed (sv_rmid s w))
      | VOpened _ \<Rightarrow> None
      | VFailed \<Rightarrow> None)"

fun sv_script :: "nat \<Rightarrow> (nat \<Rightarrow> open_args) \<Rightarrow> (nat \<times> bool) list \<Rightarrow> sv_world \<Rightarrow> sv_world option" where
  "sv_script junk args [] w = Some w"
| "sv_script junk args (l # ls) w = Option.bind (sv_exec junk args l w) (sv_script junk args ls)"

section \<open>The invariant\<close>

text \<open>The semaphore that a caller has created and not yet initialised.\<close>

fun creating :: "opener \<Rightarrow> nat option" where
  "creating (VSetVal k) = Some k"
| "creating (VSemop k) = Some k"
| "creating _ = None"

fun using_id :: "opener \<Rightarrow> nat option" where
  "using_id (VFinish k) = Some k"
| "using_id (VOpened k) = Some k"
| "using_id _ = None"

definition openers_ok :: "(nat \<Rightarrow> open_args) \<Rightarrow> nat \<Rightarrow> nat set \<Rightarrow> (nat \<Rightarrow> opener) \<Rightarrow> bool" where
  "openers_ok args n initialised f \<longleftrightarrow>
     (\<forall>i k. creating (f i) = Some k \<longrightarrow> k < n \<and> k \<notin> initialised \<and> o_creat (args i)) \<and>
     (\<forall>i j k. creating (f i) = Some k \<longrightarrow> creating (f j) = Some k \<longrightarrow> i = j) \<and>
     (\<forall>i k. using_id (f i) = Some k \<longrightarrow> k \<in> initialised) \<and>
     (\<forall>i k. f i = VSemop k \<longrightarrow> o_value (args i) \<le> SEMVMX) \<and>
     (\<forall>i. f i \<in> {VOpenFile, VCreate} \<longrightarrow> o_creat (args i))"

definition inits_ok :: "(nat \<Rightarrow> open_args) \<Rightarrow> nat \<Rightarrow> (nat \<times> nat) list \<Rightarrow> bool" where
  "inits_ok args n l \<longleftrightarrow> distinct (map fst l) \<and>
     list_all (\<lambda>(k, v). k < n \<and> (\<exists>i. o_creat (args i) \<and> v = o_value (args i) \<and> v \<le> SEMVMX)) l"

fun semset_ok :: "nat \<Rightarrow> (nat \<times> nat) list \<Rightarrow> (nat \<Rightarrow> opener) \<Rightarrow> (nat \<times> nat \<times> bool) option \<Rightarrow> bool" where
  "semset_ok n l f None \<longleftrightarrow> True"
| "semset_ok n l f (Some (k, v, t)) \<longleftrightarrow>
     k < n \<and> (t = (k \<in> fst ` set l)) \<and> (t \<longrightarrow> (k, v) \<in> set l) \<and> (\<forall>i. f i = VSemop k \<longrightarrow> v = 0)"

definition sv_inv :: "(nat \<Rightarrow> open_args) \<Rightarrow> sv_world \<Rightarrow> bool" where
  "sv_inv args w \<longleftrightarrow> inits_ok args (next_id w) (inits w) \<and>
     openers_ok args (next_id w) (fst ` set (inits w)) (opener w) \<and> semset_ok (next_id w) (inits w) (opener w) (semset w)"

lemma openers_move:
  assumes "openers_ok args n I f" "\<And>k. creating pc = Some k \<Longrightarrow> creating (f i) = Some k"
    "\<And>k. using_id pc = Some k \<Longrightarrow> k \<in> I" "\<And>k. pc = VSemop k \<Longrightarrow> o_value (args i) \<le> SEMVMX"
    "pc \<in> {VOpenFile, VCreate} \<Longrightarrow> o_creat (args i)"
  shows "openers_ok args n I (f(i := pc))"
  using assms unfolding openers_ok_def fun_upd_apply by (smt (verit))

lemma openers_create:
  assumes "openers_ok args n I f" "\<And>k. k \<in> I \<Longrightarrow> k < n" "o_creat (args i)"
  shows "openers_ok args (n + 1) I (f(i := VSetVal n))"
  using assms unfolding openers_ok_def by (auto simp: less_Suc_eq)

lemma openers_finish:
  assumes "openers_ok args n I f" "creating (f i) = Some k"
  shows "openers_ok args n (insert k I) (f(i := VFinish k))"
  using assms unfolding openers_ok_def by auto

lemma inits_ids: "inits_ok args n l \<Longrightarrow> k \<in> fst ` set l \<Longrightarrow> k < n"
  by (auto simp: inits_ok_def list_all_iff)

lemma semset_move: "semset_ok n l f s \<Longrightarrow> (\<And>k. pc \<noteq> VSemop k) \<Longrightarrow> semset_ok n l (f(i := pc)) s"
  by (cases s) auto

lemma sv_inv_start: "sv_inv args (sv_start args exists)"
  by (simp add: sv_inv_def sv_start_def inits_ok_def openers_ok_def open_start_def)

text \<open>Steps that only move caller \<open>i\<close>.\<close>

lemma sv_inv_move:
  assumes "sv_inv args w" "creating pc = None" "\<And>k. using_id pc = Some k \<Longrightarrow> k \<in> fst ` set (inits w)"
    "pc \<in> {VOpenFile, VCreate} \<Longrightarrow> o_creat (args i)"
  shows "sv_inv args (opener_at i pc w)"
proof -
  have "pc \<noteq> VSemop k" for k using assms(2) by auto
  then show ?thesis using assms openers_move [of args _ _ _ pc i] semset_move
    by (simp add: sv_inv_def opener_at_def)
qed

lemma sv_inv_moves [simp]:
  "sv_inv args w \<Longrightarrow> sv_inv args (opener_at i (VErr s) w)"
  "sv_inv args w \<Longrightarrow> sv_inv args (opener_at i VGet w)"
  "sv_inv args w \<Longrightarrow> sv_inv args (opener_at i (VStat k t) w)"
  "sv_inv args w \<Longrightarrow> sv_inv args (opener_at i VFailed w)"
  "sv_inv args w \<Longrightarrow> o_creat (args i) \<Longrightarrow> sv_inv args (opener_at i VCreate w)"
  "sv_inv args w \<Longrightarrow> k \<in> fst ` set (inits w) \<Longrightarrow> sv_inv args (opener_at i (VFinish k) w)"
  "sv_inv args w \<Longrightarrow> k \<in> fst ` set (inits w) \<Longrightarrow> sv_inv args (opener_at i (VOpened k) w)"
  by (rule sv_inv_move; simp)+

lemma sv_inv_rmid: "sv_inv args w \<Longrightarrow> sv_inv args (sv_rmid s w)"
  by (simp add: sv_inv_def sv_rmid_def split: option.splits)

lemma sv_inv_create:
  assumes "sv_inv args w" "opener w i = VCreate"
  shows "sv_inv args (v_create junk a i w)"
proof (cases "semset w")
  case None
  have ok: "openers_ok args (next_id w) (fst ` set (inits w)) (opener w)" "inits_ok args (next_id w) (inits w)"
    using assms(1) by (simp_all add: sv_inv_def)
  have "o_creat (args i)" using ok(1) assms(2) by (simp add: openers_ok_def)
  then have "openers_ok args (next_id w + 1) (fst ` set (inits w)) ((opener w)(i := VSetVal (next_id w)))"
    using openers_create [OF ok(1) inits_ids [OF ok(2)]] by simp
  moreover have "inits_ok args (next_id w + 1) (inits w)" using ok(2) by (auto simp: inits_ok_def list_all_iff)
  moreover have "next_id w \<notin> fst ` set (inits w)" using inits_ids [OF ok(2)] by blast
  moreover have "opener w j \<noteq> VSemop (next_id w)" for j
    using ok(1) unfolding openers_ok_def by (metis creating.simps(2) less_irrefl)
  ultimately show ?thesis using None by (simp add: v_create_def opener_at_def sv_inv_def)
next
  case (Some s)
  then show ?thesis using assms(1) by (simp add: v_create_def)
qed

lemma live_Some: "live k w \<Longrightarrow> \<exists>v t. semset w = Some (k, v, t)"
  by (auto simp: live_def split: option.splits)

lemma sv_inv_setval:
  assumes "sv_inv args w" "opener w i = VSetVal k"
  shows "sv_inv args (v_setval (args i) k i w)"
proof (cases "live k w")
  case True
  then obtain v t where s: "semset w = Some (k, v, t)" using live_Some by blast
  let ?pc = "if o_value (args i) > SEMVMX then VErr (Some k) else VSemop k"
  have ok: "openers_ok args (next_id w) (fst ` set (inits w)) (opener w)" using assms(1) by (simp add: sv_inv_def)
  have "k \<notin> fst ` set (inits w)" using ok assms(2) unfolding openers_ok_def by (metis creating.simps(1))
  moreover have "openers_ok args (next_id w) (fst ` set (inits w)) ((opener w)(i := ?pc))"
    by (rule openers_move [OF ok]) (auto simp: assms(2) split: if_splits)
  ultimately show ?thesis using assms(1) s by (simp add: v_setval_def opener_at_def sv_inv_def)
next
  case False
  then have "v_setval (args i) k i w = opener_at i (VErr (Some k)) w"
    by (auto simp: v_setval_def live_def split: option.splits)
  then show ?thesis using assms(1) by simp
qed

lemma sv_inv_semop:
  assumes "sv_inv args w" "opener w i = VSemop k"
  shows "sv_inv args (v_semop (args i) k i w)"
proof (cases "live k w")
  case True
  then obtain v t where s: "semset w = Some (k, v, t)" using live_Some by blast
  have ok: "openers_ok args (next_id w) (fst ` set (inits w)) (opener w)" "inits_ok args (next_id w) (inits w)"
    using assms(1) by (simp_all add: sv_inv_def)
  have v: "v = 0" "o_value (args i) \<le> SEMVMX" "k \<notin> fst ` set (inits w)" "k < next_id w" "o_creat (args i)"
  proof -
    show "v = 0" using assms s by (simp add: sv_inv_def) blast
    have "creating (opener w i) = Some k" using assms(2) by simp
    then show "k \<notin> fst ` set (inits w)" "k < next_id w" "o_creat (args i)" using ok(1) unfolding openers_ok_def by blast+
    show "o_value (args i) \<le> SEMVMX" using ok(1) assms(2) unfolding openers_ok_def by blast
  qed
  have "creating (opener w j) \<noteq> Some k" if "j \<noteq> i" for j
    using ok(1) assms(2) that unfolding openers_ok_def by (metis creating.simps(2))
  then have "\<And>j. j \<noteq> i \<Longrightarrow> opener w j \<noteq> VSemop k" by (metis creating.simps(2))
  moreover have "openers_ok args (next_id w) (insert k (fst ` set (inits w))) ((opener w)(i := VFinish k))"
    by (rule openers_finish [OF ok(1)]) (simp add: assms(2))
  moreover have "inits_ok args (next_id w) (inits w @ [(k, o_value (args i))])"
    using ok(2) v by (auto simp: inits_ok_def)
  ultimately show ?thesis using s v by (simp add: v_semop_def opener_at_def sv_inv_def)
next
  case False
  then have "v_semop (args i) k i w = opener_at i (VErr (Some k)) w"
    by (auto simp: v_semop_def live_def split: option.splits)
  then show ?thesis using assms(1) by simp
qed

lemma sv_inv_stat:
  assumes "sv_inv args w"
  shows "sv_inv args (v_stat k tries i w)"
proof (cases "semset w")
  case (Some s)
  obtain j v t where s: "s = (j, v, t)" by (cases s)
  have "t \<Longrightarrow> j \<in> fst ` set (inits w)" using assms Some by (simp add: s sv_inv_def)
  then show ?thesis using assms Some by (cases t; cases "j = k") (simp_all add: v_stat_def s)
qed (simp add: v_stat_def assms)

lemma sv_inv_exec:
  assumes "sv_inv args w" "sv_exec junk args l w = Some w'"
  shows "sv_inv args w'"
proof (cases l)
  case (Pair i ok)
  have e: "sv_exec junk args (i, ok) w = Some w'" using assms(2) Pair by simp
  have o: "openers_ok args (next_id w) (fst ` set (inits w)) (opener w)" using assms(1) by (simp add: sv_inv_def)
  show ?thesis
  proof (cases "opener w i")
    case VOpenFile
    have "o_creat (args i)" using o VOpenFile by (simp add: openers_ok_def)
    moreover have "sv_inv args (w\<lparr>path_exists := True\<rparr>)" using assms(1) by (simp add: sv_inv_def)
    ultimately show ?thesis using e VOpenFile assms(1) by (auto simp: v_open_def)
  next
    case VCreate
    then show ?thesis using e VCreate sv_inv_create [OF assms(1) VCreate] by auto
  next
    case (VSetVal k)
    then show ?thesis using e VSetVal sv_inv_setval [OF assms(1) VSetVal] by auto
  next
    case (VSemop k)
    then show ?thesis using e VSemop sv_inv_semop [OF assms(1) VSemop] by auto
  next
    case VGet
    then show ?thesis using e assms(1) by (auto simp: v_get_def split: option.splits if_splits)
  next
    case (VStat k tries)
    then show ?thesis using e VStat sv_inv_stat [OF assms(1)] by auto
  next
    case (VFinish k)
    have "k \<in> fst ` set (inits w)" using o VFinish unfolding openers_ok_def by (metis using_id.simps(1))
    then have "sv_inv args (opener_at i (VOpened k) w)" "sv_inv args (opener_at i (VErr (Some k)) w)"
      using assms(1) by simp_all
    then show ?thesis using e VFinish by (cases ok) auto
  next
    case (VErr s)
    then show ?thesis using e VErr sv_inv_rmid [OF assms(1)] by auto
  qed (use e in simp_all)
qed

declare sv_exec.simps [simp del]

inductive sv_step :: "nat \<Rightarrow> (nat \<Rightarrow> open_args) \<Rightarrow> sv_world \<Rightarrow> sv_world \<Rightarrow> bool" for junk args where
  sv_stepI: "sv_exec junk args l w = Some w' \<Longrightarrow> sv_step junk args w w'"

inductive_simps sv_step_simps: "sv_step junk args w w'"

lemma sv_inv_step: "sv_inv args w \<Longrightarrow> sv_step junk args w w' \<Longrightarrow> sv_inv args w'"
  using sv_inv_exec unfolding sv_step_simps by blast

interpretation sv: step_invariant "\<lambda>w. w = sv_start args exists" "sv_step junk args" "sv_inv args" for junk args exists
  by unfold_locales (auto simp: sv_inv_start intro: sv_inv_step)

lemma sv_script_reach:
  "reachable init (sv_step junk args) w \<Longrightarrow> sv_script junk args ls w = Some w' \<Longrightarrow> reachable init (sv_step junk args) w'"
proof (induction ls arbitrary: w)
  case (Cons l ls)
  then obtain v where v: "sv_exec junk args l w = Some v" "sv_script junk args ls v = Some w'"
    by (auto simp: bind_eq_Some_conv simp del: sv_exec.simps)
  show ?case by (rule Cons.IH [OF reach_step [OF Cons.prems(1) sv_stepI [OF v(1)]] v(2)])
qed simp

lemma replicate_nat_numeral: "replicate (numeral n) x = x # replicate (pred_numeral n) x"
  by (simp add: numeral_eq_Suc)

lemmas sv_run_simps = sv_exec.simps sv_start_def open_start_def v_open_def v_create_def v_setval_def v_semop_def
  v_get_def v_stat_def sv_rmid_def live_def opener_at_def SEMVMX_def sv_MAX_TRIES_def
  replicate_nat_numeral

section \<open>Properties\<close>

text \<open>
  C36: With any number of callers, any interleaving and any value that a new System V semaphore may hold:
  whoever gets a semaphore gets one that its creator has initialised, to the value that the creator asked
  for and that fits; every semaphore is initialised at most once; and the one in place has that value as
  soon as \<open>sem_otime\<close> is set.
\<close>

theorem svsem_open_initialised:
  assumes "reachable (\<lambda>w. w = sv_start args exists) (sv_step junk args) w" "opener w i = VOpened k"
  shows "\<exists>v j. (k, v) \<in> set (inits w) \<and> o_creat (args j) \<and> v = o_value (args j) \<and> v \<le> SEMVMX \<and>
    distinct (map fst (inits w)) \<and> (\<forall>u. semset w = Some (k, u, True) \<longrightarrow> u = v)"
proof -
  have inv: "inits_ok args (next_id w) (inits w)" "openers_ok args (next_id w) (fst ` set (inits w)) (opener w)"
    "semset_ok (next_id w) (inits w) (opener w) (semset w)"
    using sv.reachable_inv [OF assms(1)] by (simp_all add: sv_inv_def)
  have "k \<in> fst ` set (inits w)" using inv(2) assms(2) unfolding openers_ok_def by (metis using_id.simps(2))
  then obtain v where v: "(k, v) \<in> set (inits w)" by auto
  have d: "distinct (map fst (inits w))" using inv(1) by (simp add: inits_ok_def)
  obtain j where "o_creat (args j) \<and> v = o_value (args j) \<and> v \<le> SEMVMX"
    using inv(1) v by (auto simp: inits_ok_def list_all_iff)
  moreover have "u = v" if "semset w = Some (k, u, True)" for u
    using inv(3) that v d by (auto intro: eq_key_imp_eq_value)
  ultimately show ?thesis using v d by blast
qed

definition two_callers :: "nat \<Rightarrow> nat \<Rightarrow> open_args" where
  "two_callers v i = \<lparr>o_creat = (i = 0), o_excl = False, o_value = v\<rparr>"

lemma svsem_open_initialised_witness:
  "\<exists>w. sv_script 7 (two_callers 1) (replicate 4 (0, True) @ replicate 3 (1, True) @ [(0, True)]) (sv_start (two_callers 1) False) = Some w \<and>
     opener w 1 = VOpened 0 \<and> (\<exists>v. (0, v) \<in> set (inits w))"
proof -
  let ?ls = "replicate 4 (0, True) @ replicate 3 (1, True) @ [(0, True)]"
  have "case sv_script 7 (two_callers 1) ?ls (sv_start (two_callers 1) False) of None \<Rightarrow> False | Some w \<Rightarrow> opener w 1 = VOpened 0"
    by (simp add: sv_run_simps two_callers_def)
  from case_option_Some [OF this] obtain w
    where w: "sv_script 7 (two_callers 1) ?ls (sv_start (two_callers 1) False) = Some w" "opener w 1 = VOpened 0" by blast
  from svsem_open_initialised [OF sv_script_reach [OF reachable_start w(1)] w(2)] w show ?thesis by blast
qed

text \<open>A semaphore that is gone does not come back, and one that was never initialised is never opened.\<close>

definition gone :: "nat \<Rightarrow> sv_world \<Rightarrow> bool" where
  "gone k w \<longleftrightarrow> k < next_id w \<and> \<not> live k w"

lemma opener_at_simps [simp]:
  "semset (opener_at i pc w) = semset w" "inits (opener_at i pc w) = inits w" "next_id (opener_at i pc w) = next_id w"
  "path_exists (opener_at i pc w) = path_exists w" "live k (opener_at i pc w) = live k w"
  "opener_at i pc (opener_at i pc' w) = opener_at i pc w" "opener (opener_at i pc w) = (opener w)(i := pc)"
  by (simp_all add: opener_at_def live_def)

lemma gone_step:
  assumes "sv_step junk args w w'" "gone k w"
  shows "gone k w' \<and> (k \<notin> fst ` set (inits w) \<longrightarrow> k \<notin> fst ` set (inits w'))"
proof -
  obtain i ok where e: "sv_exec junk args (i, ok) w = Some w'" using assms(1) by (auto simp: sv_step_simps)
  show ?thesis
  proof (cases "opener w i")
    case (VSetVal j)
    then show ?thesis using e assms(2)
      by (auto simp: sv_exec.simps v_setval_def gone_def live_def opener_at_def split: option.splits if_splits)
  next
    case (VSemop j)
    then show ?thesis using e assms(2)
      by (auto simp: sv_exec.simps v_semop_def gone_def live_def opener_at_def split: option.splits if_splits)
  qed (use e assms(2) in \<open>auto simp: sv_exec.simps v_open_def v_create_def v_get_def v_stat_def sv_rmid_def gone_def live_def
        opener_at_def split: option.splits if_splits\<close>)
qed

lemma gone_steps:
  "steps (sv_step junk args) w w' \<Longrightarrow> gone k w \<Longrightarrow> gone k w' \<and> (k \<notin> fst ` set (inits w) \<longrightarrow> k \<notin> fst ` set (inits w'))"
  by (induction rule: steps.induct) (use gone_step in \<open>blast+\<close>)

lemma sv_inv_steps: "steps (sv_step junk args) w w' \<Longrightarrow> sv_inv args w \<Longrightarrow> sv_inv args w'"
  by (induction rule: steps.induct) (auto intro: sv_inv_step)

text \<open>Caller \<open>i\<close> alone, waiting for a semaphore that its creator has not initialised.\<close>

lemma sv_waits_out:
  assumes "semset w = Some (k, v, False)" "opener w i = VGet" "path_exists w"
  shows "sv_script junk args (replicate 12 (i, m)) w = Some (opener_at i VFailed (w\<lparr>semset := None\<rparr>))"
proof -
  have stat: "sv_exec junk args (i, m) (opener_at i (VStat k n) w) =
      Some (opener_at i (if n + 1 < sv_MAX_TRIES then VStat k (n + 1) else VErr (Some k)) w)" for n
    using assms(1) by (simp add: sv_exec.simps v_stat_def)
  have get: "sv_exec junk args (i, m) w = Some (opener_at i (VStat k 0) w)"
    using assms by (simp add: sv_exec.simps v_get_def)
  have err: "sv_exec junk args (i, m) (opener_at i (VErr (Some k)) w) = Some (opener_at i VFailed (w\<lparr>semset := None\<rparr>))"
    using assms(1) by (simp add: sv_exec.simps sv_rmid_def live_def opener_at_def)
  show ?thesis by (simp add: replicate_nat_numeral get stat err sv_MAX_TRIES_def)
qed

text \<open>
  C37: The way out of \<open>mysem_open\<close> after an error removes the semaphore, whoever's it is, with any callers and at any
  moment.  While the creator has not initialised the semaphore in place, a caller that comes to its \<open>semget\<close> and goes
  on alone gives up after ten tries and removes it, and from then on nobody, the creator neither, ever gets that
  semaphore.  A caller that has found it initialised and has no memory for its handle removes it, for ever, and
  the others that have it open keep a handle of nothing.
\<close>

theorem svsem_open_removes:
  assumes "reachable (\<lambda>w. w = sv_start args exists) (sv_step junk args) w" "semset w = Some (k, v, t)"
  shows "(opener w i = VGet \<and> path_exists w \<and> \<not> t \<longrightarrow>
      (\<exists>w'. sv_script junk args (replicate 12 (i, m)) w = Some w' \<and> semset w' = None \<and> opener w' = (opener w)(i := VFailed) \<and>
         \<not> (\<exists>w'' j. steps (sv_step junk args) w' w'' \<and> (opener w'' j = VOpened k \<or> live k w'')))) \<and>
    (opener w i = VFinish k \<longrightarrow>
      (\<exists>w'. sv_script junk args [(i, False), (i, m)] w = Some w' \<and> semset w' = None \<and> opener w' = (opener w)(i := VFailed) \<and>
         \<not> (\<exists>w''. steps (sv_step junk args) w' w'' \<and> live k w'')))"
proof (intro conjI impI)
  have inv: "sv_inv args w" by (rule sv.reachable_inv [OF assms(1)])
  let ?w' = "opener_at i VFailed (w\<lparr>semset := None\<rparr>)"
  have "k < next_id w" using inv assms(2) by (simp add: sv_inv_def)
  then have gone: "gone k ?w'" by (simp add: gone_def live_def)
  show "\<exists>w'. sv_script junk args (replicate 12 (i, m)) w = Some w' \<and> semset w' = None \<and> opener w' = (opener w)(i := VFailed) \<and>
      \<not> (\<exists>w'' j. steps (sv_step junk args) w' w'' \<and> (opener w'' j = VOpened k \<or> live k w''))"
    if c: "opener w i = VGet \<and> path_exists w \<and> \<not> t"
  proof (intro exI [of _ ?w'] conjI notI)
    show "sv_script junk args (replicate 12 (i, m)) w = Some ?w'" using sv_waits_out assms(2) c by simp
    assume "\<exists>w'' j. steps (sv_step junk args) ?w' w'' \<and> (opener w'' j = VOpened k \<or> live k w'')"
    then obtain w'' j where w'': "steps (sv_step junk args) ?w' w''" "opener w'' j = VOpened k \<or> live k w''" by blast
    have "k \<notin> fst ` set (inits ?w')" using inv assms(2) c by (simp add: sv_inv_def)
    then have late: "gone k w''" "k \<notin> fst ` set (inits w'')" using gone_steps [OF w''(1) gone] by simp_all
    have "sv_inv args (w\<lparr>semset := None\<rparr>)" using inv by (simp add: sv_inv_def)
    then have "sv_inv args w''" using sv_inv_steps [OF w''(1)] by simp
    then have "opener w'' j \<noteq> VOpened k" using late(2) unfolding sv_inv_def openers_ok_def by (metis using_id.simps(2))
    with late(1) w''(2) show False by (simp add: gone_def)
  qed simp_all
  show "\<exists>w'. sv_script junk args [(i, False), (i, m)] w = Some w' \<and> semset w' = None \<and> opener w' = (opener w)(i := VFailed) \<and>
      \<not> (\<exists>w''. steps (sv_step junk args) w' w'' \<and> live k w'')"
    if c: "opener w i = VFinish k"
  proof (intro exI [of _ ?w'] conjI notI)
    show "sv_script junk args [(i, False), (i, m)] w = Some ?w'"
      using assms(2) c by (simp add: sv_exec.simps sv_rmid_def live_def opener_at_def)
    assume "\<exists>w''. steps (sv_step junk args) ?w' w'' \<and> live k w''"
    then obtain w'' where "steps (sv_step junk args) ?w' w''" "live k w''" by blast
    then show False using gone_steps [OF _ gone] by (auto simp: gone_def)
  qed simp_all
qed

lemma svsem_open_removes_witness:
  "\<exists>w w'. sv_script 7 (two_callers 1) (replicate 2 (0, True)) (sv_start (two_callers 1) False) = Some w \<and> opener w 0 = VSetVal 0 \<and>
     sv_script 7 (two_callers 1) (replicate 12 (1, True)) w = Some w' \<and> semset w' = None"
proof -
  have "case sv_script 7 (two_callers 1) (replicate 2 (0, True)) (sv_start (two_callers 1) False) of
      None \<Rightarrow> False | Some w \<Rightarrow> semset w = Some (0, 7, False) \<and> opener w 0 = VSetVal 0 \<and> opener w 1 = VGet \<and> path_exists w"
    by (simp add: sv_run_simps two_callers_def)
  from case_option_Some [OF this] obtain w
    where w: "sv_script 7 (two_callers 1) (replicate 2 (0, True)) (sv_start (two_callers 1) False) = Some w"
      "semset w = Some (0, 7, False)" "opener w 0 = VSetVal 0" "opener w 1 = VGet" "path_exists w" by blast
  from svsem_open_removes [OF sv_script_reach [OF reachable_start w(1)] w(2), of 1 True] w(4,5)
  obtain w' where "sv_script 7 (two_callers 1) (replicate 12 (1, True)) w = Some w'" "semset w' = None" by blast
  with w(1,3) show ?thesis by blast
qed

end
