(* ===== verification/FifoFile.thy ===== *)
theory FifoFile
  imports FileServers
begin

text \<open>
  The file server over two FIFOs, \<open>example/unix_network/example/pipe\<close>: \<open>mainfifo.cpp\<close> with its \<open>Client\<close> and
  \<open>Server\<close>, and the same two functions as separate programs (\<open>client.cpp\<close>, \<open>client_main.cpp\<close>, \<open>server.cpp\<close>,
  \<open>server_main.cpp\<close>).  Every system call is a step.  A FIFO has no bound here; a read takes what is there, at
  most \<open>MAXLINE\<close> bytes, and gives 0 when nothing is there and the writer has ended.
\<close>

definition MAXLINE :: nat where
  "MAXLINE = 4096"

section \<open>What the two sides compute\<close>

text \<open>
  \<open>Fgets\<close>, \<open>strlen\<close> and the test of \<open>buf[len - 1]\<close>, which is outside the array for an empty string (and on an array that was
  never written at the end of the input).
\<close>

definition fifo_path :: "string \<Rightarrow> string cxx" where
  "fifo_path input =
     (let buf = c_string (fst (fgets (MAXLINE - 1) input)) in
      if buf = [] then UB else Ok (if last buf = NL then butlast buf else buf))"

text \<open>The message that the file cannot be opened goes behind the path in an array of \<open>MAXLINE + 1\<close>.\<close>

definition open_failed :: "string \<Rightarrow> string \<Rightarrow> string" where
  "open_failed err path = c_string (path @ take (MAXLINE + 1 - length path - 1) err)"

section \<open>State and steps\<close>

datatype fifo = Fifo1 | Fifo2

datatype ff_client = COpen "fifo list" | CSend | CRead | CEnded

datatype ff_server = SOpen "fifo list" | SRead | SCopy string | SEnded | SErrQuit

record ff_state =
  fifo1 :: string
  fifo2 :: string
  ff_c :: ff_client
  ff_s :: ff_server
  printed :: string

definition ff_start :: ff_state where
  "ff_start = \<lparr>fifo1 = [], fifo2 = [], ff_c = COpen [Fifo1, Fifo2], ff_s = SOpen [Fifo1, Fifo2], printed = []\<rparr>"

text \<open>\<open>open\<close> of one end of a FIFO waits for the other end.\<close>

definition ff_meet :: "ff_state \<Rightarrow> ff_state option" where
  "ff_meet st =
     (case (ff_c st, ff_s st) of
        (COpen (f # fs), SOpen (g # gs)) \<Rightarrow>
          if f = g then Some (st\<lparr>ff_c := (if fs = [] then CSend else COpen fs), ff_s := (if gs = [] then SRead else SOpen gs)\<rparr>)
          else None
      | _ \<Rightarrow> None)"

definition ff_client_step :: "string \<Rightarrow> ff_state \<Rightarrow> ff_state option" where
  "ff_client_step path st =
     (case ff_c st of
        CSend \<Rightarrow> Some (st\<lparr>fifo1 := fifo1 st @ path, ff_c := CRead\<rparr>)
      | CRead \<Rightarrow>
          if fifo2 st \<noteq> [] then Some (st\<lparr>printed := printed st @ take MAXLINE (fifo2 st), fifo2 := drop MAXLINE (fifo2 st)\<rparr>)
          else if ff_s st \<in> {SEnded, SErrQuit} then Some (st\<lparr>ff_c := CEnded\<rparr>) else None
      | _ \<Rightarrow> None)"

definition ff_server_step :: "(string \<Rightarrow> string option) \<Rightarrow> string \<Rightarrow> ff_state \<Rightarrow> ff_state option" where
  "ff_server_step fs err st =
     (case ff_s st of
        SRead \<Rightarrow>
          if fifo1 st \<noteq> [] then
            (let buff = take MAXLINE (fifo1 st); st' = st\<lparr>fifo1 := drop MAXLINE (fifo1 st)\<rparr> in
             case fs (c_string buff) of
               None \<Rightarrow> Some (st'\<lparr>fifo2 := fifo2 st @ open_failed err buff, ff_s := SEnded\<rparr>)
             | Some content \<Rightarrow> Some (st'\<lparr>ff_s := SCopy content\<rparr>))
          else if ff_c st = CEnded then Some (st\<lparr>ff_s := SErrQuit\<rparr>) else None
      | SCopy rest \<Rightarrow>
          if rest \<noteq> [] then Some (st\<lparr>fifo2 := fifo2 st @ take MAXLINE rest, ff_s := SCopy (drop MAXLINE rest)\<rparr>)
          else Some (st\<lparr>ff_s := SEnded\<rparr>)
      | _ \<Rightarrow> None)"

datatype ff_label = Meet | ClientCall | ServerCall

fun ff_exec :: "(string \<Rightarrow> string option) \<Rightarrow> string \<Rightarrow> string \<Rightarrow> ff_label \<Rightarrow> ff_state \<Rightarrow> ff_state option" where
  "ff_exec fs err path Meet st = ff_meet st"
| "ff_exec fs err path ClientCall st = ff_client_step path st"
| "ff_exec fs err path ServerCall st = ff_server_step fs err st"

fun ff_run :: "(string \<Rightarrow> string option) \<Rightarrow> string \<Rightarrow> string \<Rightarrow> ff_label list \<Rightarrow> ff_state \<Rightarrow> ff_state option" where
  "ff_run fs err path [] st = Some st"
| "ff_run fs err path (l # ls) st = Option.bind (ff_exec fs err path l st) (ff_run fs err path ls)"

section \<open>The answer\<close>

definition ff_answer :: "(string \<Rightarrow> string option) \<Rightarrow> string \<Rightarrow> string \<Rightarrow> string" where
  "ff_answer fs err path = (case fs path of None \<Rightarrow> open_failed err path | Some content \<Rightarrow> content)"

fun ff_inv :: "(string \<Rightarrow> string option) \<Rightarrow> string \<Rightarrow> string \<Rightarrow> ff_client \<Rightarrow> ff_server \<Rightarrow> string \<Rightarrow> string \<Rightarrow> string \<Rightarrow> bool" where
  "ff_inv fs err path (COpen cs) (SOpen ss) f1 f2 out \<longleftrightarrow> cs = ss \<and> cs \<in> {[Fifo1, Fifo2], [Fifo2]} \<and> f1 = [] \<and> f2 = [] \<and> out = []"
| "ff_inv fs err path CSend SRead f1 f2 out \<longleftrightarrow> f1 = [] \<and> f2 = [] \<and> out = []"
| "ff_inv fs err path CRead SRead f1 f2 out \<longleftrightarrow> f1 = path \<and> f2 = [] \<and> out = []"
| "ff_inv fs err path CRead (SCopy rest) f1 f2 out \<longleftrightarrow> f1 = [] \<and> out @ f2 @ rest = ff_answer fs err path"
| "ff_inv fs err path CRead SEnded f1 f2 out \<longleftrightarrow> f1 = [] \<and> out @ f2 = ff_answer fs err path"
| "ff_inv fs err path CEnded SEnded f1 f2 out \<longleftrightarrow> f1 = [] \<and> f2 = [] \<and> out = ff_answer fs err path"
| "ff_inv fs err path _ _ f1 f2 out \<longleftrightarrow> False"

abbreviation ff_ok :: "(string \<Rightarrow> string option) \<Rightarrow> string \<Rightarrow> string \<Rightarrow> ff_state \<Rightarrow> bool" where
  "ff_ok fs err path st \<equiv> ff_inv fs err path (ff_c st) (ff_s st) (fifo1 st) (fifo2 st) (printed st)"

text \<open>The calls left, at most; \<open>n\<close> is the length of the answer.\<close>

fun ff_left :: "nat \<Rightarrow> ff_client \<Rightarrow> ff_server \<Rightarrow> string \<Rightarrow> nat" where
  "ff_left n (COpen cs) (SOpen ss) f2 = length cs + 2 * n + 4"
| "ff_left n CSend SRead f2 = 2 * n + 4"
| "ff_left n CRead SRead f2 = 2 * n + 3"
| "ff_left n CRead (SCopy rest) f2 = 2 * length rest + length f2 + 2"
| "ff_left n CRead SEnded f2 = length f2 + 1"
| "ff_left n _ _ f2 = 0"

abbreviation ff_steps_left :: "(string \<Rightarrow> string option) \<Rightarrow> string \<Rightarrow> string \<Rightarrow> ff_state \<Rightarrow> nat" where
  "ff_steps_left fs err path st \<equiv> ff_left (length (ff_answer fs err path)) (ff_c st) (ff_s st) (fifo2 st)"

definition path_ok :: "string \<Rightarrow> bool" where
  "path_ok path \<longleftrightarrow> path \<noteq> [] \<and> NUL \<notin> set path \<and> length path \<le> MAXLINE"

lemma path_ok_simps: "path_ok path \<Longrightarrow> c_string path = path \<and> take MAXLINE path = path \<and> drop MAXLINE path = [] \<and> path \<noteq> []"
  by (auto simp: path_ok_def c_string_def takeWhile_eq_all_conv)

lemma fgets_numeral:
  "fgets (numeral k) (c # s) = (if c = NL then ([c], s) else let (l, r) = fgets (pred_numeral k) s in (c # l, r))"
  by (simp add: numeral_eq_Suc)

lemma fifo_path_examples: "fifo_path [CHR ''f'', NL] = Ok ''f''" "fifo_path [NL] = Ok []"
proof -
  have "MAXLINE - 1 = 4095" by (simp add: MAXLINE_def)
  then show "fifo_path [CHR ''f'', NL] = Ok ''f''" "fifo_path [NL] = Ok []"
    unfolding fifo_path_def by (simp_all add: fgets_numeral c_string_def NUL_def NL_def)
qed

lemma MAXLINE_pos: "0 < MAXLINE"
  by (simp add: MAXLINE_def)

lemma take_drop_append [simp]: "take n xs @ drop n xs @ r = xs @ r"
  by (metis append_assoc append_take_drop_id)

lemma ff_exec_ok:
  assumes "path_ok path" "ff_ok fs err path st" "ff_exec fs err path l st = Some st'"
  shows "ff_ok fs err path st' \<and> ff_steps_left fs err path st' < ff_steps_left fs err path st"
proof (cases l)
  case Meet
  then show ?thesis using assms(2,3)
    by (cases "ff_c st"; cases "ff_s st") (auto simp: ff_meet_def split: list.splits if_splits)
next
  case ClientCall
  have "length (drop MAXLINE (fifo2 st)) < length (fifo2 st)" if "fifo2 st \<noteq> []" using that MAXLINE_pos by simp
  then show ?thesis using assms(2,3) ClientCall MAXLINE_pos
    by (cases "ff_c st"; cases "ff_s st") (auto simp: ff_client_step_def split: if_splits)
next
  case ServerCall
  show ?thesis
  proof (cases "ff_s st")
    case SRead
    then show ?thesis using assms ServerCall path_ok_simps [OF assms(1)]
      by (cases "ff_c st"; cases "fs path") (auto simp: ff_server_step_def ff_answer_def Let_def split: if_splits)
  next
    case (SCopy rest)
    have "length (drop MAXLINE rest) < length rest" if "rest \<noteq> []" using that MAXLINE_pos by simp
    moreover have "length (take MAXLINE rest) + length (drop MAXLINE rest) = length rest" by simp
    ultimately show ?thesis using assms(2,3) ServerCall SCopy
      by (cases "ff_c st") (auto simp: ff_server_step_def simp del: length_drop length_take split: if_splits)
  qed (use assms ServerCall in \<open>simp_all add: ff_server_step_def\<close>)
qed

lemma ff_run_ok:
  assumes "path_ok path"
  shows "ff_ok fs err path st \<Longrightarrow> ff_run fs err path ls st = Some st' \<Longrightarrow>
    ff_ok fs err path st' \<and> length ls + ff_steps_left fs err path st' \<le> ff_steps_left fs err path st"
proof (induction ls arbitrary: st)
  case (Cons l ls)
  obtain s where s: "ff_exec fs err path l st = Some s" "ff_run fs err path ls s = Some st'"
    using Cons.prems(2) by (auto simp: bind_eq_Some_conv)
  then show ?case using Cons.IH [of s] ff_exec_ok [OF assms Cons.prems(1) s(1)] by auto
qed simp

lemma ff_progress:
  assumes "path_ok path" "ff_ok fs err path st"
  shows "ff_c st = CEnded \<and> ff_s st = SEnded \<or> (\<exists>l st'. ff_exec fs err path l st = Some st')"
proof (cases "ff_c st"; cases "ff_s st")
  fix cs ss assume "ff_c st = COpen cs" "ff_s st = SOpen ss"
  then have "ff_exec fs err path Meet st \<noteq> None" using assms by (auto simp: ff_meet_def)
  then show ?thesis by blast
next
  assume "ff_c st = CSend" "ff_s st = SRead"
  then have "ff_exec fs err path ClientCall st \<noteq> None" by (simp add: ff_client_step_def)
  then show ?thesis by blast
next
  assume "ff_c st = CRead" "ff_s st = SRead"
  then have "ff_exec fs err path ServerCall st \<noteq> None"
    using assms path_ok_simps [OF assms(1)] by (simp add: ff_server_step_def Let_def split: option.splits)
  then show ?thesis by blast
next
  fix rest assume "ff_c st = CRead" "ff_s st = SCopy rest"
  then have "ff_exec fs err path ServerCall st \<noteq> None" by (simp add: ff_server_step_def)
  then show ?thesis by blast
next
  assume "ff_c st = CRead" "ff_s st = SEnded"
  then have "ff_exec fs err path ClientCall st \<noteq> None" by (simp add: ff_client_step_def)
  then show ?thesis by blast
qed (use assms in simp_all)

lemma fifo_path_ok:
  assumes "fifo_path input = Ok path" "path \<noteq> []"
  shows "path_ok path"
proof -
  define buf where "buf = c_string (fst (fgets (MAXLINE - 1) input))"
  have "length (fst (fgets n s)) \<le> n" for n s
    by (induction n s rule: fgets.induct) (auto simp: Let_def split: prod.splits)
  moreover have "length buf \<le> length (fst (fgets (MAXLINE - 1) input))"
    unfolding buf_def c_string_def by (rule length_takeWhile_le)
  ultimately have l: "length buf \<le> MAXLINE - 1" by (rule le_trans [rotated])
  have n: "NUL \<notin> set buf" by (auto simp: buf_def c_string_def dest: set_takeWhileD)
  have "path = (if last buf = NL then butlast buf else buf)"
    using assms(1) unfolding fifo_path_def buf_def [symmetric] Let_def by (auto split: if_splits)
  then show ?thesis using l n assms(2) by (auto simp: path_ok_def dest: in_set_butlastD split: if_splits)
qed

text \<open>
  C39: The file server over FIFOs, for a line that gives a path: whatever way the calls of client and server
  interleave, the client has printed the beginning of the file (or of the message that it cannot be
  opened), there are at most \<open>2 * n + 6\<close> calls for an answer of \<open>n\<close> bytes, and the processes can go on until
  both have ended and all of it is printed.
\<close>

theorem fifo_file_server:
  assumes "fifo_path input = Ok path" "path \<noteq> []" "ff_run fs err path ls ff_start = Some st"
  shows "take (length (printed st)) (ff_answer fs err path) = printed st \<and>
    length ls \<le> 2 * length (ff_answer fs err path) + 6 \<and>
    (ff_c st = CEnded \<and> ff_s st = SEnded \<and> printed st = ff_answer fs err path \<or>
      (\<exists>l st'. ff_exec fs err path l st = Some st'))"
proof -
  have p: "path_ok path" by (rule fifo_path_ok [OF assms(1,2)])
  have "ff_ok fs err path ff_start" by (simp add: ff_start_def)
  then have st: "ff_ok fs err path st" "length ls \<le> ff_steps_left fs err path ff_start"
    using ff_run_ok [OF p _ assms(3)] by auto
  have "take (length (printed st)) (ff_answer fs err path) = printed st"
    using st(1) by (cases "ff_c st"; cases "ff_s st") (auto dest: arg_cong [where f = "take (length (printed st))"])
  moreover have "ff_steps_left fs err path ff_start = 2 * length (ff_answer fs err path) + 6" by (simp add: ff_start_def)
  moreover have "printed st = ff_answer fs err path" if "ff_c st = CEnded" "ff_s st = SEnded" using st(1) that by simp
  ultimately show ?thesis using st(2) ff_progress [OF p st(1)] by auto
qed

lemma fifo_file_server_witness:
  "\<exists>st. ff_run (\<lambda>p. if p = ''f'' then Some ''hi'' else None) ''?'' ''f'' [Meet, Meet, ClientCall, ServerCall] ff_start = Some st \<and>
     printed st = []"
proof -
  let ?fs = "\<lambda>p. if p = ''f'' then Some ''hi'' else None"
  have "case ff_run ?fs ''?'' ''f'' [Meet, Meet, ClientCall, ServerCall] ff_start of None \<Rightarrow> False | Some st \<Rightarrow> printed st = []"
    by (simp add: ff_start_def ff_meet_def ff_client_step_def ff_server_step_def MAXLINE_def Let_def c_string_def NUL_def)
  from case_option_Some [OF this] obtain st
    where st: "ff_run ?fs ''?'' ''f'' [Meet, Meet, ClientCall, ServerCall] ff_start = Some st" "printed st = []" by blast
  from fifo_file_server [OF fifo_path_examples(1) _ st(1)] st show ?thesis by simp
qed

text \<open>An empty line sends nothing: client and server wait for each other.\<close>

lemma fifo_empty_line:
  "fifo_path [NL] = Ok [] \<and>
   (case ff_run fs err [] [Meet, Meet, ClientCall] ff_start of
      None \<Rightarrow> False | Some st \<Rightarrow> ff_c st = CRead \<and> ff_s st = SRead \<and> (\<forall>l. ff_exec fs err [] l st = None))"
proof
  show "fifo_path [NL] = Ok []" by (rule fifo_path_examples)
  have "ff_exec fs err [] l \<lparr>fifo1 = [], fifo2 = [], ff_c = CRead, ff_s = SRead, printed = []\<rparr> = None" for l
    by (cases l) (simp_all add: ff_meet_def ff_client_step_def ff_server_step_def)
  then show "case ff_run fs err [] [Meet, Meet, ClientCall] ff_start of
      None \<Rightarrow> False | Some st \<Rightarrow> ff_c st = CRead \<and> ff_s st = SRead \<and> (\<forall>l. ff_exec fs err [] l st = None)"
    by (simp add: ff_start_def ff_meet_def ff_client_step_def)
qed

end
