(* ===== verification/FileLocks.thy ===== *)
theory FileLocks
  imports CStrings
begin

text \<open>
  Record locks on a whole file, \<open>example/unix_network/example/lock\<close>: \<open>lockmain.cpp\<close> (with \<open>lockfcntl.h\<close>), processes that take
  sequence numbers from a file, and \<open>onedameon.cpp\<close> (with \<open>lib/lock_reg.cpp\<close>), a daemon that runs once.
  Every system call is a step; \<open>fcntl\<close> works as Posix says for a write lock on the whole file.
\<close>

section \<open>Numbers in a file\<close>

text \<open>
  \<open>sscanf(line, "%ld", &seqno)\<close>: nothing is stored when there is no number; a number that a \<open>long\<close> does not hold is
  undefined.
\<close>

definition LONG_MAX :: int where
  "LONG_MAX = 2 ^ 63 - 1"

definition is_digit :: "char \<Rightarrow> bool" where
  "is_digit c \<longleftrightarrow> 0 \<le> digit_value c \<and> digit_value c \<le> 9"

definition scan_ld :: "string \<Rightarrow> int option cxx" where
  "scan_ld s =
     (let s1 = dropWhile is_space s; neg = (s1 \<noteq> [] \<and> hd s1 = CHR ''-'');
          ds = (if s1 \<noteq> [] \<and> hd s1 \<in> {CHR ''-'', CHR ''+''} then tl s1 else s1);
          i = (if neg then - atoi_digits 0 ds else atoi_digits 0 ds)
      in if ds \<noteq> [] \<and> is_digit (hd ds) then if - LONG_MAX - 1 \<le> i \<and> i \<le> LONG_MAX then Ok (Some i) else UB
         else Ok None)"

definition show_int :: "int \<Rightarrow> string" where
  "show_int i = (if i < 0 then CHR ''-'' # show_nat (nat (- i)) else show_nat (nat i))"

text \<open>\<open>Lseek\<close> to 0 and \<open>Write\<close>: the beginning of the file is replaced, what is behind it stays.\<close>

definition overwrite :: "string \<Rightarrow> string \<Rightarrow> string" where
  "overwrite line content = line @ drop (length line) content"

section \<open>lockmain\<close>

datatype lock_pc = LLock | LRead | LPrint | LWrite | LUnlock | LExit | LUndefined

record locker =
  lpc :: lock_pc
  turn :: nat
  seqno :: "int option"

record lock_world =
  held_by :: "nat option"
  content :: string
  lockers :: "locker list"
  shown :: "(nat \<times> int) list"

definition lock_turns :: nat where
  "lock_turns = 20"

definition lock_start :: "nat \<Rightarrow> string \<Rightarrow> lock_world" where
  "lock_start np text = \<lparr>held_by = None, content = text,
     lockers = replicate np \<lparr>lpc = LLock, turn = 0, seqno = None\<rparr>, shown = []\<rparr>"

definition set_locker :: "nat \<Rightarrow> locker \<Rightarrow> lock_world \<Rightarrow> lock_world" where
  "set_locker p l w = w\<lparr>lockers := (lockers w)[p := l]\<rparr>"

text \<open>\<open>my_lock\<close>: \<open>F_SETLKW\<close> waits while another process holds the lock; \<open>my_unlock\<close>.\<close>

definition my_lock :: "nat \<Rightarrow> lock_world \<Rightarrow> lock_world option" where
  "my_lock p w = (if held_by w \<in> {None, Some p} then Some (w\<lparr>held_by := Some p\<rparr>) else None)"

definition my_unlock :: "nat \<Rightarrow> lock_world \<Rightarrow> lock_world" where
  "my_unlock p w = (if held_by w = Some p then w\<lparr>held_by := None\<rparr> else w)"

text \<open>\<open>LPrint\<close> is the \<open>printf\<close> and the increment: undefined for an unset \<open>seqno\<close>, and when the increment overflows.\<close>

definition lock_exec :: "nat \<Rightarrow> lock_world \<Rightarrow> lock_world option" where
  "lock_exec p w =
     (if p \<ge> length (lockers w) then None
      else let l = lockers w ! p in
        case lpc l of
          LLock \<Rightarrow> if turn l \<ge> lock_turns then Some (set_locker p (l\<lparr>lpc := LExit\<rparr>) w)
                   else map_option (set_locker p (l\<lparr>lpc := LRead\<rparr>)) (my_lock p w)
        | LRead \<Rightarrow> Some (set_locker p
            (case scan_ld (content w) of
               Ok None \<Rightarrow> l\<lparr>lpc := LPrint\<rparr>
             | Ok (Some i) \<Rightarrow> l\<lparr>seqno := Some i, lpc := LPrint\<rparr>
             | _ \<Rightarrow> l\<lparr>lpc := LUndefined\<rparr>) w)
        | LPrint \<Rightarrow> (case seqno l of
              None \<Rightarrow> Some (set_locker p (l\<lparr>lpc := LUndefined\<rparr>) w)
            | Some i \<Rightarrow> let w = w\<lparr>shown := shown w @ [(p, i)]\<rparr> in
                if i = LONG_MAX then Some (set_locker p (l\<lparr>lpc := LUndefined\<rparr>) w)
                else Some (set_locker p (l\<lparr>seqno := Some (i + 1), lpc := LWrite\<rparr>) w))
        | LWrite \<Rightarrow> (case seqno l of
              None \<Rightarrow> None
            | Some i \<Rightarrow> Some (set_locker p (l\<lparr>lpc := LUnlock\<rparr>) (w\<lparr>content := overwrite (show_int i @ [NL]) (content w)\<rparr>)))
        | LUnlock \<Rightarrow> Some (set_locker p (l\<lparr>turn := turn l + 1, lpc := LLock\<rparr>) (my_unlock p w))
        | LExit \<Rightarrow> None
        | LUndefined \<Rightarrow> None)"

inductive lock_step :: "lock_world \<Rightarrow> lock_world \<Rightarrow> bool" where
  lock_stepI: "lock_exec p w = Some w' \<Longrightarrow> lock_step w w'"

inductive_simps lock_step_simps: "lock_step w w'"

section \<open>The numbers grow in the file\<close>

lemma show_nat_first: "\<exists>c cs. show_nat n = c # cs \<and> is_digit c"
  using show_nat_digits [of n] by (cases "show_nat n") (auto simp: is_digit_def show_nat.simps [of n] split: if_splits)

lemma digit_plain: "is_digit c \<Longrightarrow> \<not> is_space c \<and> c \<noteq> CHR ''-'' \<and> c \<noteq> CHR ''+''"
  by (auto simp: is_digit_def is_space_def digit_value_def)

lemma scan_show: "int n \<le> LONG_MAX \<Longrightarrow> scan_ld (show_nat n @ [NL]) = Ok (Some (int n))"
proof -
  assume n: "int n \<le> LONG_MAX"
  obtain c cs where c: "show_nat n = c # cs" "is_digit c" using show_nat_first by blast
  have "atoi_digits 0 (show_nat n @ [NL]) = int n"
    using atoi_digits_append [OF show_nat_digits, of 0 n "[NL]"] by (simp add: atoi_show_nat digit_value_def NL_def)
  moreover have "- LONG_MAX - 1 \<le> int n" by (simp add: LONG_MAX_def)
  ultimately show ?thesis using n c digit_plain [OF c(2)] by (auto simp: scan_ld_def Let_def)
qed

lemma show_nat_longer: "length (show_nat n) \<le> length (show_nat (Suc n))"
proof (induction n rule: show_nat.induct)
  case (1 n)
  show ?case
  proof (cases "n < 10")
    case True
    then show ?thesis by (simp add: show_nat.simps [of n] show_nat.simps [of "Suc n"])
  next
    case False
    then have "length (show_nat (n div 10)) \<le> length (show_nat (Suc n div 10))"
      using 1 by (cases "Suc n div 10 = n div 10") (auto simp: div_Suc)
    then show ?thesis using False by (simp add: show_nat.simps [of n] show_nat.simps [of "Suc n"])
  qed
qed

lemma overwrite_next: "overwrite (show_int (int n + 1) @ [NL]) (show_nat n @ [NL]) = show_nat (Suc n) @ [NL]"
proof -
  have "show_int (int n + 1) = show_nat (Suc n)" by (simp add: show_int_def nat_add_distrib)
  then show ?thesis using show_nat_longer [of n] by (simp add: overwrite_def)
qed

section \<open>The invariant\<close>

definition in_region :: "lock_pc \<Rightarrow> bool" where
  "in_region pc \<longleftrightarrow> pc \<in> {LRead, LPrint, LWrite, LUnlock}"

text \<open>\<open>k\<close> is the number in the file; what a process in the region knows of it.\<close>

definition locker_ok :: "nat \<Rightarrow> locker \<Rightarrow> bool" where
  "locker_ok k l \<longleftrightarrow> turn l \<le> lock_turns \<and>
     (case lpc l of
        LPrint \<Rightarrow> seqno l = Some (int k) | LWrite \<Rightarrow> seqno l = Some (int k + 1) | LUndefined \<Rightarrow> False
      | LExit \<Rightarrow> turn l = lock_turns | LLock \<Rightarrow> True | _ \<Rightarrow> turn l < lock_turns) \<and>
     (lpc l \<in> {LPrint, LWrite} \<longrightarrow> turn l < lock_turns)"

definition done_turns :: "locker \<Rightarrow> nat" where
  "done_turns l = turn l + of_bool (lpc l = LUnlock)"

definition lock_inv :: "nat \<Rightarrow> nat \<Rightarrow> lock_world \<Rightarrow> bool" where
  "lock_inv k0 np w \<longleftrightarrow>
     length (lockers w) = np \<and> int (k0 + lock_turns * np) \<le> LONG_MAX \<and>
     (\<forall>p < np. in_region (lpc (lockers w ! p)) = (held_by w = Some p)) \<and> (\<forall>p. held_by w = Some p \<longrightarrow> p < np) \<and>
     (let k = k0 + sum_list (map done_turns (lockers w)) in
        content w = show_nat k @ [NL] \<and> list_all (locker_ok k) (lockers w) \<and>
        map snd (shown w) = map int [k0..<k + how_many (\<lambda>l. lpc l = LWrite) (lockers w)])"

lemma sum_list_swap:
  "p < length xs \<Longrightarrow> sum_list (map f (xs[p := x])) + f (xs ! p) = sum_list (map f xs) + (f x :: nat)"
proof (induction xs arbitrary: p)
  case (Cons a xs)
  then show ?case by (cases p) (auto simp: add.assoc add.left_commute)
qed simp

text \<open>Outside the region a process knows nothing of the number.\<close>

lemma locker_ok_other: "locker_ok k l \<Longrightarrow> \<not> in_region (lpc l) \<Longrightarrow> locker_ok k' l"
  by (auto simp: locker_ok_def in_region_def split: lock_pc.splits)

lemma lock_inv_start: "int (k0 + lock_turns * np) \<le> LONG_MAX \<Longrightarrow> lock_inv k0 np (lock_start np (show_nat k0 @ [NL]))"
  by (auto simp: lock_inv_def lock_start_def in_region_def locker_ok_def done_turns_def list_all_iff sum_list_replicate)

definition file_number :: "nat \<Rightarrow> lock_world \<Rightarrow> nat" where
  "file_number k0 w = k0 + sum_list (map done_turns (lockers w))"

lemma lock_invD:
  assumes "lock_inv k0 np w"
  shows "length (lockers w) = np" "p < np \<Longrightarrow> in_region (lpc (lockers w ! p)) \<longleftrightarrow> held_by w = Some p"
    "content w = show_nat (file_number k0 w) @ [NL]" "p < np \<Longrightarrow> locker_ok (file_number k0 w) (lockers w ! p)"
    "map snd (shown w) = map int [k0..<file_number k0 w + how_many (\<lambda>l. lpc l = LWrite) (lockers w)]"
    "held_by w = Some p \<Longrightarrow> p < np" "int (k0 + lock_turns * np) \<le> LONG_MAX"
  using assms by (auto simp: lock_inv_def file_number_def Let_def list_all_length)

text \<open>The number stays in the range of \<open>long\<close>, and below its end while a turn is to come.\<close>

lemma done_turns_le: "locker_ok k l \<Longrightarrow> done_turns l \<le> lock_turns"
  by (auto simp: locker_ok_def done_turns_def split: lock_pc.splits)

lemma turns_bound: "(\<And>l. l \<in> set ls \<Longrightarrow> done_turns l \<le> lock_turns) \<Longrightarrow> sum_list (map done_turns ls) \<le> lock_turns * length ls"
proof (induction ls)
  case (Cons l ls)
  have "done_turns l \<le> lock_turns" by (rule Cons.prems) simp
  moreover have "sum_list (map done_turns ls) \<le> lock_turns * length ls" by (rule Cons.IH) (simp add: Cons.prems)
  ultimately show ?case by simp
qed simp

lemma file_number_bound:
  assumes "lock_inv k0 np w"
  shows "int (file_number k0 w) \<le> LONG_MAX"
    and "p < np \<Longrightarrow> done_turns (lockers w ! p) < lock_turns \<Longrightarrow> int (file_number k0 w) < LONG_MAX"
proof -
  note i = lock_invD [OF assms]
  have le: "done_turns l \<le> lock_turns" if "l \<in> set (lockers w)" for l
    using that i(1) done_turns_le [OF i(4)] by (auto simp: in_set_conv_nth)
  have "sum_list (map done_turns (lockers w)) \<le> lock_turns * np" using turns_bound [of "lockers w", OF le] i(1) by simp
  then have "int (file_number k0 w) \<le> int (k0 + lock_turns * np)"
    unfolding of_nat_le_iff by (simp add: file_number_def)
  then show "int (file_number k0 w) \<le> LONG_MAX" using i(7) by (rule order_trans)
  assume p: "p < np" "done_turns (lockers w ! p) < lock_turns"
  let ?l = "(lockers w ! p)\<lparr>turn := lock_turns, lpc := LExit\<rparr>"
  have new: "done_turns ?l = lock_turns" by (simp add: done_turns_def)
  have "sum_list (map done_turns ((lockers w)[p := ?l])) \<le> lock_turns * length ((lockers w)[p := ?l])"
  proof (rule turns_bound)
    fix l assume "l \<in> set ((lockers w)[p := ?l])"
    then have "l \<in> set (lockers w) \<or> l = ?l" using set_update_subset_insert by fast
    then show "done_turns l \<le> lock_turns"
    proof
      assume "l \<in> set (lockers w)"
      then show ?thesis by (rule le)
    next
      assume "l = ?l"
      then show ?thesis by (simp only: new order_refl)
    qed
  qed
  then have "file_number k0 w < k0 + lock_turns * np"
    using sum_list_swap [of p "lockers w" done_turns ?l] p i(1) new by (simp add: file_number_def)
  then have "int (file_number k0 w) < int (k0 + lock_turns * np)" by (simp only: of_nat_less_iff)
  then show "int (file_number k0 w) < LONG_MAX" using i(7) by (rule less_le_trans)
qed

text \<open>Only the holder can be at its \<open>Write\<close>.\<close>

lemma no_writer:
  assumes "lock_inv k0 np w" "p < np" "held_by w \<in> {None, Some p}"
    "lpc (lockers w ! p) \<noteq> LWrite"
  shows "how_many (\<lambda>l. lpc l = LWrite) (lockers w) = 0"
proof -
  have "lpc (lockers w ! r) \<noteq> LWrite" if "r < np" for r
    using lock_invD(2) [OF assms(1) that] assms(3,4) by (cases "r = p") (auto simp: in_region_def)
  then show ?thesis using lock_invD(1) [OF assms(1)] by (auto simp: how_many_0 in_set_conv_nth)
qed

lemma lock_inv_move:
  assumes inv: "lock_inv k0 np w" and p: "p < np" and w': "lockers w' = (lockers w)[p := l]" "content w' = content w"
    and dn: "done_turns l = done_turns (lockers w ! p)" and ok: "locker_ok (file_number k0 w) l"
    and own: "in_region (lpc l) \<longleftrightarrow> held_by w' = Some p" and others: "\<And>q. q \<noteq> p \<Longrightarrow> held_by w' = Some q \<longleftrightarrow> held_by w = Some q"
    and sh: "map snd (shown w') = map int [k0..<file_number k0 w + how_many (\<lambda>l. lpc l = LWrite) (lockers w')]"
  shows "lock_inv k0 np w'"
proof -
  note i = lock_invD [OF inv]
  have "sum_list (map done_turns (lockers w')) = sum_list (map done_turns (lockers w))"
    using sum_list_swap [of p "lockers w" done_turns l] p i(1) dn w'(1) by simp
  moreover have "list_all (locker_ok (file_number k0 w)) (lockers w')"
    using i(1,4) ok p w'(1) by (auto simp: list_all_length nth_list_update)
  moreover have "in_region (lpc (lockers w' ! q)) \<longleftrightarrow> held_by w' = Some q" if "q < np" for q
    using i(1,2) own others p w'(1) that by (cases "q = p") auto
  moreover have "held_by w' = Some q \<Longrightarrow> q < np" for q using others [of q] i(6) p by (cases "q = p") auto
  ultimately show ?thesis using i(1,3,7) w' sh by (simp add: lock_inv_def file_number_def Let_def)
qed

lemma lock_inv_write:
  assumes inv: "lock_inv k0 np w" and p: "p < np" "lpc (lockers w ! p) = LWrite" and e: "lock_exec p w = Some w'"
  shows "lock_inv k0 np w'"
proof -
  note i = lock_invD [OF inv]
  let ?l = "lockers w ! p" and ?k = "file_number k0 w"
  have h: "held_by w = Some p" using i(2) p by (auto simp: in_region_def)
  have s: "seqno ?l = Some (int ?k + 1)" "turn ?l < lock_turns" using i(4) [OF p(1)] p(2) by (simp_all add: locker_ok_def)
  let ?ls = "(lockers w)[p := ?l\<lparr>lpc := LUnlock\<rparr>]"
  have w': "w' = w\<lparr>content := show_nat (Suc ?k) @ [NL], lockers := ?ls\<rparr>"
    using e p i(1,3) s(1) overwrite_next [of ?k] by (simp add: lock_exec_def set_locker_def Let_def)
  have "sum_list (map done_turns ?ls) = Suc (sum_list (map done_turns (lockers w)))"
    using sum_list_swap [of p "lockers w" done_turns "?l\<lparr>lpc := LUnlock\<rparr>"] p i(1) by (simp add: done_turns_def)
  then have k: "file_number k0 w' = Suc ?k" by (simp add: file_number_def w')
  have ok: "locker_ok (Suc ?k) (?ls ! q)" if "q < np" for q
  proof (cases "q = p")
    case True
    then show ?thesis using s(2) p i(1) by (simp add: locker_ok_def)
  next
    case False
    then have "\<not> in_region (lpc (lockers w ! q))" using i(2) [OF that] h by simp
    then show ?thesis using locker_ok_other [OF i(4) [OF that]] False by simp
  qed
  have "how_many (\<lambda>l. lpc l = LWrite) ?ls + 1 = how_many (\<lambda>l. lpc l = LWrite) (lockers w)"
    using how_many_update [of p "lockers w" "\<lambda>l. lpc l = LWrite" "?l\<lparr>lpc := LUnlock\<rparr>"] p i(1) by simp
  then have "?k + how_many (\<lambda>l. lpc l = LWrite) (lockers w) = Suc ?k + how_many (\<lambda>l. lpc l = LWrite) ?ls" by simp
  then have "map snd (shown w') = map int [k0..<Suc ?k + how_many (\<lambda>l. lpc l = LWrite) ?ls]" using i(5) w' by simp
  moreover have "in_region (lpc (?ls ! q)) \<longleftrightarrow> held_by w = Some q" if "q < np" for q
    using i(1,2) that h p by (cases "q = p") (auto simp: in_region_def)
  ultimately show ?thesis using i(1,6,7) ok k
    unfolding lock_inv_def Let_def file_number_def [symmetric] by (simp add: w' list_all_length)
qed

lemma lock_inv_exec:
  assumes inv: "lock_inv k0 np w" and e: "lock_exec p w = Some w'"
  shows "lock_inv k0 np w'"
proof -
  note i = lock_invD [OF inv]
  have p: "p < np" "p < length (lockers w)" using e i(1) by (auto simp: lock_exec_def split: if_splits)
  let ?l = "lockers w ! p" and ?k = "file_number k0 w" and ?W = "\<lambda>l. lpc l = LWrite"
  note hw = how_many_update [OF p(2), of ?W] and ok = i(4) [OF p(1)] and r = i(2) [OF p(1)]
  show ?thesis
  proof (cases "lpc ?l")
    case LLock
    show ?thesis
    proof (cases "turn ?l \<ge> lock_turns")
      case True
      then have "w' = set_locker p (?l\<lparr>lpc := LExit\<rparr>) w" using e p LLock by (simp add: lock_exec_def Let_def)
      then show ?thesis using LLock r ok hw [of "?l\<lparr>lpc := LExit\<rparr>"] i(5) True
        by (intro lock_inv_move [OF inv p(1), of w' "?l\<lparr>lpc := LExit\<rparr>"])
          (auto simp: set_locker_def done_turns_def locker_ok_def in_region_def)
    next
      case False
      then have "w' = set_locker p (?l\<lparr>lpc := LRead\<rparr>) (w\<lparr>held_by := Some p\<rparr>)" "held_by w \<in> {None, Some p}"
        using e p LLock by (auto simp: lock_exec_def Let_def my_lock_def split: if_splits)
      then show ?thesis using LLock r ok hw [of "?l\<lparr>lpc := LRead\<rparr>"] i(5) False
        by (intro lock_inv_move [OF inv p(1), of w' "?l\<lparr>lpc := LRead\<rparr>"])
          (auto simp: set_locker_def done_turns_def locker_ok_def in_region_def)
    qed
  next
    case LRead
    let ?n = "?l\<lparr>seqno := Some (int ?k), lpc := LPrint\<rparr>"
    have "w' = set_locker p ?n w" using e p LRead i(3) scan_show [OF file_number_bound(1) [OF inv]] by (simp add: lock_exec_def Let_def)
    then show ?thesis using LRead r ok hw [of ?n] i(5)
      by (intro lock_inv_move [OF inv p(1), of w' ?n])
        (auto simp: set_locker_def done_turns_def locker_ok_def in_region_def)
  next
    case LPrint
    let ?n = "?l\<lparr>seqno := Some (int ?k + 1), lpc := LWrite\<rparr>"
    have s: "seqno ?l = Some (int ?k)" "held_by w = Some p" using ok r LPrint by (auto simp: locker_ok_def in_region_def)
    have "how_many ?W (lockers w) = 0" by (rule no_writer [OF inv p(1)]) (simp_all add: s LPrint)
    moreover have "int ?k < LONG_MAX"
      using file_number_bound(2) [OF inv p(1)] ok LPrint by (simp add: locker_ok_def done_turns_def)
    then have "w' = set_locker p ?n (w\<lparr>shown := shown w @ [(p, int ?k)]\<rparr>)"
      using e p LPrint s by (simp add: lock_exec_def Let_def)
    moreover have "k0 \<le> ?k" by (simp add: file_number_def)
    ultimately show ?thesis using LPrint r ok hw [of ?n] i(5) s
      by (intro lock_inv_move [OF inv p(1), of w' ?n])
        (auto simp: set_locker_def done_turns_def locker_ok_def in_region_def)
  next
    case LWrite
    then show ?thesis using lock_inv_write [OF inv p(1) _ e] by simp
  next
    case LUnlock
    let ?n = "?l\<lparr>turn := turn ?l + 1, lpc := LLock\<rparr>"
    have "held_by w = Some p" using r LUnlock by (simp add: in_region_def)
    moreover from this have "w' = set_locker p ?n (w\<lparr>held_by := None\<rparr>)"
      using e p LUnlock by (simp add: lock_exec_def Let_def my_unlock_def)
    ultimately show ?thesis using LUnlock r ok hw [of ?n] i(5)
      by (intro lock_inv_move [OF inv p(1), of w' ?n])
        (auto simp: set_locker_def done_turns_def locker_ok_def in_region_def)
  qed (use e p in \<open>simp_all add: lock_exec_def Let_def\<close>)
qed

interpretation locks: step_invariant "\<lambda>w. w = lock_start np (show_nat k0 @ [NL]) \<and> int (k0 + lock_turns * np) \<le> LONG_MAX" lock_step "lock_inv k0 np" for np k0
  by unfold_locales (auto simp: lock_inv_start lock_step_simps intro: lock_inv_exec)

lemma lock_enabled:
  assumes "p < length (lockers w)" "locker_ok k (lockers w ! p)" "lpc (lockers w ! p) \<noteq> LExit"
    "lpc (lockers w ! p) = LLock \<longrightarrow> held_by w \<in> {None, Some p}"
  shows "\<exists>w'. lock_exec p w = Some w'"
  using assms by (cases "lpc (lockers w ! p)")
    (auto simp: lock_exec_def my_lock_def locker_ok_def Let_def split: option.splits)

lemma lock_progress:
  assumes inv: "lock_inv k0 np w" and p: "p < np" "lpc (lockers w ! p) \<noteq> LExit"
  shows "\<exists>q w'. lock_exec q w = Some w'"
proof (cases "held_by w")
  case None
  then show ?thesis using lock_enabled [OF _ lock_invD(4) [OF inv p(1)]] p lock_invD(1) [OF inv] by auto
next
  case (Some q)
  have q: "q < np" by (rule lock_invD(6) [OF inv Some])
  then have "in_region (lpc (lockers w ! q))" using lock_invD(2) [OF inv q] Some by simp
  then show ?thesis
    using lock_enabled [OF _ lock_invD(4) [OF inv q]] q lock_invD(1) [OF inv] by (auto simp: in_region_def)
qed

text \<open>
  C40: \<open>lockmain\<close>, any number of processes on a file that holds exactly a number and a newline, so low that 20
  more for each process stay in a \<open>long\<close>: nothing undefined happens; the numbers that they print are
  consecutive from that one on, in the order of printing and none twice; the file holds a number at
  every moment; at most one process is between the lock and the unlock; as long as one has not ended
  some process can go on; and at the end 20 numbers for each process were given out.
\<close>

theorem lockmain_numbers:
  assumes "reachable (\<lambda>w. w = lock_start np (show_nat k0 @ [NL])) lock_step w" "int (k0 + lock_turns * np) \<le> LONG_MAX"
  shows "list_all (\<lambda>l. lpc l \<noteq> LUndefined) (lockers w) \<and>
    map snd (shown w) = map int [k0..<k0 + length (shown w)] \<and> scan_ld (content w) = Ok (Some (int (file_number k0 w))) \<and>
    \<not> (\<exists>p q. p < q \<and> q < np \<and> in_region (lpc (lockers w ! p)) \<and> in_region (lpc (lockers w ! q))) \<and>
    (if list_all (\<lambda>l. lpc l = LExit) (lockers w)
     then length (shown w) = lock_turns * np \<and> content w = show_nat (k0 + lock_turns * np) @ [NL]
     else \<exists>p w'. lock_exec p w = Some w')"
proof -
  have inv: "lock_inv k0 np w" using locks.reachable_inv [of np k0 w] assms by simp
  note i = lock_invD [OF inv]
  have len: "length (shown w) = file_number k0 w + how_many (\<lambda>l. lpc l = LWrite) (lockers w) - k0"
    using arg_cong [OF i(5), of length] by simp
  have k0: "k0 \<le> file_number k0 w" by (simp add: file_number_def)
  have "map snd (shown w) = map int [k0..<k0 + length (shown w)]" using i(5) len k0 by simp
  moreover have "\<not> (\<exists>p q. p < q \<and> q < np \<and> in_region (lpc (lockers w ! p)) \<and> in_region (lpc (lockers w ! q)))"
  proof
    assume "\<exists>p q. p < q \<and> q < np \<and> in_region (lpc (lockers w ! p)) \<and> in_region (lpc (lockers w ! q))"
    then obtain p q where pq: "p < q" "q < np" "in_region (lpc (lockers w ! p))" "in_region (lpc (lockers w ! q))"
      by blast
    then have "p < np" by simp
    then show False using i(2) [of p] i(2) [of q] pq by simp
  qed
  moreover have "length (shown w) = lock_turns * np \<and> content w = show_nat (k0 + lock_turns * np) @ [NL]"
    if all: "list_all (\<lambda>l. lpc l = LExit) (lockers w)"
  proof -
    have "done_turns l = lock_turns" if mem: "l \<in> set (lockers w)" for l
    proof -
      obtain r where r: "r < np" "l = lockers w ! r" using mem i(1) by (auto simp: in_set_conv_nth)
      have "lpc l = LExit" using all mem by (simp add: list_all_iff)
      then show ?thesis using i(4) [OF r(1)] r(2) by (simp add: locker_ok_def done_turns_def)
    qed
    then have "map done_turns (lockers w) = map (\<lambda>_. lock_turns) (lockers w)" by simp
    then have "map done_turns (lockers w) = replicate np lock_turns" using i(1) by (simp add: map_replicate_const)
    then have "file_number k0 w = k0 + lock_turns * np" by (simp add: file_number_def sum_list_replicate)
    moreover have "how_many (\<lambda>l. lpc l = LWrite) (lockers w) = 0" using all by (auto simp: how_many_0 list_all_iff)
    ultimately show ?thesis using len i(3) by simp
  qed
  moreover have "\<exists>p w'. lock_exec p w = Some w'" if "\<not> list_all (\<lambda>l. lpc l = LExit) (lockers w)"
    using that lock_progress [OF inv] i(1) by (auto simp: list_all_length)
  moreover have "list_all (\<lambda>l. lpc l \<noteq> LUndefined) (lockers w)"
    unfolding list_all_length
  proof (intro allI impI notI)
    fix p assume "p < length (lockers w)" "lpc (lockers w ! p) = LUndefined"
    with i(1) i(4) [of p] show False by (simp add: locker_ok_def)
  qed
  moreover have "scan_ld (content w) = Ok (Some (int (file_number k0 w)))"
    using i(3) scan_show [OF file_number_bound(1) [OF inv]] by simp
  ultimately show ?thesis by simp
qed

lemma lockmain_numbers_witness:
  "\<exists>w. lock_exec 0 (lock_start 2 ''7\<newline>'') = Some w \<and> scan_ld (content w) = Ok (Some 7) \<and> shown w = []"
proof -
  have n: "show_nat 7 @ [NL] = ''7\<newline>''" by code_simp
  have "case lock_exec 0 (lock_start 2 (show_nat 7 @ [NL])) of None \<Rightarrow> False | Some w \<Rightarrow> file_number 7 w = 7 \<and> shown w = []"
    by code_simp
  from case_option_Some [OF this] obtain w
    where w: "lock_exec 0 (lock_start 2 (show_nat 7 @ [NL])) = Some w" "file_number 7 w = 7" "shown w = []" by blast
  have "reachable (\<lambda>w. w = lock_start 2 (show_nat 7 @ [NL])) lock_step (lock_start 2 (show_nat 7 @ [NL]))"
    by (rule reachable_start)
  moreover have "int (7 + lock_turns * 2) \<le> LONG_MAX" by (simp add: lock_turns_def LONG_MAX_def)
  moreover have "lock_step (lock_start 2 (show_nat 7 @ [NL])) w" using w(1) by (rule lock_stepI)
  ultimately have "scan_ld (content w) = Ok (Some (int (file_number 7 w)))"
    using lockmain_numbers [OF reach_step, of 2 7 "lock_start 2 (show_nat 7 @ [NL])" w] by fast
  then have "scan_ld (content w) = Ok (Some 7)" using w(2) by simp
  with w(1,3) show ?thesis unfolding n by (intro exI [of _ w] conjI)
qed

section \<open>onedameon\<close>

text \<open>\<open>write_lock\<close> is \<open>lock_reg\<close> with \<open>F_SETLK\<close>: it fails at once when another process holds a lock.\<close>

definition write_lock :: "nat \<Rightarrow> nat option \<Rightarrow> nat option" where
  "write_lock pid holder = (if holder \<in> {None, Some pid} then Some pid else None)"

datatype daemon_pc = DTry | DTruncate | DWrite | DPause | DQuit

record daemon_world =
  pid_holder :: "nat option"
  pid_file :: string
  daemons :: "nat \<Rightarrow> daemon_pc"

definition daemon_exec :: "nat \<Rightarrow> daemon_world \<Rightarrow> daemon_world option" where
  "daemon_exec p w =
     (let at = \<lambda>pc w. w\<lparr>daemons := (daemons w)(p := pc)\<rparr> in
      case daemons w p of
        DTry \<Rightarrow> (case write_lock p (pid_holder w) of
              None \<Rightarrow> Some (at DQuit w) | Some q \<Rightarrow> Some (at DTruncate (w\<lparr>pid_holder := Some q\<rparr>)))
      | DTruncate \<Rightarrow> Some (at DWrite (w\<lparr>pid_file := []\<rparr>))
      | DWrite \<Rightarrow> Some (at DPause (w\<lparr>pid_file := overwrite (show_nat p @ [NL]) (pid_file w)\<rparr>))
      | DPause \<Rightarrow> None
      | DQuit \<Rightarrow> None)"

inductive daemon_step :: "daemon_world \<Rightarrow> daemon_world \<Rightarrow> bool" where
  daemon_stepI: "daemon_exec p w = Some w' \<Longrightarrow> daemon_step w w'"

definition daemon_start :: "string \<Rightarrow> daemon_world" where
  "daemon_start old = \<lparr>pid_holder = None, pid_file = old, daemons = (\<lambda>_. DTry)\<rparr>"

definition daemon_inv :: "daemon_world \<Rightarrow> bool" where
  "daemon_inv w \<longleftrightarrow> (\<forall>p. daemons w p \<in> {DTruncate, DWrite, DPause} \<longrightarrow> pid_holder w = Some p) \<and>
     (\<forall>p. daemons w p = DWrite \<longrightarrow> pid_file w = []) \<and> (\<forall>p. daemons w p = DPause \<longrightarrow> pid_file w = show_nat p @ [NL])"

interpretation daemon: step_invariant "\<lambda>w. w = daemon_start old" daemon_step daemon_inv for old
proof
  show "daemon_inv w" if "w = daemon_start old" for w using that by (simp add: daemon_inv_def daemon_start_def)
  show "daemon_inv t" if i: "daemon_inv s" and st: "daemon_step s t" for s t
  proof -
    obtain p where e: "daemon_exec p s = Some t" using st by (auto elim: daemon_step.cases)
    show ?thesis
    proof (cases "daemons s p")
      case DTry
      show ?thesis
      proof (cases "pid_holder s \<in> {None, Some p}")
        case True
        have "daemons s q \<notin> {DTruncate, DWrite, DPause}" for q
          using i DTry True by (cases "q = p") (auto simp: daemon_inv_def)
        then show ?thesis using e DTry True by (auto simp: daemon_exec_def write_lock_def Let_def daemon_inv_def split: if_splits)
      next
        case False
        then have "t = s\<lparr>daemons := (daemons s)(p := DQuit)\<rparr>"
          using e DTry by (auto simp: daemon_exec_def write_lock_def Let_def)
        then show ?thesis using i by (auto simp: daemon_inv_def split: if_splits)
      qed
    next
      case DTruncate
      then have "t = s\<lparr>pid_file := [], daemons := (daemons s)(p := DWrite)\<rparr>" "pid_holder s = Some p"
        using e i by (auto simp: daemon_exec_def Let_def daemon_inv_def)
      then show ?thesis using i unfolding daemon_inv_def by (auto split: if_splits)
    next
      case DWrite
      then have "t = s\<lparr>pid_file := show_nat p @ [NL], daemons := (daemons s)(p := DPause)\<rparr>" "pid_holder s = Some p"
        using e i by (auto simp: daemon_exec_def Let_def daemon_inv_def overwrite_def)
      then show ?thesis using i unfolding daemon_inv_def by (auto split: if_splits)
    qed (use e in \<open>simp_all add: daemon_exec_def Let_def\<close>)
  qed
qed

text \<open>At most one copy runs, and the file holds its number and nothing else.\<close>

lemma onedaemon_unique:
  assumes "reachable (\<lambda>w. w = daemon_start old) daemon_step w" "daemons w p = DPause"
  shows "pid_file w = show_nat p @ [NL] \<and> (\<forall>q. q \<noteq> p \<longrightarrow> daemons w q \<in> {DTry, DQuit})"
proof -
  have i: "daemon_inv w" by (rule daemon.reachable_inv [OF assms(1)])
  then have "pid_holder w = Some p" "pid_file w = show_nat p @ [NL]" using assms(2) by (auto simp: daemon_inv_def)
  moreover have "daemons w q \<in> {DTry, DQuit}" if "q \<noteq> p" for q
    using i that calculation(1) by (cases "daemons w q") (auto simp: daemon_inv_def)
  ultimately show ?thesis by blast
qed

end
