(* ===== verification/Spec2Isabelle.thy ===== *)
theory Spec2Isabelle
  imports EchoTheorems ServerTheorems EarlyServers Clients Locks HierarchicalMutex Containers
    TaskPool ParallelAccumulate PingPong ProdCons PxSemaphore PxSemOpen IoSessionReads SyncIo
    ReadLine Singletons UniqueLocks LockedMaps ThreadHandles Futures DdsSubscribe MqNotify ShmRing
    PipeServers MutexProdCons MyCat SvSemOpen FifoFile FileLocks
begin

text \<open>
  A verification library for DDS-Auto (\<open>src/example\<close>): TCP servers and their clients
  (\<open>example/boost/asio/socket\<close>), threading classes (\<open>example/boost/concurrent\<close>), interprocess
  communication (\<open>example/unix_network\<close>) and DDS publishers and subscribers
  (\<open>example/fastdds\<close>).  The four parts share no code; inside a part the programs are
  successive versions of a design, and most directories hold a copy of the files of the one
  before.

  The socket servers.  A \<open>CServer\<close> accepts connections and keeps its sessions in a map, a
  \<open>CSession\<close> per connection cuts the byte stream into messages (\<open>HandleRead\<close>) and sends through a
  queue (\<open>Send\<close>, \<open>HandleWrite\<close>), \<open>MsgNode\<close>s are the buffers.  The later servers add a
  \<open>LogicSystem\<close>, a worker thread behind a queue that runs callbacks on messages and sends the
  replies, and pools of \<open>io_context\<close>s.
  \<^item> \<open>Prelude\<close>: \<open>short\<close> and \<open>size_t\<close> arithmetic at their widths, outcomes of C++ code (value,
    exception, undefined behaviour), checked \<open>memcpy\<close>, reachable states and the locale
    \<open>step_invariant\<close>, which every transition system of the library interprets.
  \<^item> \<open>MsgNode\<close>: the node classes, their constructors and \<open>Clear\<close> (\<open>MsgNode.h\<close>, \<open>MsgNode.cpp\<close>,
    \<open>CSession.h\<close>).
  \<^item> \<open>SessionRead\<close>: the loop of \<open>CSession::HandleRead\<close>, with the header format, the node, the
    hand-over and the \<open>try\<close> block as the record \<open>proto\<close>; the message grammar \<open>parse_stream\<close>
    that it is meant to compute.
  \<^item> \<open>SessionLaws\<close>, \<open>SessionLoop\<close>, \<open>Termination\<close>: one pass of the loop, the loop, the handler.
    The locale \<open>frame_protocol\<close> is the contract of a header format, \<open>stream_reader\<close> what a
    session promises in return: the same messages in the same order for every cutting of
    the stream.
  \<^item> \<open>SendQueue\<close>: \<open>Send\<close> and \<open>HandleWrite\<close>; the locale \<open>write_pump\<close> and its refinement of a
    queue of encoded messages.
  \<^item> \<open>EchoSession\<close>: both sides of one connection interleaved (locale \<open>echo_session\<close>).
  \<^item> \<open>CServer\<close>: accepts, the session map, callbacks from the sessions; single sessions among
    others.
  \<^item> \<open>EchoServers\<close>, \<open>EchoTheorems\<close>: \<open>AsyncServer03\<close> (two copies) and \<open>AsyncServer04\<close>.
  \<^item> \<open>LogicSystem\<close>: \<open>PostMsgToQue\<close>, \<open>DealMsg\<close> and the destructor as interleaved steps.
  \<^item> \<open>IdSession\<close>, \<open>LogicServers\<close>: the four-byte header with a message id (locale
    \<open>logic_session\<close>); \<open>LogicServer01\<close>, \<open>LogicServer02\<close>, \<open>IoContextPoolServer\<close>,
    \<open>ThreadPoolServer\<close>, \<open>StrandPoolServer\<close>.
  \<^item> \<open>InlineServers\<close>: \<open>ProtobufServer\<close> and \<open>MsgJsonIDServer\<close>.
  \<^item> \<open>CoroutineServer\<close>: the session as a coroutine, shown to read what the others read.
  \<^item> \<open>Pools\<close>, \<open>ServerTheorems\<close>: pools and shutdown, accept races, and the properties of the
    servers from \<open>IdSession\<close> on.
  \<^item> \<open>EarlyServers\<close>: the servers without a header, \<open>AsyncServer01\<close>, \<open>AsyncServer02\<close>, \<open>SyncServer\<close>
    and \<open>CoroutineDemo\<close>, what they send back and where they read a freed session.
  \<^item> \<open>Clients\<close>: the clients of all servers (\<open>sync_client01.cpp\<close>, \<open>Async_async_client04.cpp\<close>, the
    protobuf, JSON and pool clients), composed with the servers they talk to.
  \<^item> \<open>IoSession\<close>, \<open>IoSessionReads\<close>: \<open>Session\<close> of \<open>iooperation/session.cpp\<close>, every way it has to
    read and write; \<open>SyncIo\<close>: the synchronous reads and writes of \<open>iooperation/connection.cpp\<close>.

  The threading classes (\<open>example/boost/concurrent\<close>).  Threads are interleaved at their
  visible calls.
  \<^item> \<open>Locks\<close>, \<open>HierarchicalMutex\<close>, \<open>Containers\<close>: \<open>example02_mutexlock.cpp\<close> (danger and safe swaps,
    lock orders, \<open>hierarchical_mutex\<close>, the stacks) and the queue of
    \<open>example05_condition_variable.cpp\<close>; the locale \<open>stack_contract\<close> has both versions of \<open>pop\<close>.
  \<^item> \<open>PingPong\<close>: the turn-taking threads of \<open>example05_condition_variable.cpp\<close>.
  \<^item> \<open>UniqueLocks\<close>, \<open>LockedMaps\<close>: \<open>example03_uniquelock.cpp\<close>, ownership of locks, \<open>DNService\<close>
    under a shared mutex and \<open>RecursiveDemo\<close>.
  \<^item> \<open>Singletons\<close>: \<open>example04_singleton.cpp\<close>, with the broken and the sound ways to create one.
  \<^item> \<open>ThreadHandles\<close>, \<open>ParallelAccumulate\<close>: \<open>example01_thread.cpp\<close>, joins, guards, moves and the
    parallel sum against the sequential one.
  \<^item> \<open>Futures\<close>: \<open>example06_futurepromise.cpp\<close>.
  \<^item> \<open>TaskPool\<close>: \<open>ThreadPool\<close> of \<open>threadpool.h\<close>.

  Interprocess communication (\<open>example/unix_network\<close>).  A system call is a step or its results
  are an argument.
  \<^item> \<open>CStrings\<close>: C strings and decimal numbers.
  \<^item> \<open>ReadLine\<close>: \<open>lib/readline.cpp\<close> against the
    lines of the input.
  \<^item> \<open>ProdCons\<close> (\<open>pxsem/prodcons1.cpp\<close> to \<open>prodcons4.cpp\<close>), \<open>MyCat\<close> (\<open>pxsem/mycat2.cpp\<close>),
    \<open>MutexProdCons\<close> (\<open>mutex/prodcons2.cpp\<close>, \<open>prodcons3.cpp\<close>, \<open>prodcons6.cpp\<close>): producers and
    consumers over semaphores, mutexes and a condition variable.
  \<^item> \<open>PxSemaphore\<close>, \<open>PxSemOpen\<close>, \<open>SvSemOpen\<close>: semaphores made of a mapped file, of a FIFO and of
    System V semaphores (\<open>my_pxsem_mmap\<close>, \<open>my_pxsem_fifo\<close>, \<open>my_pxsem_svsem\<close>); the locale
    \<open>counting_semaphore\<close> is the abstract semaphore that the FIFO one refines, the one in a mapped
    file is a step relation of its processes, since a lost wake-up keeps it from being one; the
    other two theories show which processes find an initialised one, and who removes it.
  \<^item> \<open>MqNotify\<close>: the notification programs of \<open>pxmsgque\<close>.
  \<^item> \<open>ShmRing\<close>: the ring of
    \<open>pxshm/server2.cpp\<close> and \<open>client2.cpp\<close>.
  \<^item> \<open>FileServers\<close> (\<open>svmsgcliserv\<close>, \<open>svmsgmpx1q\<close>, \<open>svmsgmpxnq\<close>), \<open>PipeServers\<close> (\<open>pipemesg\<close>,
    \<open>fifocliserv\<close>, the descriptors of \<open>mainpipe\<close>), \<open>FifoFile\<close> (\<open>pipe/mainfifo.cpp\<close>, its client
    and server): servers that send the contents of a named file.
  \<^item> \<open>FileLocks\<close>: sequence numbers under a record lock (\<open>lock/lockmain.cpp\<close>, \<open>lib/lock_reg.cpp\<close>) and
    the daemon that runs once (\<open>onedameon.cpp\<close>).

  DDS (\<open>example/fastdds\<close>: \<open>HelloWorldExample\<close>, \<open>HelloWorldExampleDataSharing\<close>,
  \<open>HelloWorldExampleSharedMem\<close>, \<open>ZeroCopyExample\<close>).
  \<^item> \<open>DdsEntities\<close>: \<open>init\<close> and the destructors, what exists at every point of success or failure.
  \<^item> \<open>DdsPublish\<close>: \<open>publish\<close>, the thread of \<open>run\<close> and \<open>on_publication_matched\<close> (locale
    \<open>publishing\<close>).
  \<^item> \<open>DdsSubscribe\<close>: the listeners (locale \<open>reading\<close>) over reader caches that keep the last
    samples, and publisher and subscriber together.

  Correspondence.  A definition carries the name of the function it models, with a prefix for
  the directory where several have one (\<open>as03\<close>, \<open>adh\<close>, \<open>as04\<close>, \<open>pb\<close>, \<open>js\<close>, \<open>lg1\<close>, \<open>lg2\<close>, \<open>iop\<close>,
  \<open>thp\<close>, \<open>stp\<close>, \<open>co\<close>; \<open>sharing\<close>, \<open>shm\<close>, \<open>loan\<close>; \<open>cliserv\<close>, \<open>mpx1q\<close>, \<open>mpxnq\<close>).  A read handler is a
  function from the state of the session to the way it ends (\<open>read_end\<close>: read re-armed,
  session cleared, socket closed, exception swallowed or escaped, undefined); what it does to
  the server follows from that end in \<open>server_read\<close>.  Socket operations are events: a completed
  read brings a non-empty chunk of at most \<open>MAX_LENGTH\<close> bytes, a completed write takes the
  oldest buffer given to \<open>async_write\<close>.  Programs of several threads or processes are step
  relations or lists of choices of who moves; a critical region is one step where the code
  holds the lock throughout and several where it gives it up.

  Bounds and fuel.  \<open>read_loop\<close> and \<open>co_run\<close> take fuel; one unit more than the bytes at hand is
  enough (\<open>read_loop_returns\<close>, \<open>co_run_spec\<close>), because every pass consumes a byte.  The loops
  over a file or a FIFO are run for as many calls as the contents need, and the statements
  give the number.  The producers and consumers make at most
  \<open>6 * np + 5 * nc + 10 * nitems\<close> steps, \<open>mycat2\<close> at most ten for each chunk and 13 more.
  \<open>Futures\<close> follows every interleaving for as many steps as calls are left.  The statements on
  \<open>short\<close> fields hold at width 16 with wrap-around.  The servers refuse a message when more than
  1000 wait in the queue of a session, so the statements that follow replies to the wire are about at
  most 1001 of them.  \<open>UniqueLocks\<close> and \<open>FileLocks\<close> keep \<open>int\<close> and \<open>long\<close> counters as integers with the
  overflow as an undefined step, and their statements assume that it is not reached; pathnames in
  \<open>FileServers\<close> are cut at the size of the message buffer (\<open>path_fits\<close>).

  Parameters.  JsonCpp and protobuf are records of functions (\<open>json_api\<close>, \<open>pb_api\<close>);
  \<open>io_context::run\<close>, \<open>std::lock\<close>, promises and futures are their documented contracts; uuids are
  arguments, assumed fresh where a statement needs it.  What the create calls of Fast DDS
  return and its default QoS (the history depth of the readers where the code sets none), what \<open>take\<close> and \<open>take_next_sample\<close> bring, the results of \<open>read\<close>, the
  files (\<open>fs\<close>) and the error texts (\<open>err\<close>) are arguments.

  Not modelled.
  \<^item> Vendored code (\<open>thirdparty\<close>) and generated code: the DDS types of \<open>fastdds\<close>, the example of
    \<open>idl\<close>, the protobuf class.
  \<^item> The wrappers of system calls (\<open>lib/wrapunix.cpp\<close>, \<open>wrappthread.cpp\<close>, \<open>wrapstdio.cpp\<close>, \<open>error.cpp\<close>,
    \<open>common/unpipc.h\<close>): each calls one function and ends the program on an error.
  \<^item> Programs around one or two system calls (\<open>svmsg\<close>, \<open>svsem\<close>, \<open>svshm\<close>, \<open>shm\<close>, \<open>rtsignals\<close>, the
    create, unlink and get-value programs of \<open>pxsem\<close> and \<open>pxmsgque\<close>), \<open>pipe/mainpopen.cpp\<close>,
    \<open>pipe/fduplex.cpp\<close>, and \<open>lock/test2.cpp\<close>, \<open>test3.cpp\<close>, which time the order of waiting locks.
  \<^item> \<open>endpoint\<close>, and the tutorial programs of Boost.Interprocess, Asio, Coroutine2 and Fiber
    (\<open>Interprocess\<close>, \<open>daytime\<close>, \<open>coroutine2\<close>, \<open>fiber\<close>), which exercise those libraries.
  \<^item> Logging and \<open>main\<close> functions that only start what is modelled; the data race of
    \<open>ThreadPoolServer\<close> (its handlers are single steps here); the \<open>CServer\<close>s of
    \<open>CoroutineServer\<close> and \<open>AsyncServer02\<close>, copies of the ones modelled.
\<close>

end
